theory Spec2Isabelle
  imports Main "HOL-Library.Multiset"
begin

section \<open>Ordered associative containers backing the indices\<close>

text \<open>
  The index maps are the standard node-based ordered containers the tests instantiate
  (\<open>std::map\<close>, \<open>std::multimap\<close>).  Such a container is the list of its entries in
  iteration order: ascending by key, entries with equal keys in insertion order.  A raw
  iterator is a position in that list and \<open>end()\<close> is its length.  \<open>kf\<close> extracts the
  key of an entry.
\<close>

definition lower_bound :: "('a \<Rightarrow> 'k::linorder) \<Rightarrow> 'k \<Rightarrow> 'a list \<Rightarrow> nat" where
  "lower_bound kf k xs = length (takeWhile (\<lambda>x. kf x < k) xs)"

definition upper_bound :: "('a \<Rightarrow> 'k::linorder) \<Rightarrow> 'k \<Rightarrow> 'a list \<Rightarrow> nat" where
  "upper_bound kf k xs = length (takeWhile (\<lambda>x. kf x \<le> k) xs)"

definition map_equal_range :: "('a \<Rightarrow> 'k::linorder) \<Rightarrow> 'k \<Rightarrow> 'a list \<Rightarrow> nat \<times> nat" where
  "map_equal_range kf k xs = (lower_bound kf k xs, upper_bound kf k xs)"

definition map_find :: "('a \<Rightarrow> 'k::linorder) \<Rightarrow> 'k \<Rightarrow> 'a list \<Rightarrow> nat" where
  "map_find kf k xs =
     (let f = lower_bound kf k xs
      in if f < length xs \<and> kf (xs ! f) = k then f else length xs)"

definition insert_at :: "nat \<Rightarrow> 'a \<Rightarrow> 'a list \<Rightarrow> 'a list" where
  "insert_at i x xs = take i xs @ x # drop i xs"

definition map_erase :: "nat \<Rightarrow> 'a list \<Rightarrow> 'a list" where
  "map_erase i xs = take i xs @ drop (Suc i) xs"

text \<open>\<open>std::map::insert\<close> / \<open>try_emplace\<close>: position of the entry and whether it was inserted.\<close>

definition insert_unique :: "('a \<Rightarrow> 'k::linorder) \<Rightarrow> 'a \<Rightarrow> 'a list \<Rightarrow> (nat \<times> bool) \<times> 'a list" where
  "insert_unique kf x xs =
     (let f = lower_bound kf (kf x) xs
      in if f < length xs \<and> kf (xs ! f) = kf x then ((f, False), xs)
         else ((f, True), insert_at f x xs))"

text \<open>\<open>std::multimap::insert\<close>: the new entry goes to the upper bound of its equal range.\<close>

definition insert_multi :: "('a \<Rightarrow> 'k::linorder) \<Rightarrow> 'a \<Rightarrow> 'a list \<Rightarrow> nat \<times> 'a list" where
  "insert_multi kf x xs =
     (let u = upper_bound kf (kf x) xs in (u, insert_at u x xs))"

section \<open>Policies, index specifications, records\<close>

datatype policy =
    S_NoInv
  | S_UpdatePointerPolicyFull bool
  | S_TranslationArrayPolicyFull bool
  | S_KeyLookupPolicy

fun c_invalidates :: "policy \<Rightarrow> bool" where
  "c_invalidates S_NoInv = False"
| "c_invalidates (S_UpdatePointerPolicyFull I_Tombs) = True"
| "c_invalidates (S_TranslationArrayPolicyFull I_Tombs) = True"
| "c_invalidates S_KeyLookupPolicy = False"

fun c_needs_translation_array :: "policy \<Rightarrow> bool" where
  "c_needs_translation_array S_NoInv = False"
| "c_needs_translation_array (S_UpdatePointerPolicyFull I_Tombs) = False"
| "c_needs_translation_array (S_TranslationArrayPolicyFull I_Tombs) = True"
| "c_needs_translation_array S_KeyLookupPolicy = False"

fun c_stores_handle :: "policy \<Rightarrow> bool" where
  "c_stores_handle S_NoInv = True"
| "c_stores_handle (S_UpdatePointerPolicyFull I_Tombs) = True"
| "c_stores_handle (S_TranslationArrayPolicyFull I_Tombs) = False"
| "c_stores_handle S_KeyLookupPolicy = False"

fun c_uses_tombstones :: "policy \<Rightarrow> bool" where
  "c_uses_tombstones S_NoInv = False"
| "c_uses_tombstones (S_UpdatePointerPolicyFull I_Tombs) = I_Tombs"
| "c_uses_tombstones (S_TranslationArrayPolicyFull I_Tombs) = I_Tombs"
| "c_uses_tombstones S_KeyLookupPolicy = False"

text \<open>
  A secondary \<open>T_Index\<close>: whether its map is a unique one (\<open>is_unique_v\<close>) and its
  projection from (key, payload) to the sub-key.
\<close>

record ('k, 'p, 's) T_Index =
  is_unique :: bool
  Project :: "'k \<Rightarrow> 'p \<Rightarrow> 's"

text \<open>
  The template arguments of one instantiation: the policy, whether the primary map is
  unique, the secondary specs in declaration order, and whether \<open>Replace\<close> is compiled
  with its equality short cut (\<open>O_EqualityComparable<P_Payload>\<close> and the new value has
  the payload type).
\<close>

record ('k, 'p, 's) config =
  P_Policy :: policy
  c_primary_is_unique :: bool
  P_Specs :: "('k, 'p, 's) T_Index list"
  c_payload_comparable :: bool

definition c_tombstones :: "('k, 'p, 's) config \<Rightarrow> bool" where
  "c_tombstones cfg = c_uses_tombstones (P_Policy cfg)"

definition c_needs_transl_array :: "('k, 'p, 's) config \<Rightarrow> bool" where
  "c_needs_transl_array cfg = c_needs_translation_array (P_Policy cfg)"

text \<open>
  One pair of the primary map: the key \<open>first\<close> and the fields of its \<open>T_PayloadWrap\<close>
  (\<open>m_value\<close>, \<open>dead\<close>, \<open>trans_idx\<close>; a wrapper shape without a field keeps its initial
  value), together with the address \<open>addr\<close> at which the node lives.  A \<open>T_Handle\<close> and an
  iterator of the node-based primary are that address; the null handle and \<open>end()\<close> are 0.
  The primary is node-stable, so no pair is ever relocated and \<open>OnRelocate\<close> never runs;
  the owner back-pointer \<open>m_p_owner\<close>, which only serves that callback, is left out.
\<close>

record ('k, 'p) t_pair =
  addr :: nat
  first :: 'k
  m_value :: 'p
  dead :: bool
  trans_idx :: nat

text \<open>The value a secondary map stores: a handle, an ordinal into \<open>transl\<close>, or a primary key.\<close>

datatype 'k sec_value = SHandle nat | SOrdinal nat | SKey 'k

record ('k, 'p, 's) T_MultiIndex =
  m_storage :: "('k, 'p) t_pair list"
  m_second :: "('s \<times> 'k sec_value) list list"
  transl :: "nat list"
  m_live :: nat

datatype 'a outcome = Returned 'a | Threw

definition empty_mi :: "('k, 'p, 's) config \<Rightarrow> ('k, 'p, 's) T_MultiIndex" where
  "empty_mi cfg =
     \<lparr>m_storage = [], m_second = replicate (length (P_Specs cfg)) [], transl = [], m_live = 0\<rparr>"

section \<open>Live counter\<close>

text \<open>
  \<open>T_LiveCounterBase\<close>: without tombstones the counter is an empty base and every
  operation on it does nothing.  \<open>m_live\<close> is a \<open>size_t\<close>; decrementing it at 0 wraps.
\<close>

definition IncrementLive :: "('k, 'p, 's) config \<Rightarrow> ('k, 'p, 's) T_MultiIndex \<Rightarrow> ('k, 'p, 's) T_MultiIndex" where
  "IncrementLive cfg s = (if c_tombstones cfg then s\<lparr>m_live := m_live s + 1\<rparr> else s)"

definition DecrementLive :: "('k, 'p, 's) config \<Rightarrow> ('k, 'p, 's) T_MultiIndex \<Rightarrow> ('k, 'p, 's) T_MultiIndex" where
  "DecrementLive cfg s =
     (if c_tombstones cfg
      then s\<lparr>m_live := (if m_live s = 0 then 2 ^ 64 - 1 else m_live s - 1)\<rparr> else s)"

definition SetLive :: "('k, 'p, 's) config \<Rightarrow> nat \<Rightarrow> ('k, 'p, 's) T_MultiIndex \<Rightarrow> ('k, 'p, 's) T_MultiIndex" where
  "SetLive cfg n s = (if c_tombstones cfg then s\<lparr>m_live := n\<rparr> else s)"

definition size_mi :: "('k, 'p, 's) config \<Rightarrow> ('k, 'p, 's) T_MultiIndex \<Rightarrow> nat" where
  "size_mi cfg s = (if c_tombstones cfg then m_live s else length (m_storage s))"

section \<open>Iterators over the primary\<close>

definition end_it :: nat where
  "end_it = 0"

definition pos_of :: "('k, 'p) t_pair list \<Rightarrow> nat \<Rightarrow> nat" where
  "pos_of st it = length (takeWhile (\<lambda>n. addr n \<noteq> it) st)"

definition iter_at :: "('k, 'p) t_pair list \<Rightarrow> nat \<Rightarrow> nat" where
  "iter_at st i = (if i < length st then addr (st ! i) else end_it)"

function SkipDead :: "('k, 'p) t_pair list \<Rightarrow> nat \<Rightarrow> nat \<Rightarrow> nat" where
  "SkipDead st it e =
     (if it \<noteq> e \<and> it < length st \<and> dead (st ! it) then SkipDead st (Suc it) e else it)"
  by pat_completeness auto
termination
  by (relation "measure (\<lambda>(st, it, e). length st - it)") auto

declare SkipDead.simps [simp del]

text \<open>\<open>ToIterator\<close>: under tombstones the \<open>T_LiveIter\<close> constructor skips dead pairs up to \<open>m_storage.end()\<close>.\<close>

definition ToIterator :: "('k, 'p, 's) config \<Rightarrow> ('k, 'p, 's) T_MultiIndex \<Rightarrow> nat \<Rightarrow> nat" where
  "ToIterator cfg s it =
     (if c_tombstones cfg
      then iter_at (m_storage s) (SkipDead (m_storage s) it (length (m_storage s)))
      else iter_at (m_storage s) it)"

definition ToHandle_it :: "nat \<Rightarrow> nat" where
  "ToHandle_it it = (if it = end_it then 0 else it)"

definition equal_range_mi :: "('k::linorder, 'p, 's) config \<Rightarrow> ('k, 'p, 's) T_MultiIndex \<Rightarrow> 'k \<Rightarrow> nat \<times> nat" where
  "equal_range_mi cfg s key =
     (case map_equal_range first key (m_storage s) of
        (f, l) \<Rightarrow> (ToIterator cfg s f, ToIterator cfg s l))"

definition find_mi :: "('k::linorder, 'p, 's) config \<Rightarrow> ('k, 'p, 's) T_MultiIndex \<Rightarrow> 'k \<Rightarrow> nat" where
  "find_mi cfg s key =
     (case map_equal_range first key (m_storage s) of
        (it, it_l) \<Rightarrow>
          if c_tombstones cfg then
            (if it = it_l then end_it
             else if dead (m_storage s ! it) then
               (if \<not> c_primary_is_unique cfg then
                  (let it' = SkipDead (m_storage s) it it_l
                   in if it' = it_l then end_it else ToIterator cfg s it')
                else end_it)
             else ToIterator cfg s it)
          else (if it = it_l then end_it else iter_at (m_storage s) it))"

definition contains_mi :: "('k::linorder, 'p, 's) config \<Rightarrow> ('k, 'p, 's) T_MultiIndex \<Rightarrow> 'k \<Rightarrow> bool" where
  "contains_mi cfg s key = (find_mi cfg s key \<noteq> end_it)"

text \<open>
  Iteration \<open>for (it = begin(); it != end(); ++it)\<close> over the primary, in positions:
  \<open>begin()\<close> is \<open>ToIterator(m_storage.begin())\<close>, and \<open>++\<close> of a \<open>T_LiveIter\<close> steps once and
  skips dead pairs.  \<open>visible\<close> lists the addresses of the pairs the loop visits.
\<close>

definition begin_pos :: "('k, 'p, 's) config \<Rightarrow> ('k, 'p, 's) T_MultiIndex \<Rightarrow> nat" where
  "begin_pos cfg s =
     (if c_tombstones cfg then SkipDead (m_storage s) 0 (length (m_storage s)) else 0)"

definition next_pos :: "('k, 'p, 's) config \<Rightarrow> ('k, 'p, 's) T_MultiIndex \<Rightarrow> nat \<Rightarrow> nat" where
  "next_pos cfg s i =
     (if c_tombstones cfg then SkipDead (m_storage s) (Suc i) (length (m_storage s)) else Suc i)"

function visit :: "('k, 'p, 's) config \<Rightarrow> ('k, 'p, 's) T_MultiIndex \<Rightarrow> nat \<Rightarrow> nat list" where
  "visit cfg s i =
     (if i < length (m_storage s) then addr (m_storage s ! i) # visit cfg s (next_pos cfg s i) else [])"
  by pat_completeness auto
termination
proof (relation "measure (\<lambda>(cfg, s, i). length (m_storage s) - i)")
  show "wf (measure (\<lambda>(cfg, s, i). length (m_storage s) - i))" by simp
next
  fix cfg :: "('k, 'p, 's) config" and s :: "('k, 'p, 's) T_MultiIndex" and i
  assume i: "i < length (m_storage s)"
  have "it \<le> SkipDead st it e" for st :: "('k, 'p) t_pair list" and it e
  proof (induction st it e rule: SkipDead.induct)
    case (1 st it e)
    show ?case
    proof (cases "it \<noteq> e \<and> it < length st \<and> dead (st ! it)")
      case True
      then have "Suc it \<le> SkipDead st (Suc it) e" by (rule "1.IH")
      then show ?thesis using True by (subst SkipDead.simps) simp
    next
      case False
      then show ?thesis by (subst SkipDead.simps) auto
    qed
  qed
  then have "Suc i \<le> next_pos cfg s i" by (simp add: next_pos_def)
  then show "((cfg, s, next_pos cfg s i), (cfg, s, i)) \<in> measure (\<lambda>(cfg, s, i). length (m_storage s) - i)"
    using i by simp
qed

declare visit.simps [simp del]

definition visible :: "('k, 'p, 's) config \<Rightarrow> ('k, 'p, 's) T_MultiIndex \<Rightarrow> nat list" where
  "visible cfg s = visit cfg s (begin_pos cfg s)"

section \<open>Policy callbacks\<close>

text \<open>
  A handle parameter that a function only reads through (\<open>h.Key()\<close>, \<open>h.Payload()\<close>,
  \<open>h.Raw()\<close>) is passed as the pair it points to at the time of the call.
\<close>

fun GetSecondaryValue :: "policy \<Rightarrow> ('k, 'p) t_pair \<Rightarrow> 'k sec_value" where
  "GetSecondaryValue S_NoInv h = SHandle (addr h)"
| "GetSecondaryValue (S_UpdatePointerPolicyFull I_Tombs) h = SHandle (addr h)"
| "GetSecondaryValue (S_TranslationArrayPolicyFull I_Tombs) h = SOrdinal (trans_idx h)"
| "GetSecondaryValue S_KeyLookupPolicy h = SKey (first h)"

fun MatchSecondary :: "policy \<Rightarrow> nat list \<Rightarrow> 'k sec_value \<Rightarrow> ('k, 'p) t_pair \<Rightarrow> bool" where
  "MatchSecondary S_NoInv tr v h = (v = SHandle (addr h))"
| "MatchSecondary (S_UpdatePointerPolicyFull I_Tombs) tr v h = (v = SHandle (addr h))"
| "MatchSecondary (S_TranslationArrayPolicyFull I_Tombs) tr v h =
     (case v of SOrdinal idx \<Rightarrow> tr ! idx = addr h | _ \<Rightarrow> False)"
| "MatchSecondary S_KeyLookupPolicy tr v h = (v = SKey (first h))"

text \<open>The policy's \<open>ToHandle\<close>: from a stored secondary value back to a handle.\<close>

fun ToHandle :: "policy \<Rightarrow> ('k::linorder, 'p, 's) T_MultiIndex \<Rightarrow> 'k sec_value \<Rightarrow> nat" where
  "ToHandle S_NoInv s v = (case v of SHandle h \<Rightarrow> h | _ \<Rightarrow> 0)"
| "ToHandle (S_UpdatePointerPolicyFull I_Tombs) s v = (case v of SHandle h \<Rightarrow> h | _ \<Rightarrow> 0)"
| "ToHandle (S_TranslationArrayPolicyFull I_Tombs) s v =
     (case v of SOrdinal idx \<Rightarrow> transl s ! idx | _ \<Rightarrow> 0)"
| "ToHandle S_KeyLookupPolicy s v =
     (case v of
        SKey k \<Rightarrow>
          (let it = map_find first k (m_storage s)
           in if it = length (m_storage s) then 0 else addr (m_storage s ! it))
      | _ \<Rightarrow> 0)"

definition OnEmplaceSuccess :: "('k, 'p, 's) config \<Rightarrow> nat \<Rightarrow> ('k, 'p, 's) T_MultiIndex \<Rightarrow> ('k, 'p, 's) T_MultiIndex" where
  "OnEmplaceSuccess cfg it s =
     (if c_needs_transl_array cfg
      then s\<lparr>m_storage := (m_storage s)[it := (m_storage s ! it)\<lparr>trans_idx := length (transl s)\<rparr>],
             transl := transl s @ [addr (m_storage s ! it)]\<rparr>
      else s)"

definition OnEmplaceFail :: "('k, 'p, 's) config \<Rightarrow> ('k, 'p, 's) T_MultiIndex \<Rightarrow> ('k, 'p, 's) T_MultiIndex" where
  "OnEmplaceFail cfg s =
     (if c_needs_transl_array cfg
      then (if transl s \<noteq> [] then s\<lparr>transl := butlast (transl s)\<rparr> else s)
      else s)"

definition PolicyClear :: "('k, 'p, 's) config \<Rightarrow> ('k, 'p, 's) T_MultiIndex \<Rightarrow> ('k, 'p, 's) T_MultiIndex" where
  "PolicyClear cfg s = (if c_needs_transl_array cfg then s\<lparr>transl := []\<rparr> else s)"

section \<open>Maintaining the secondaries\<close>

text \<open>
  The loop shared by \<open>Rollback\<close>, \<open>DropSecs\<close> and \<open>EraseByHandle\<close>:
  \<open>for (it = f; it != l; ++it) if (match(it)) { m.erase(it); break; }\<close>
\<close>

function erase_first_match :: "('a \<Rightarrow> bool) \<Rightarrow> nat \<Rightarrow> nat \<Rightarrow> 'a list \<Rightarrow> 'a list" where
  "erase_first_match P it l m =
     (if it \<noteq> l \<and> it < length m
      then (if P (m ! it) then map_erase it m else erase_first_match P (Suc it) l m)
      else m)"
  by pat_completeness auto
termination
  by (relation "measure (\<lambda>(P, it, l, m). length m - it)") auto

declare erase_first_match.simps [simp del]

text \<open>The body run for secondary \<open>I_J\<close> on its map \<open>m\<close>: project, take the equal range, erase the entry of \<open>h\<close>.\<close>

definition drop_entry ::
  "('k, 'p, 's::linorder) config \<Rightarrow> nat list \<Rightarrow> ('k, 'p) t_pair \<Rightarrow> nat \<Rightarrow> ('s \<times> 'k sec_value) list
     \<Rightarrow> ('s \<times> 'k sec_value) list" where
  "drop_entry cfg tr h I_J m =
     (let k = Project (P_Specs cfg ! I_J) (first h) (m_value h)
      in case map_equal_range fst k m of
           (f, l) \<Rightarrow> erase_first_match (\<lambda>e. MatchSecondary (P_Policy cfg) tr (snd e) h) f l m)"

definition Rollback ::
  "('k, 'p, 's::linorder) config \<Rightarrow> nat list \<Rightarrow> nat \<Rightarrow> ('k, 'p) t_pair \<Rightarrow> ('s \<times> 'k sec_value) list list
     \<Rightarrow> ('s \<times> 'k sec_value) list list" where
  "Rollback cfg tr I_I h secs =
     map (\<lambda>I_J. if I_J < I_I then drop_entry cfg tr h I_J (secs ! I_J) else secs ! I_J)
       [0 ..< length (P_Specs cfg)]"

definition DropSecs_tuple ::
  "('k, 'p, 's::linorder) config \<Rightarrow> nat list \<Rightarrow> nat option \<Rightarrow> ('k, 'p) t_pair \<Rightarrow> ('s \<times> 'k sec_value) list list
     \<Rightarrow> ('s \<times> 'k sec_value) list list" where
  "DropSecs_tuple cfg tr I_Ignore h secs =
     map (\<lambda>I_I. if Some I_I \<noteq> I_Ignore then drop_entry cfg tr h I_I (secs ! I_I) else secs ! I_I)
       [0 ..< length (P_Specs cfg)]"

definition DropSecs ::
  "('k, 'p, 's::linorder) config \<Rightarrow> nat option \<Rightarrow> ('k, 'p) t_pair \<Rightarrow> ('k, 'p, 's) T_MultiIndex
     \<Rightarrow> ('k, 'p, 's) T_MultiIndex" where
  "DropSecs cfg I_Ignore h s = s\<lparr>m_second := DropSecs_tuple cfg (transl s) I_Ignore h (m_second s)\<rparr>"

text \<open>
  \<open>AddSecs\<close>: the fold over the secondaries stops at the first \<open>false\<close>.  \<open>thr\<close> names the
  secondary whose \<open>insert\<close> throws (an allocation failure), if any; the handler of
  \<open>AddSecs\<close> then runs \<open>DropSecs\<close> and rethrows.
\<close>

function AddSecs_from ::
  "('k, 'p, 's::linorder) config \<Rightarrow> nat option \<Rightarrow> nat list \<Rightarrow> ('k, 'p) t_pair \<Rightarrow> nat
     \<Rightarrow> ('s \<times> 'k sec_value) list list \<Rightarrow> bool outcome \<times> ('s \<times> 'k sec_value) list list" where
  "AddSecs_from cfg thr tr h I_I secs =
     (if I_I < length (P_Specs cfg) then
        (let m = secs ! I_I;
             k = Project (P_Specs cfg ! I_I) (first h) (m_value h)
         in if thr = Some I_I then (Threw, DropSecs_tuple cfg tr None h secs)
            else if is_unique (P_Specs cfg ! I_I) then
              (case insert_unique fst (k, GetSecondaryValue (P_Policy cfg) h) m of
                 ((_, ok), m') \<Rightarrow>
                   if \<not> ok then (Returned False, Rollback cfg tr I_I h secs)
                   else AddSecs_from cfg thr tr h (Suc I_I) (secs[I_I := m']))
            else
              AddSecs_from cfg thr tr h (Suc I_I)
                (secs[I_I := snd (insert_multi fst (k, GetSecondaryValue (P_Policy cfg) h) m)]))
      else (Returned True, secs))"
  by pat_completeness auto
termination
  by (relation "measure (\<lambda>(cfg, thr, tr, h, I_I, secs). length (P_Specs cfg) - I_I)") auto

declare AddSecs_from.simps [simp del]

definition AddSecs ::
  "('k, 'p, 's::linorder) config \<Rightarrow> nat option \<Rightarrow> ('k, 'p) t_pair \<Rightarrow> ('k, 'p, 's) T_MultiIndex
     \<Rightarrow> bool outcome \<times> ('k, 'p, 's) T_MultiIndex" where
  "AddSecs cfg thr h s =
     (case AddSecs_from cfg thr (transl s) h 0 (m_second s) of
        (r, secs) \<Rightarrow> (r, s\<lparr>m_second := secs\<rparr>))"

section \<open>emplace\<close>

text \<open>The allocator hands out an address that no pair of the primary occupies.\<close>

definition new_addr :: "('k, 'p) t_pair list \<Rightarrow> nat" where
  "new_addr st = Suc (fold max (map addr st) 0)"

definition upd_pair ::
  "nat \<Rightarrow> (('k, 'p) t_pair \<Rightarrow> ('k, 'p) t_pair) \<Rightarrow> ('k, 'p, 's) T_MultiIndex \<Rightarrow> ('k, 'p, 's) T_MultiIndex" where
  "upd_pair i f s = s\<lparr>m_storage := (m_storage s)[i := f (m_storage s ! i)]\<rparr>"

text \<open>The revival branch; \<open>it0\<close> is the raw iterator of the dead pair.\<close>

definition emplace_revive ::
  "('k, 'p, 's::linorder) config \<Rightarrow> nat option \<Rightarrow> nat \<Rightarrow> 'p \<Rightarrow> ('k, 'p, 's) T_MultiIndex
     \<Rightarrow> (nat \<times> bool) outcome \<times> ('k, 'p, 's) T_MultiIndex" where
  "emplace_revive cfg thr it0 v s =
     (let s1 = upd_pair it0 (\<lambda>h. h\<lparr>dead := False, m_value := v\<rparr>) s
      in case AddSecs cfg thr (m_storage s1 ! it0) s1 of
           (Returned ok, s2) \<Rightarrow>
             if \<not> ok then
               (let s3 = upd_pair it0 (\<lambda>h. h\<lparr>dead := True\<rparr>) s2
                in (Returned (ToIterator cfg s3 (length (m_storage s3)), False), s3))
             else
               (let s3 = IncrementLive cfg s2
                in (Returned (ToIterator cfg s3 it0, True), s3))
         | (Threw, s2) \<Rightarrow> (Threw, upd_pair it0 (\<lambda>h. h\<lparr>dead := True\<rparr>) s2))"

text \<open>The part after the primary insert; \<open>it\<close> is the raw iterator of the new pair.\<close>

definition emplace_new ::
  "('k, 'p, 's::linorder) config \<Rightarrow> nat option \<Rightarrow> nat \<Rightarrow> ('k, 'p, 's) T_MultiIndex
     \<Rightarrow> (nat \<times> bool) outcome \<times> ('k, 'p, 's) T_MultiIndex" where
  "emplace_new cfg thr it s =
     (let s1 = OnEmplaceSuccess cfg it s
      in case AddSecs cfg thr (m_storage s1 ! it) s1 of
           (Returned ok, s2) \<Rightarrow>
             if \<not> ok then
               (let s3 = OnEmplaceFail cfg s2;
                    s4 = s3\<lparr>m_storage := map_erase it (m_storage s3)\<rparr>
                in (Returned (ToIterator cfg s4 (length (m_storage s4)), False), s4))
             else
               (let s3 = IncrementLive cfg s2
                in (Returned (ToIterator cfg s3 it, True), s3))
         | (Threw, s2) \<Rightarrow>
             (let s3 = OnEmplaceFail cfg s2
              in (Threw, s3\<lparr>m_storage := map_erase it (m_storage s3)\<rparr>)))"

definition emplace ::
  "('k::linorder, 'p, 's::linorder) config \<Rightarrow> nat option \<Rightarrow> 'k \<Rightarrow> 'p \<Rightarrow> ('k, 'p, 's) T_MultiIndex
     \<Rightarrow> (nat \<times> bool) outcome \<times> ('k, 'p, 's) T_MultiIndex" where
  "emplace cfg thr k v s =
     (let w = \<lparr>addr = new_addr (m_storage s), first = k, m_value = v,
               dead = False, trans_idx = 0\<rparr>
      in if c_primary_is_unique cfg then
           (let it0 = map_find first k (m_storage s)
            in if c_tombstones cfg \<and> it0 \<noteq> length (m_storage s) then
                 (if dead (m_storage s ! it0) then emplace_revive cfg thr it0 v s
                  else (Returned (ToIterator cfg s it0, False), s))
               else
                 (case insert_unique first w (m_storage s) of
                    ((it, ok), st') \<Rightarrow>
                      if \<not> ok then (Returned (ToIterator cfg s it, False), s)
                      else emplace_new cfg thr it (s\<lparr>m_storage := st'\<rparr>)))
         else
           (case insert_multi first w (m_storage s) of
              (it, st') \<Rightarrow> emplace_new cfg thr it (s\<lparr>m_storage := st'\<rparr>)))"

section \<open>modify and replace\<close>

text \<open>
  The lambda \<open>restore_old\<close>.  Its \<open>AddSecs\<close> can throw like any other; \<open>thr\<close> names the
  secondary whose insert throws during this re-add, if any.  The lambda returns nothing:
  the result says only whether it returned or threw.
\<close>

definition restore_old ::
  "('k, 'p, 's::linorder) config \<Rightarrow> nat option \<Rightarrow> nat \<Rightarrow> 'p \<Rightarrow> bool \<Rightarrow> ('k, 'p, 's) T_MultiIndex
     \<Rightarrow> bool outcome \<times> ('k, 'p, 's) T_MultiIndex" where
  "restore_old cfg thr i old old_flag s =
     (let s1 = upd_pair i (\<lambda>h. h\<lparr>m_value := old\<rparr>) s
      in if c_tombstones cfg then
           (let s2 = upd_pair i (\<lambda>h. h\<lparr>dead := old_flag\<rparr>) s1
            in if \<not> old_flag then AddSecs cfg thr (m_storage s2 ! i) s2 else (Returned True, s2))
         else AddSecs cfg thr (m_storage s1 ! i) s1)"

text \<open>
  \<open>UpdateCore\<close>; the mutation \<open>mut\<close> returns \<open>None\<close> when it throws.  \<open>i\<close> is the position
  of the pair the handle points to.  \<open>thr\<close> names the secondary whose insert throws in the
  \<open>AddSecs\<close> that follows the mutation, \<open>thr_r\<close> the one whose insert throws in the \<open>AddSecs\<close>
  of \<open>restore_old\<close>.  No handler surrounds either call: an exception of the first leaves
  \<open>UpdateCore\<close> after the handler of \<open>AddSecs\<close> has run, one of the second leaves it from
  inside \<open>restore_old\<close>.
\<close>

definition UpdateCore ::
  "('k, 'p, 's::linorder) config \<Rightarrow> nat option \<Rightarrow> nat option \<Rightarrow> nat \<Rightarrow> ('p \<Rightarrow> 'p option)
     \<Rightarrow> ('k, 'p, 's) T_MultiIndex \<Rightarrow> bool outcome \<times> ('k, 'p, 's) T_MultiIndex" where
  "UpdateCore cfg thr thr_r h mut s =
     (if h = 0 then (Returned False, s)
      else
        (let i = pos_of (m_storage s) h;
             old = m_value (m_storage s ! i);
             old_flag = (if c_tombstones cfg then dead (m_storage s ! i) else False);
             s1 = (if c_tombstones cfg then upd_pair i (\<lambda>h. h\<lparr>dead := False\<rparr>) s else s);
             s2 = (if c_tombstones cfg
                   then (if \<not> old_flag then DropSecs cfg None (m_storage s1 ! i) s1 else s1)
                   else DropSecs cfg None (m_storage s1 ! i) s1)
         in case mut (m_value (m_storage s2 ! i)) of
              None \<Rightarrow> (Threw, snd (restore_old cfg thr_r i old old_flag s2))
            | Some p \<Rightarrow>
                (let s3 = upd_pair i (\<lambda>h. h\<lparr>m_value := p\<rparr>) s2
                 in case AddSecs cfg thr (m_storage s3 ! i) s3 of
                      (Returned ok, s4) \<Rightarrow>
                        if \<not> ok then
                          (case restore_old cfg thr_r i old old_flag s4 of
                             (Returned r, s5) \<Rightarrow> (Returned False, s5)
                           | (Threw, s5) \<Rightarrow> (Threw, s5))
                        else (Returned True,
                              if c_tombstones cfg \<and> old_flag then IncrementLive cfg s4 else s4)
                    | (Threw, s4) \<Rightarrow> (Threw, s4))))"

definition Replace ::
  "('k, 'p, 's::linorder) config \<Rightarrow> nat option \<Rightarrow> nat option \<Rightarrow> nat \<Rightarrow> 'p \<Rightarrow> ('k, 'p, 's) T_MultiIndex
     \<Rightarrow> bool outcome \<times> ('k, 'p, 's) T_MultiIndex" where
  "Replace cfg thr thr_r h v s =
     (if h = 0 then (Returned False, s)
      else
        (let pr = m_storage s ! pos_of (m_storage s) h;
             is_live = (if c_tombstones cfg then \<not> dead pr else True)
         in if c_payload_comparable cfg \<and> is_live \<and> m_value pr = v then (Returned True, s)
            else UpdateCore cfg thr thr_r h (\<lambda>dst. Some v) s))"

definition replace_mi ::
  "('k, 'p, 's::linorder) config \<Rightarrow> nat option \<Rightarrow> nat option \<Rightarrow> nat \<Rightarrow> 'p \<Rightarrow> ('k, 'p, 's) T_MultiIndex
     \<Rightarrow> bool outcome \<times> ('k, 'p, 's) T_MultiIndex" where
  "replace_mi cfg thr thr_r it v s =
     (if it = ToIterator cfg s (length (m_storage s)) then (Returned False, s)
      else Replace cfg thr thr_r (ToHandle_it it) v s)"

definition modify ::
  "('k, 'p, 's::linorder) config \<Rightarrow> nat option \<Rightarrow> nat option \<Rightarrow> nat \<Rightarrow> ('p \<Rightarrow> 'p option)
     \<Rightarrow> ('k, 'p, 's) T_MultiIndex \<Rightarrow> bool outcome \<times> ('k, 'p, 's) T_MultiIndex" where
  "modify cfg thr thr_r it fn s =
     (if it = ToIterator cfg s (length (m_storage s)) then (Returned False, s)
      else UpdateCore cfg thr thr_r (ToHandle_it it) fn s)"

section \<open>erase\<close>

text \<open>
  \<open>erase(const_iterator it)\<close>.  Under tombstones the returned iterator is \<open>++it\<close> of the
  \<open>T_LiveIter\<close>; otherwise it is what \<open>m_storage.erase(it)\<close> returns, the pair that took
  the erased one's place.
\<close>

definition erase_it ::
  "('k, 'p, 's::linorder) config \<Rightarrow> nat \<Rightarrow> ('k, 'p, 's) T_MultiIndex \<Rightarrow> nat \<times> ('k, 'p, 's) T_MultiIndex" where
  "erase_it cfg it s =
     (if it = ToIterator cfg s (length (m_storage s))
      then (ToIterator cfg s (length (m_storage s)), s)
      else
        (let h = ToHandle_it it
         in if h = 0 then (it, s)
            else
              (let i = pos_of (m_storage s) h;
                   s1 = DropSecs cfg None (m_storage s ! i) s
               in if c_tombstones cfg then
                    (let s2 = DecrementLive cfg (upd_pair i (\<lambda>h. h\<lparr>dead := True\<rparr>) s1)
                     in (iter_at (m_storage s2)
                           (SkipDead (m_storage s2) (Suc i) (length (m_storage s2))), s2))
                  else
                    (let s2 = s1\<lparr>m_storage := map_erase i (m_storage s1)\<rparr>
                     in (iter_at (m_storage s2) i, DecrementLive cfg s2)))))"

text \<open>
  The \<open>for (;;)\<close> loop of \<open>erase(const key_type&)\<close>.  Nothing in it bounds the number of
  rounds, so a run that never reaches \<open>it_l\<close> has no value.
\<close>

partial_function (option) erase_loop ::
  "('k, 'p, 's::linorder) config \<Rightarrow> nat \<Rightarrow> nat \<Rightarrow> nat \<Rightarrow> ('k, 'p, 's) T_MultiIndex
     \<Rightarrow> (nat \<times> ('k, 'p, 's) T_MultiIndex) option" where
  "erase_loop cfg it it_l removed s =
     (case erase_it cfg it s of
        (it', s') \<Rightarrow>
          if \<not> c_primary_is_unique cfg then
            (if it' = it_l then Some (removed + 1, s')
             else erase_loop cfg it' it_l (removed + 1) s')
          else Some (removed + 1, s'))"

declare erase_loop.simps [code]

definition erase_key ::
  "('k::linorder, 'p, 's::linorder) config \<Rightarrow> 'k \<Rightarrow> ('k, 'p, 's) T_MultiIndex
     \<Rightarrow> (nat \<times> ('k, 'p, 's) T_MultiIndex) option" where
  "erase_key cfg key s =
     (case equal_range_mi cfg s key of
        (it, it_l) \<Rightarrow> if it = it_l then Some (0, s) else erase_loop cfg it it_l 0 s)"

section \<open>clear, compact, copy\<close>

definition ClearSecondaries :: "('k, 'p, 's) config \<Rightarrow> ('k, 'p, 's) T_MultiIndex \<Rightarrow> ('k, 'p, 's) T_MultiIndex" where
  "ClearSecondaries cfg s = s\<lparr>m_second := replicate (length (P_Specs cfg)) []\<rparr>"

definition clear_mi :: "('k, 'p, 's) config \<Rightarrow> ('k, 'p, 's) T_MultiIndex \<Rightarrow> ('k, 'p, 's) T_MultiIndex" where
  "clear_mi cfg s = SetLive cfg 0 (PolicyClear cfg (ClearSecondaries cfg (s\<lparr>m_storage := []\<rparr>)))"

text \<open>
  The loop shared by \<open>compact\<close>, the copy constructor of an invalidating policy and
  \<open>CopyAssignCore\<close>: every pair of the source that is not dead is emplaced into the target.
\<close>

definition emplace_live ::
  "('k::linorder, 'p, 's::linorder) config \<Rightarrow> ('k, 'p) t_pair list \<Rightarrow> ('k, 'p, 's) T_MultiIndex
     \<Rightarrow> ('k, 'p, 's) T_MultiIndex" where
  "emplace_live cfg prs tmp =
     fold (\<lambda>pr t.
             if c_tombstones cfg then
               (if \<not> dead pr then snd (emplace cfg None (first pr) (m_value pr) t) else t)
             else snd (emplace cfg None (first pr) (m_value pr) t))
       prs tmp"

text \<open>\<open>compact\<close>: build \<open>tmp\<close>, then \<open>swap(tmp)\<close>; the container continues with the state of \<open>tmp\<close>.\<close>

definition compact ::
  "('k::linorder, 'p, 's::linorder) config \<Rightarrow> ('k, 'p, 's) T_MultiIndex \<Rightarrow> ('k, 'p, 's) T_MultiIndex" where
  "compact cfg s = emplace_live cfg (m_storage s) (empty_mi cfg)"

text \<open>The loop of the non-invalidating copy: \<open>for (auto& pr : m_storage) AddSecs(t_handle{&pr})\<close>.\<close>

definition rebuild_secs ::
  "('k, 'p, 's::linorder) config \<Rightarrow> ('k, 'p, 's) T_MultiIndex \<Rightarrow> ('k, 'p, 's) T_MultiIndex" where
  "rebuild_secs cfg s = fold (\<lambda>pr t. snd (AddSecs cfg None pr t)) (m_storage s) s"

definition copy_construct ::
  "('k::linorder, 'p, 's::linorder) config \<Rightarrow> ('k, 'p, 's) T_MultiIndex \<Rightarrow> ('k, 'p, 's) T_MultiIndex" where
  "copy_construct cfg rhs =
     (if c_invalidates (P_Policy cfg) then emplace_live cfg (m_storage rhs) (empty_mi cfg)
      else rebuild_secs cfg ((empty_mi cfg)\<lparr>m_live := m_live rhs, transl := transl rhs,
                                            m_storage := m_storage rhs\<rparr>))"

definition CopyAssignCore ::
  "('k::linorder, 'p, 's::linorder) config \<Rightarrow> ('k, 'p, 's) T_MultiIndex \<Rightarrow> ('k, 'p, 's) T_MultiIndex
     \<Rightarrow> ('k, 'p, 's) T_MultiIndex" where
  "CopyAssignCore cfg rhs this =
     (if c_invalidates (P_Policy cfg) then emplace_live cfg (m_storage rhs) (clear_mi cfg this)
      else rebuild_secs cfg
             (ClearSecondaries cfg
                (this\<lparr>m_live := m_live rhs, transl := transl rhs, m_storage := m_storage rhs\<rparr>)))"

section \<open>Views on the secondaries\<close>

text \<open>
  What a handle gives access to: \<open>h.Key()\<close> and \<open>h.Payload()\<close> of the pair it points to;
  \<open>value_of\<close> is the same for a pair.
\<close>

definition value_of :: "('k, 'p) t_pair \<Rightarrow> 'k \<times> 'p" where
  "value_of pr = (first pr, m_value pr)"

definition value_at :: "('k, 'p, 's) T_MultiIndex \<Rightarrow> nat \<Rightarrow> 'k \<times> 'p" where
  "value_at s h = value_of (m_storage s ! pos_of (m_storage s) h)"

text \<open>
  \<open>T_IndexView::equal_range\<close> of secondary \<open>I_I\<close>: the equal range of the map, each entry
  seen through the policy's \<open>ToHandle\<close>.  The result lists the handles from the first
  iterator up to the second.
\<close>

definition view_equal_range ::
  "('k::linorder, 'p, 's::linorder) config \<Rightarrow> ('k, 'p, 's) T_MultiIndex \<Rightarrow> nat \<Rightarrow> 's \<Rightarrow> nat list" where
  "view_equal_range cfg s I_I key =
     (case map_equal_range fst key (m_second s ! I_I) of
        (f, l) \<Rightarrow> map (\<lambda>e. ToHandle (P_Policy cfg) s (snd e)) (take (l - f) (drop f (m_second s ! I_I))))"

section \<open>Sequences of operations\<close>

text \<open>
  Mutating operations of the public interface, to be run in sequence on a container.  An
  iterator argument designates a
  pair that is physically in the primary, or is \<open>end()\<close>; under tombstones its record may
  be dead, since neither \<open>erase\<close> nor \<open>modify\<close> tests the flag of the pair it is given.
  \<open>emplace\<close>, \<open>modify\<close> and \<open>replace\<close> carry the secondaries whose insert throws, if any.
  \<open>compact\<close> exists only when tombstones or the translation array are in use.
\<close>

datatype ('k, 'p) operation =
    Emplace 'k 'p "nat option"
  | EraseKey 'k
  | EraseIt nat
  | Modify nat "'p \<Rightarrow> 'p option" "nat option" "nat option"
  | ReplaceWith nat 'p "nat option" "nat option"
  | Compact
  | Clear

fun apply_op ::
  "('k::linorder, 'p, 's::linorder) config \<Rightarrow> ('k, 'p) operation \<Rightarrow> ('k, 'p, 's) T_MultiIndex
     \<Rightarrow> ('k, 'p, 's) T_MultiIndex option" where
  "apply_op cfg (Emplace k v thr) s = Some (snd (emplace cfg thr k v s))"
| "apply_op cfg (EraseKey k) s = map_option snd (erase_key cfg k s)"
| "apply_op cfg (EraseIt it) s =
     (if it = end_it \<or> it \<in> addr ` set (m_storage s) then Some (snd (erase_it cfg it s)) else None)"
| "apply_op cfg (Modify it fn thr thr_r) s =
     (if it = end_it \<or> it \<in> addr ` set (m_storage s)
      then Some (snd (modify cfg thr thr_r it fn s)) else None)"
| "apply_op cfg (ReplaceWith it v thr thr_r) s =
     (if it = end_it \<or> it \<in> addr ` set (m_storage s)
      then Some (snd (replace_mi cfg thr thr_r it v s)) else None)"
| "apply_op cfg Compact s =
     (if c_tombstones cfg \<or> c_needs_transl_array cfg then Some (compact cfg s) else None)"
| "apply_op cfg Clear s = Some (clear_mi cfg s)"

fun run ::
  "('k::linorder, 'p, 's::linorder) config \<Rightarrow> ('k, 'p) operation list \<Rightarrow> ('k, 'p, 's) T_MultiIndex
     \<Rightarrow> ('k, 'p, 's) T_MultiIndex option" where
  "run cfg [] s = Some s"
| "run cfg (x # xs) s = (case apply_op cfg x s of None \<Rightarrow> None | Some s' \<Rightarrow> run cfg xs s')"

section \<open>Invariants of the data model\<close>

definition live :: "('k, 'p) t_pair list \<Rightarrow> ('k, 'p) t_pair list" where
  "live st = filter (\<lambda>h. \<not> dead h) st"

text \<open>The entry that \<open>AddSecs\<close> writes for the pair \<open>h\<close> into secondary \<open>I_I\<close>.\<close>

definition sec_entry :: "('k, 'p, 's) config \<Rightarrow> nat \<Rightarrow> ('k, 'p) t_pair \<Rightarrow> 's \<times> 'k sec_value" where
  "sec_entry cfg I_I h =
     (Project (P_Specs cfg ! I_I) (first h) (m_value h), GetSecondaryValue (P_Policy cfg) h)"

text \<open>\<open>S_KeyLookupPolicy\<close> requires a unique primary (its \<open>static_assert\<close>).\<close>

definition wf_config :: "('k, 'p, 's) config \<Rightarrow> bool" where
  "wf_config cfg = (P_Policy cfg = S_KeyLookupPolicy \<longrightarrow> c_primary_is_unique cfg)"

definition primary_ok :: "('k::linorder, 'p, 's) config \<Rightarrow> ('k, 'p) t_pair list \<Rightarrow> bool" where
  "primary_ok cfg st =
     (sorted (map first st) \<and> (c_primary_is_unique cfg \<longrightarrow> distinct (map first st))
      \<and> distinct (map addr st) \<and> 0 \<notin> addr ` set st
      \<and> (\<not> c_tombstones cfg \<longrightarrow> (\<forall>h\<in>set st. \<not> dead h)))"

definition transl_ok :: "('k, 'p, 's) config \<Rightarrow> ('k, 'p) t_pair list \<Rightarrow> nat list \<Rightarrow> bool" where
  "transl_ok cfg st tr =
     (c_needs_transl_array cfg \<longrightarrow>
        (\<forall>h\<in>set st. trans_idx h < length tr \<and> tr ! trans_idx h = addr h))"

text \<open>Secondary \<open>I_I\<close> holds exactly the entries of the pairs in \<open>M\<close>.\<close>

definition sec_ok ::
  "('k, 'p, 's::linorder) config \<Rightarrow> nat \<Rightarrow> ('k, 'p) t_pair multiset \<Rightarrow> ('s \<times> 'k sec_value) list \<Rightarrow> bool" where
  "sec_ok cfg I_I M m =
     (sorted (map fst m) \<and> (is_unique (P_Specs cfg ! I_I) \<longrightarrow> distinct (map fst m))
      \<and> mset m = image_mset (sec_entry cfg I_I) M)"

definition secs_ok ::
  "('k, 'p, 's::linorder) config \<Rightarrow> ('k, 'p) t_pair multiset \<Rightarrow> ('s \<times> 'k sec_value) list list \<Rightarrow> bool" where
  "secs_ok cfg M secs =
     (length secs = length (P_Specs cfg) \<and> (\<forall>I_I < length (P_Specs cfg). sec_ok cfg I_I M (secs ! I_I)))"

text \<open>
  What a successful \<open>AddSecs\<close> does to the map of secondary \<open>I_I\<close>, and when that
  secondary rejects the entry of \<open>h\<close>.
\<close>

definition add_entry ::
  "('k, 'p, 's::linorder) config \<Rightarrow> ('k, 'p) t_pair \<Rightarrow> nat \<Rightarrow> ('s \<times> 'k sec_value) list
     \<Rightarrow> ('s \<times> 'k sec_value) list" where
  "add_entry cfg h I_I m =
     (if is_unique (P_Specs cfg ! I_I) then snd (insert_unique fst (sec_entry cfg I_I h) m)
      else snd (insert_multi fst (sec_entry cfg I_I h) m))"

definition rejects ::
  "('k, 'p, 's::linorder) config \<Rightarrow> ('k, 'p) t_pair \<Rightarrow> nat \<Rightarrow> ('s \<times> 'k sec_value) list \<Rightarrow> bool" where
  "rejects cfg h I_I m =
     (is_unique (P_Specs cfg ! I_I) \<and> \<not> snd (fst (insert_unique fst (sec_entry cfg I_I h) m)))"

text \<open>Among the pairs \<open>N\<close>, \<open>MatchSecondary\<close> tells the stored value of a pair from all others.\<close>

definition ident_ok :: "('k, 'p, 's) config \<Rightarrow> nat list \<Rightarrow> ('k, 'p) t_pair set \<Rightarrow> bool" where
  "ident_ok cfg tr N =
     (\<forall>h\<in>N. \<forall>h'\<in>N.
        MatchSecondary (P_Policy cfg) tr (GetSecondaryValue (P_Policy cfg) h') h \<longleftrightarrow> h' = h)"

text \<open>The secondaries once \<open>AddSecs\<close> has written the entries of \<open>h\<close> into those before \<open>I_I\<close>.\<close>

definition added ::
  "('k, 'p, 's::linorder) config \<Rightarrow> ('k, 'p) t_pair \<Rightarrow> nat \<Rightarrow> ('s \<times> 'k sec_value) list list
     \<Rightarrow> ('s \<times> 'k sec_value) list list" where
  "added cfg h I_I secs =
     map (\<lambda>I_J. if I_J < I_I then add_entry cfg h I_J (secs ! I_J) else secs ! I_J)
       [0 ..< length (P_Specs cfg)]"

definition inv :: "('k::linorder, 'p, 's::linorder) config \<Rightarrow> ('k, 'p, 's) T_MultiIndex \<Rightarrow> bool" where
  "inv cfg s =
     (primary_ok cfg (m_storage s) \<and> transl_ok cfg (m_storage s) (transl s)
      \<and> secs_ok cfg (mset (live (m_storage s))) (m_second s)
      \<and> (c_tombstones cfg \<longrightarrow> m_live s = length (live (m_storage s))))"

section \<open>Example instantiations\<close>

text \<open>
  Keys are numbers, the payload is a pair of numbers, the first secondary is a multimap on
  the first component and the second secondary a unique map on the second component.
\<close>

definition by_fst :: "(nat, nat \<times> nat, nat) T_Index" where
  "by_fst = \<lparr>is_unique = False, Project = (\<lambda>k p. fst p)\<rparr>"

definition by_snd :: "(nat, nat \<times> nat, nat) T_Index" where
  "by_snd = \<lparr>is_unique = True, Project = (\<lambda>k p. snd p)\<rparr>"

definition cfg_tombs :: "(nat, nat \<times> nat, nat) config" where
  "cfg_tombs = \<lparr>P_Policy = S_UpdatePointerPolicyFull True, c_primary_is_unique = True,
                 P_Specs = [by_fst, by_snd], c_payload_comparable = True\<rparr>"

definition cfg_tombs_multi :: "(nat, nat \<times> nat, nat) config" where
  "cfg_tombs_multi = \<lparr>P_Policy = S_UpdatePointerPolicyFull True, c_primary_is_unique = False,
                 P_Specs = [by_fst, by_snd], c_payload_comparable = True\<rparr>"

definition pair_of :: "nat \<Rightarrow> nat \<Rightarrow> nat \<times> nat \<Rightarrow> bool \<Rightarrow> (nat, nat \<times> nat) t_pair" where
  "pair_of a k v d = \<lparr>addr = a, first = k, m_value = v, dead = d, trans_idx = 0\<rparr>"

text \<open>Keys 1 and 2 were emplaced, then key 1 was erased.\<close>

definition ex_dead :: "(nat, nat \<times> nat, nat) T_MultiIndex" where
  "ex_dead = \<lparr>m_storage = [pair_of 1 1 (5, 10) True, pair_of 2 2 (5, 20) False],
               m_second = [[(5, SHandle 2)], [(20, SHandle 2)]], transl = [], m_live = 1\<rparr>"

text \<open>A multi-key primary: key 1 three times, the first one erased, and key 2 erased.\<close>

definition ex_dead_multi :: "(nat, nat \<times> nat, nat) T_MultiIndex" where
  "ex_dead_multi =
     \<lparr>m_storage = [pair_of 1 1 (5, 10) True, pair_of 2 1 (5, 20) False, pair_of 3 1 (6, 30) False,
                   pair_of 4 2 (7, 40) True],
      m_second = [[(5, SHandle 2), (6, SHandle 3)], [(20, SHandle 2), (30, SHandle 3)]],
      transl = [], m_live = 2\<rparr>"

text \<open>Keys 1 and 2 were emplaced; both payloads have the first component 5.\<close>

definition ex_shared :: "(nat, nat \<times> nat, nat) T_MultiIndex" where
  "ex_shared = \<lparr>m_storage = [pair_of 1 1 (5, 10) False, pair_of 2 2 (5, 20) False],
                 m_second = [[(5, SHandle 1), (5, SHandle 2)], [(10, SHandle 1), (20, SHandle 2)]],
                 transl = [], m_live = 2\<rparr>"

text \<open>Keys 1, 2 and 3 were emplaced; all payloads have the first component 5.\<close>

definition ex_three :: "(nat, nat \<times> nat, nat) T_MultiIndex" where
  "ex_three = \<lparr>m_storage = [pair_of 1 1 (5, 10) False, pair_of 2 2 (5, 20) False, pair_of 3 3 (5, 30) False],
                m_second = [[(5, SHandle 1), (5, SHandle 2), (5, SHandle 3)],
                            [(10, SHandle 1), (20, SHandle 2), (30, SHandle 3)]],
                transl = [], m_live = 3\<rparr>"

text \<open>
  Key 1 was emplaced with payload (5, 10); then a \<open>modify\<close> to (5, 30) threw in the insert
  into the first secondary.
\<close>

definition ex_unindexed :: "(nat, nat \<times> nat, nat) T_MultiIndex" where
  "ex_unindexed = \<lparr>m_storage = [pair_of 1 1 (5, 30) False], m_second = [[], []],
                    transl = [], m_live = 1\<rparr>"

text \<open>
  Keys 1 and 2 were emplaced and key 1 erased; then a \<open>modify\<close> of the dead record of key 1
  to (7, 30) threw in the insert into the first secondary.
\<close>

definition ex_miscounted :: "(nat, nat \<times> nat, nat) T_MultiIndex" where
  "ex_miscounted = \<lparr>m_storage = [pair_of 1 1 (7, 30) False, pair_of 2 2 (5, 20) False],
                     m_second = [[(5, SHandle 2)], [(20, SHandle 2)]], transl = [], m_live = 1\<rparr>"

section \<open>Bounds, equal ranges and live iterators\<close>

lemma lower_le_upper: "lower_bound kf k xs \<le> upper_bound kf k xs"
  unfolding lower_bound_def upper_bound_def
  by (induction xs) auto

lemma upper_le_length: "upper_bound kf k xs \<le> length xs"
  unfolding upper_bound_def by (rule length_takeWhile_le)

lemma lower_le_length: "lower_bound kf k xs \<le> length xs"
  unfolding lower_bound_def by (rule length_takeWhile_le)

lemma equal_range_filter:
  "sorted (map kf xs) \<Longrightarrow>
   filter (\<lambda>x. kf x = k) xs = take (upper_bound kf k xs - lower_bound kf k xs) (drop (lower_bound kf k xs) xs)"
proof (induction xs)
  case Nil
  then show ?case by (simp add: lower_bound_def upper_bound_def)
next
  case (Cons x xs)
  then have srt: "sorted (map kf xs)" and ge: "\<forall>y\<in>set xs. kf x \<le> kf y" by auto
  consider "kf x < k" | "kf x = k" | "k < kf x" by (meson linorder_less_linear)
  then show ?case
  proof cases
    case 1
    then show ?thesis using Cons.IH [OF srt] by (simp add: lower_bound_def upper_bound_def)
  next
    case 2
    have "takeWhile (\<lambda>x. kf x < k) xs = []"
      using ge 2 by (cases xs) auto
    then have lb0: "lower_bound kf k xs = 0" by (simp add: lower_bound_def)
    show ?thesis using Cons.IH [OF srt] 2 lb0 by (simp add: lower_bound_def upper_bound_def)
  next
    case 3
    then have "filter (\<lambda>x. kf x = k) xs = []" using ge by (auto simp: filter_empty_conv)
    then show ?thesis using 3 by (auto simp: lower_bound_def upper_bound_def)
  qed
qed

lemma in_equal_range_iff:
  assumes "sorted (map kf xs)" "i < length xs"
  shows "(lower_bound kf k xs \<le> i \<and> i < upper_bound kf k xs) \<longleftrightarrow> kf (xs ! i) = k"
  using assms
proof (induction xs arbitrary: i)
  case Nil then show ?case by simp
next
  case (Cons x xs)
  then have srt: "sorted (map kf xs)" and ge: "\<forall>y\<in>set xs. kf x \<le> kf y" by auto
  show ?case
  proof (cases i)
    case 0
    then show ?thesis by (auto simp: lower_bound_def upper_bound_def)
  next
    case (Suc j)
    then have j: "j < length xs" using Cons.prems by simp
    have kj: "kf x \<le> kf (xs ! j)" using ge j by simp
    have lb0: "k \<le> kf x \<Longrightarrow> takeWhile (\<lambda>y. kf y < k) xs = []"
      using ge by (cases xs) auto
    show ?thesis using Cons.IH [OF srt j] Suc kj lb0
      by (auto simp: lower_bound_def upper_bound_def)
  qed
qed


lemma SkipDead_bounds:
  "it \<le> e \<Longrightarrow> e \<le> length st \<Longrightarrow> it \<le> SkipDead st it e \<and> SkipDead st it e \<le> e"
proof (induction st it e rule: SkipDead.induct)
  case (1 st it e)
  show ?case
  proof (cases "it \<noteq> e \<and> it < length st \<and> dead (st ! it)")
    case True
    then have le: "Suc it \<le> e" using "1.prems" by simp
    have eq: "SkipDead st it e = SkipDead st (Suc it) e"
      using True by (subst SkipDead.simps) simp
    from "1.IH" [OF True le "1.prems"(2)] show ?thesis unfolding eq by simp
  next
    case False
    then have "SkipDead st it e = it" by (subst SkipDead.simps) auto
    then show ?thesis using "1.prems" by simp
  qed
qed

lemma SkipDead_live [simp]: "\<not> dead (st ! it) \<Longrightarrow> SkipDead st it e = it"
  by (subst SkipDead.simps) simp

lemma SkipDead_end [simp]: "SkipDead st e e = e"
  by (subst SkipDead.simps) simp

lemma SkipDead_filter:
  "it \<le> e \<Longrightarrow> e \<le> length st \<Longrightarrow>
   filter (\<lambda>h. \<not> dead h) (take (e - it) (drop it st)) =
     (if SkipDead st it e = e then []
      else st ! SkipDead st it e #
           filter (\<lambda>h. \<not> dead h) (take (e - Suc (SkipDead st it e)) (drop (Suc (SkipDead st it e)) st)))"
proof (induction st it e rule: SkipDead.induct)
  case (1 st it e)
  show ?case
  proof (cases "it = e")
    case True
    then show ?thesis by simp
  next
    case False
    then have lt: "it < e" "it < length st" using "1.prems" by auto
    have seg: "take (e - it) (drop it st) = st ! it # take (e - Suc it) (drop (Suc it) st)"
      using lt by (metis Cons_nth_drop_Suc Suc_diff_Suc take_Suc_Cons)
    show ?thesis
    proof (cases "dead (st ! it)")
      case True
      have sd: "SkipDead st it e = SkipDead st (Suc it) e"
        using True False lt by (subst SkipDead.simps) simp
      have "Suc it \<le> e" using lt by simp
      from "1.IH" [OF _ this "1.prems"(2)] True False lt
      show ?thesis unfolding sd seg by simp
    next
      case nd: False
      then show ?thesis using seg False by simp
    qed
  qed
qed

lemma iter_at_end [simp]: "iter_at st (length st) = end_it"
  by (simp add: iter_at_def)

lemma ToIterator_end [simp]: "ToIterator cfg s (length (m_storage s)) = end_it"
  by (simp add: ToIterator_def)

lemma ToIterator_live:
  "i < length (m_storage s) \<Longrightarrow> \<not> dead (m_storage s ! i) \<Longrightarrow> ToIterator cfg s i = addr (m_storage s ! i)"
  by (simp add: ToIterator_def iter_at_def)

lemma distinct_keys_filter: "distinct (map kf xs) \<Longrightarrow> length (filter (\<lambda>x. kf x = k) xs) \<le> 1"
proof (induction xs)
  case Nil then show ?case by simp
next
  case (Cons a xs)
  show ?case
  proof (cases "kf a = k")
    case True
    then have "filter (\<lambda>x. kf x = k) xs = []" using Cons.prems by (auto simp: filter_empty_conv image_iff)
    then show ?thesis by simp
  next
    case False
    then show ?thesis using Cons by simp
  qed
qed

lemma distinct_keys_range:
  assumes "sorted (map kf xs)" "distinct (map kf xs)"
  shows "upper_bound kf k xs - lower_bound kf k xs \<le> 1"
proof -
  have "length (filter (\<lambda>x. kf x = k) xs) = upper_bound kf k xs - lower_bound kf k xs"
    using equal_range_filter [OF assms(1), of k] upper_le_length [of kf k xs] by simp
  then show ?thesis using distinct_keys_filter [OF assms(2), of k] by simp
qed

section \<open>Facts about the ordered containers\<close>

lemma length_insert_at [simp]: "length (insert_at i x xs) = Suc (length xs)"
  by (simp add: insert_at_def)

lemma mset_insert_at [simp]: "mset (insert_at i x xs) = add_mset x (mset xs)"
proof -
  have "mset (take i xs) + mset (drop i xs) = mset xs"
    by (metis append_take_drop_id mset_append)
  then show ?thesis by (simp add: insert_at_def)
qed

lemma set_insert_at [simp]: "set (insert_at i x xs) = insert x (set xs)"
  by (metis mset_insert_at set_mset_add_mset_insert set_mset_mset)

lemma length_map_erase [simp]: "i < length xs \<Longrightarrow> length (map_erase i xs) = length xs - 1"
  by (simp add: map_erase_def)

lemma map_erase_beyond [simp]: "length xs \<le> i \<Longrightarrow> map_erase i xs = xs"
  by (simp add: map_erase_def)

lemma mset_map_erase: "i < length xs \<Longrightarrow> mset (map_erase i xs) = mset xs - {#xs ! i#}"
proof -
  assume i: "i < length xs"
  have "xs = take i xs @ xs ! i # drop (Suc i) xs" using i by (rule id_take_nth_drop)
  then have "mset xs = add_mset (xs ! i) (mset (take i xs) + mset (drop (Suc i) xs))"
    by (metis mset.simps(2) mset_append union_mset_add_mset_right)
  then show ?thesis by (simp add: map_erase_def)
qed

lemma set_map_erase_subset: "set (map_erase i xs) \<subseteq> set xs"
  unfolding map_erase_def by (metis Un_least set_append set_drop_subset set_take_subset)

lemma map_erase_insert_at [simp]: "i \<le> length xs \<Longrightarrow> map_erase i (insert_at i x xs) = xs"
  by (simp add: map_erase_def insert_at_def)

lemma nth_insert_at_same [simp]: "i \<le> length xs \<Longrightarrow> insert_at i x xs ! i = x"
  by (simp add: insert_at_def nth_append)

lemma nth_insert_at_below: "j < i \<Longrightarrow> i \<le> length xs \<Longrightarrow> insert_at i x xs ! j = xs ! j"
  by (simp add: insert_at_def nth_append)

lemma map_insert_at: "map f (insert_at i x xs) = insert_at i (f x) (map f xs)"
  by (simp add: insert_at_def take_map drop_map)

lemma map_map_erase: "map f (map_erase i xs) = map_erase i (map f xs)"
  by (simp add: map_erase_def take_map drop_map)

lemma sorted_map_erase: "sorted xs \<Longrightarrow> sorted (map_erase i xs)"
proof (induction xs arbitrary: i)
  case Nil
  then show ?case by (simp add: map_erase_def)
next
  case (Cons a xs)
  have sub: "set (map_erase j xs) \<subseteq> set xs" for j by (rule set_map_erase_subset)
  show ?case
  proof (cases i)
    case 0
    then show ?thesis using Cons.prems by (simp add: map_erase_def)
  next
    case (Suc j)
    have "map_erase i (a # xs) = a # map_erase j xs" using Suc by (simp add: map_erase_def)
    then show ?thesis using Cons.IH [of j] Cons.prems sub [of j] by auto
  qed
qed

lemma distinct_map_erase: "distinct xs \<Longrightarrow> distinct (map_erase i xs)"
proof (induction xs arbitrary: i)
  case Nil
  then show ?case by (simp add: map_erase_def)
next
  case (Cons a xs)
  have sub: "set (map_erase j xs) \<subseteq> set xs" for j by (rule set_map_erase_subset)
  show ?case
  proof (cases i)
    case 0
    then show ?thesis using Cons.prems by (simp add: map_erase_def)
  next
    case (Suc j)
    have "map_erase i (a # xs) = a # map_erase j xs" using Suc by (simp add: map_erase_def)
    then show ?thesis using Cons.IH [of j] Cons.prems sub [of j] by auto
  qed
qed

lemma takeWhile_lower: "take (lower_bound kf k xs) xs = takeWhile (\<lambda>x. kf x < k) xs"
  by (simp add: lower_bound_def takeWhile_eq_take [symmetric])

lemma dropWhile_lower: "drop (lower_bound kf k xs) xs = dropWhile (\<lambda>x. kf x < k) xs"
  by (simp add: lower_bound_def dropWhile_eq_drop [symmetric])

lemma takeWhile_upper: "take (upper_bound kf k xs) xs = takeWhile (\<lambda>x. kf x \<le> k) xs"
  by (simp add: upper_bound_def takeWhile_eq_take [symmetric])

lemma dropWhile_upper: "drop (upper_bound kf k xs) xs = dropWhile (\<lambda>x. kf x \<le> k) xs"
  by (simp add: upper_bound_def dropWhile_eq_drop [symmetric])

lemma sorted_dropWhile_less:
  "sorted (map kf xs) \<Longrightarrow> y \<in> set (dropWhile (\<lambda>x. kf x < k) xs) \<Longrightarrow> k \<le> kf y"
  by (induction xs) (auto split: if_splits)

lemma sorted_dropWhile_le:
  "sorted (map kf xs) \<Longrightarrow> y \<in> set (dropWhile (\<lambda>x. kf x \<le> k) xs) \<Longrightarrow> k < kf y"
  by (induction xs) (auto split: if_splits)

lemma sorted_insert_lower:
  assumes "sorted (map kf xs)"
  shows "sorted (map kf (insert_at (lower_bound kf (kf x) xs) x xs))"
proof -
  let ?P = "\<lambda>y. kf y < kf x"
  have a: "\<forall>y\<in>set (takeWhile ?P xs). kf y \<le> kf x"
    by (auto dest: set_takeWhileD)
  have b: "\<forall>y\<in>set (dropWhile ?P xs). kf x \<le> kf y"
    using sorted_dropWhile_less [OF assms] by blast
  have "sorted (map kf (takeWhile ?P xs) @ map kf (dropWhile ?P xs))"
    using assms by (metis map_append takeWhile_dropWhile_id)
  then have c: "sorted (map kf (takeWhile ?P xs))" "sorted (map kf (dropWhile ?P xs))"
    unfolding sorted_append by auto
  have "sorted (map kf (takeWhile ?P xs @ x # dropWhile ?P xs))"
    using a b c by (auto simp: sorted_append intro: order_trans)
  then show ?thesis by (simp add: insert_at_def takeWhile_lower dropWhile_lower)
qed

lemma sorted_insert_upper:
  assumes "sorted (map kf xs)"
  shows "sorted (map kf (insert_at (upper_bound kf (kf x) xs) x xs))"
proof -
  let ?P = "\<lambda>y. kf y \<le> kf x"
  have a: "\<forall>y\<in>set (takeWhile ?P xs). kf y \<le> kf x"
    by (auto dest: set_takeWhileD)
  have b: "\<forall>y\<in>set (dropWhile ?P xs). kf x \<le> kf y"
    using sorted_dropWhile_le [OF assms] by (meson order_less_imp_le)
  have "sorted (map kf (takeWhile ?P xs) @ map kf (dropWhile ?P xs))"
    using assms by (metis map_append takeWhile_dropWhile_id)
  then have c: "sorted (map kf (takeWhile ?P xs))" "sorted (map kf (dropWhile ?P xs))"
    unfolding sorted_append by auto
  have "sorted (map kf (takeWhile ?P xs @ x # dropWhile ?P xs))"
    using a b c by (auto simp: sorted_append intro: order_trans)
  then show ?thesis by (simp add: insert_at_def takeWhile_upper dropWhile_upper)
qed

lemma key_in_set_iff:
  assumes "sorted (map kf xs)"
  shows "(lower_bound kf k xs < length xs \<and> kf (xs ! lower_bound kf k xs) = k) \<longleftrightarrow> k \<in> kf ` set xs"
proof
  assume "lower_bound kf k xs < length xs \<and> kf (xs ! lower_bound kf k xs) = k"
  then show "k \<in> kf ` set xs" by (metis imageI nth_mem)
next
  assume "k \<in> kf ` set xs"
  then obtain i where i: "i < length xs" "kf (xs ! i) = k" by (metis imageE in_set_conv_nth)
  then have r: "lower_bound kf k xs \<le> i" "i < upper_bound kf k xs"
    using in_equal_range_iff [OF assms, of i k] by auto
  then have lt: "lower_bound kf k xs < length xs" using i by simp
  moreover have "lower_bound kf k xs < upper_bound kf k xs" using r by simp
  ultimately show "lower_bound kf k xs < length xs \<and> kf (xs ! lower_bound kf k xs) = k"
    using in_equal_range_iff [OF assms, of "lower_bound kf k xs" k] by simp
qed

lemma insert_unique_new:
  "sorted (map kf xs) \<Longrightarrow> kf x \<notin> kf ` set xs \<Longrightarrow>
   insert_unique kf x xs = ((lower_bound kf (kf x) xs, True), insert_at (lower_bound kf (kf x) xs) x xs)"
  using key_in_set_iff [of kf xs "kf x"] by (auto simp: insert_unique_def Let_def)

lemma insert_unique_dup:
  "sorted (map kf xs) \<Longrightarrow> kf x \<in> kf ` set xs \<Longrightarrow>
   insert_unique kf x xs = ((lower_bound kf (kf x) xs, False), xs)"
  using key_in_set_iff [of kf xs "kf x"] by (auto simp: insert_unique_def Let_def)

lemma map_find_iff:
  "sorted (map kf xs) \<Longrightarrow> map_find kf k xs \<noteq> length xs \<longleftrightarrow> k \<in> kf ` set xs"
  using key_in_set_iff [of kf xs k] by (auto simp: map_find_def Let_def)

lemma map_find_key:
  "map_find kf k xs \<noteq> length xs \<Longrightarrow> map_find kf k xs < length xs \<and> kf (xs ! map_find kf k xs) = k"
  by (auto simp: map_find_def Let_def split: if_splits)

lemma distinct_insert_at:
  "distinct (map kf xs) \<Longrightarrow> kf x \<notin> kf ` set xs \<Longrightarrow> distinct (map kf (insert_at i x xs))"
proof -
  assume d: "distinct (map kf xs)" and n: "kf x \<notin> kf ` set xs"
  have "distinct (map kf (take i xs) @ map kf (drop i xs))"
    using d by (metis append_take_drop_id map_append)
  moreover have "set (take i xs) \<subseteq> set xs" "set (drop i xs) \<subseteq> set xs"
    by (rule set_take_subset, rule set_drop_subset)
  ultimately show ?thesis using n by (auto simp: insert_at_def)
qed

section \<open>Facts about the erase loop\<close>

lemma erase_first_match_none:
  "f \<le> l \<Longrightarrow> \<forall>j. f \<le> j \<and> j < l \<and> j < length m \<longrightarrow> \<not> P (m ! j) \<Longrightarrow> erase_first_match P f l m = m"
proof (induction P f l m rule: erase_first_match.induct)
  case (1 P it l m)
  show ?case
  proof (cases "it \<noteq> l \<and> it < length m")
    case True
    then have np: "\<not> P (m ! it)" using "1.prems" by simp
    have "erase_first_match P (Suc it) l m = m"
      using "1.IH" [OF True np] "1.prems" True by simp
    then show ?thesis using True np by (subst erase_first_match.simps) simp
  next
    case False
    then show ?thesis by (subst erase_first_match.simps) auto
  qed
qed

lemma erase_first_match_first:
  "f \<le> j \<Longrightarrow> j < l \<Longrightarrow> j < length m \<Longrightarrow> P (m ! j) \<Longrightarrow> \<forall>i. f \<le> i \<and> i < j \<longrightarrow> \<not> P (m ! i)
   \<Longrightarrow> erase_first_match P f l m = map_erase j m"
proof (induction P f l m rule: erase_first_match.induct)
  case (1 P it l m)
  have c: "it \<noteq> l \<and> it < length m" using "1.prems" by simp
  show ?case
  proof (cases "it = j")
    case True
    then show ?thesis using c "1.prems" by (subst erase_first_match.simps) simp
  next
    case False
    then have np: "\<not> P (m ! it)" and lt: "Suc it \<le> j" using "1.prems" by auto
    have "erase_first_match P (Suc it) l m = map_erase j m"
      using "1.IH" [OF c np lt] "1.prems" by simp
    then show ?thesis using c np by (subst erase_first_match.simps) simp
  qed
qed

lemma erase_in_range_cases:
  assumes srt: "sorted (map kf m)"
  obtains (none) "\<forall>e\<in>set m. kf e = k \<longrightarrow> \<not> P e"
      "erase_first_match P (lower_bound kf k m) (upper_bound kf k m) m = m"
    | (some) j where "j < length m" "kf (m ! j) = k" "P (m ! j)"
      "\<forall>i<j. kf (m ! i) = k \<longrightarrow> \<not> P (m ! i)"
      "erase_first_match P (lower_bound kf k m) (upper_bound kf k m) m = map_erase j m"
proof (cases "\<exists>j<length m. kf (m ! j) = k \<and> P (m ! j)")
  case False
  then have a: "\<forall>e\<in>set m. kf e = k \<longrightarrow> \<not> P e" by (metis in_set_conv_nth)
  have "\<forall>j. lower_bound kf k m \<le> j \<and> j < upper_bound kf k m \<and> j < length m \<longrightarrow> \<not> P (m ! j)"
    using False in_equal_range_iff [OF srt] by blast
  from erase_first_match_none [OF lower_le_upper this] show ?thesis by (rule none [OF a])
next
  case True
  define j where "j = (LEAST j. j < length m \<and> kf (m ! j) = k \<and> P (m ! j))"
  have j: "j < length m \<and> kf (m ! j) = k \<and> P (m ! j)"
    unfolding j_def using True by (metis (mono_tags, lifting) LeastI)
  have least: "\<forall>i<j. \<not> (i < length m \<and> kf (m ! i) = k \<and> P (m ! i))"
    unfolding j_def using not_less_Least by blast
  then have b: "\<forall>i<j. kf (m ! i) = k \<longrightarrow> \<not> P (m ! i)" using j by auto
  have r: "lower_bound kf k m \<le> j" "j < upper_bound kf k m"
    using in_equal_range_iff [OF srt, of j k] j by auto
  have c: "\<forall>i. lower_bound kf k m \<le> i \<and> i < j \<longrightarrow> \<not> P (m ! i)"
  proof (intro allI impI)
    fix i assume i: "lower_bound kf k m \<le> i \<and> i < j"
    then have "i < length m" "i < upper_bound kf k m" using j r by auto
    then have "kf (m ! i) = k" using in_equal_range_iff [OF srt, of i k] i by simp
    then show "\<not> P (m ! i)" using b i by simp
  qed
  from erase_first_match_first [OF r(1) r(2) _ _ c] j
  have "erase_first_match P (lower_bound kf k m) (upper_bound kf k m) m = map_erase j m" by simp
  with j b show ?thesis using some by blast
qed

section \<open>One secondary: adding and dropping the entry of a pair\<close>

lemma rejects_iff:
  "sorted (map fst m) \<Longrightarrow>
   rejects cfg h I_I m \<longleftrightarrow> is_unique (P_Specs cfg ! I_I) \<and> fst (sec_entry cfg I_I h) \<in> fst ` set m"
  by (cases "fst (sec_entry cfg I_I h) \<in> fst ` set m")
     (simp_all add: rejects_def insert_unique_new insert_unique_dup)

lemma add_entry_eq:
  "sorted (map fst m) \<Longrightarrow> \<not> rejects cfg h I_I m \<Longrightarrow>
   add_entry cfg h I_I m =
     insert_at (if is_unique (P_Specs cfg ! I_I) then lower_bound fst (fst (sec_entry cfg I_I h)) m
                else upper_bound fst (fst (sec_entry cfg I_I h)) m) (sec_entry cfg I_I h) m"
  by (cases "fst (sec_entry cfg I_I h) \<in> fst ` set m")
     (auto simp: rejects_iff add_entry_def insert_unique_new insert_multi_def Let_def)

lemma add_entry_sec_ok:
  assumes ok: "sec_ok cfg I_I M m" and nr: "\<not> rejects cfg h I_I m"
  shows "sec_ok cfg I_I (add_mset h M) (add_entry cfg h I_I m)"
proof -
  have srt: "sorted (map fst m)" using ok by (simp add: sec_ok_def)
  note eq = add_entry_eq [OF srt nr]
  have s: "sorted (map fst (add_entry cfg h I_I m))"
    unfolding eq using sorted_insert_lower [OF srt] sorted_insert_upper [OF srt] by simp
  have d: "distinct (map fst (add_entry cfg h I_I m))" if u: "is_unique (P_Specs cfg ! I_I)"
  proof -
    have "fst (sec_entry cfg I_I h) \<notin> fst ` set m" using nr u rejects_iff [OF srt] by blast
    moreover have "distinct (map fst m)" using ok u by (simp add: sec_ok_def)
    ultimately show ?thesis unfolding eq by (rule distinct_insert_at [rotated])
  qed
  have "mset (add_entry cfg h I_I m) = image_mset (sec_entry cfg I_I) (add_mset h M)"
    unfolding eq using ok by (simp add: sec_ok_def)
  then show ?thesis using s d by (simp add: sec_ok_def)
qed

lemma drop_entry_absent:
  assumes srt: "sorted (map fst m)"
    and no: "\<forall>e\<in>set m. fst e = fst (sec_entry cfg I_I h) \<longrightarrow> \<not> MatchSecondary (P_Policy cfg) tr (snd e) h"
  shows "drop_entry cfg tr h I_I m = m"
proof -
  let ?P = "\<lambda>e. MatchSecondary (P_Policy cfg) tr (snd e) h"
  let ?k = "fst (sec_entry cfg I_I h)"
  show ?thesis
  proof (rule erase_in_range_cases [OF srt, of ?k ?P], goal_cases)
    case none: 1
    then show ?thesis by (simp add: drop_entry_def map_equal_range_def sec_entry_def)
  next
    case some: (2 j)
    then show ?thesis using no by (metis nth_mem)
  qed
qed

lemma drop_add_entry:
  assumes srt: "sorted (map fst m)" and nr: "\<not> rejects cfg h I_I m"
    and no: "\<forall>e\<in>set m. fst e = fst (sec_entry cfg I_I h) \<longrightarrow> \<not> MatchSecondary (P_Policy cfg) tr (snd e) h"
    and self: "MatchSecondary (P_Policy cfg) tr (GetSecondaryValue (P_Policy cfg) h) h"
  shows "drop_entry cfg tr h I_I (add_entry cfg h I_I m) = m"
proof -
  let ?P = "\<lambda>e. MatchSecondary (P_Policy cfg) tr (snd e) h"
  let ?e = "sec_entry cfg I_I h"
  let ?k = "fst ?e"
  define p where "p = (if is_unique (P_Specs cfg ! I_I) then lower_bound fst ?k m else upper_bound fst ?k m)"
  have eq: "add_entry cfg h I_I m = insert_at p ?e m"
    unfolding p_def by (rule add_entry_eq [OF srt nr])
  have p: "p \<le> length m" unfolding p_def by (simp add: lower_le_length upper_le_length)
  have srt': "sorted (map fst (insert_at p ?e m))"
    unfolding p_def using sorted_insert_lower [OF srt, of ?e] sorted_insert_upper [OF srt, of ?e] by simp
  have Pe: "?P ?e" using self by (simp add: sec_entry_def)
  have below: "\<not> (fst (insert_at p ?e m ! i) = ?k \<and> ?P (insert_at p ?e m ! i))" if "i < p" for i
    using that p no by (simp add: nth_insert_at_below)
  show ?thesis
  proof (rule erase_in_range_cases [OF srt', of ?k ?P], goal_cases)
    case none: 1
    then show ?thesis using Pe by simp
  next
    case some: (2 j)
    have "\<not> j < p" using below some(2,3) by blast
    moreover have "\<not> p < j"
    proof
      assume "p < j"
      then have "fst (insert_at p ?e m ! p) = ?k \<longrightarrow> \<not> ?P (insert_at p ?e m ! p)"
        using some(4) by blast
      then show False using Pe p by simp
    qed
    ultimately have "j = p" by simp
    then show ?thesis using some(5) p by (simp add: drop_entry_def map_equal_range_def eq sec_entry_def)
  qed
qed

lemma drop_entry_registered:
  assumes ok: "sec_ok cfg I_I M m" and mem: "h \<in># M"
    and self: "MatchSecondary (P_Policy cfg) tr (GetSecondaryValue (P_Policy cfg) h) h"
    and inj: "\<forall>h'\<in>#M. MatchSecondary (P_Policy cfg) tr (GetSecondaryValue (P_Policy cfg) h') h \<longrightarrow> h' = h"
  shows "\<exists>j<length m. m ! j = sec_entry cfg I_I h \<and> drop_entry cfg tr h I_I m = map_erase j m"
proof -
  let ?P = "\<lambda>e. MatchSecondary (P_Policy cfg) tr (snd e) h"
  let ?e = "sec_entry cfg I_I h"
  let ?k = "fst ?e"
  have srt: "sorted (map fst m)" and ms: "mset m = image_mset (sec_entry cfg I_I) M"
    using ok by (simp_all add: sec_ok_def)
  have ein: "?e \<in> set m" using mem ms by (metis image_eqI set_image_mset set_mset_mset)
  have Pe: "?P ?e" using self by (simp add: sec_entry_def)
  show ?thesis
  proof (rule erase_in_range_cases [OF srt, of ?k ?P], goal_cases)
    case none: 1
    then show ?thesis using ein Pe by blast
  next
    case some: (2 j)
    have "m ! j \<in># image_mset (sec_entry cfg I_I) M" using some(1) ms by (metis nth_mem set_mset_mset)
    then obtain h' where h': "h' \<in># M" "m ! j = sec_entry cfg I_I h'" by auto
    then have "MatchSecondary (P_Policy cfg) tr (GetSecondaryValue (P_Policy cfg) h') h"
      using some(3) by (simp add: sec_entry_def)
    then have "h' = h" using inj h'(1) by blast
    then have mj: "m ! j = ?e" using h'(2) by simp
    have de: "drop_entry cfg tr h I_I m = map_erase j m"
      using some(5) by (simp add: drop_entry_def map_equal_range_def sec_entry_def)
    show ?thesis using some(1) mj de by blast
  qed
qed

lemma drop_entry_sec_ok:
  assumes ok: "sec_ok cfg I_I M m" and mem: "h \<in># M"
    and self: "MatchSecondary (P_Policy cfg) tr (GetSecondaryValue (P_Policy cfg) h) h"
    and inj: "\<forall>h'\<in>#M. MatchSecondary (P_Policy cfg) tr (GetSecondaryValue (P_Policy cfg) h') h \<longrightarrow> h' = h"
  shows "sec_ok cfg I_I (M - {#h#}) (drop_entry cfg tr h I_I m)"
proof -
  let ?e = "sec_entry cfg I_I h"
  have srt: "sorted (map fst m)" and ms: "mset m = image_mset (sec_entry cfg I_I) M"
    using ok by (simp_all add: sec_ok_def)
  obtain j where j: "j < length m" "m ! j = ?e" "drop_entry cfg tr h I_I m = map_erase j m"
    using drop_entry_registered [OF assms] by blast
  have "mset (map_erase j m) = image_mset (sec_entry cfg I_I) M - {#?e#}"
    using mset_map_erase [OF j(1)] j(2) ms by simp
  also have "\<dots> = image_mset (sec_entry cfg I_I) (M - {#h#})"
    using mem by (simp add: image_mset_Diff)
  finally have a: "mset (map_erase j m) = image_mset (sec_entry cfg I_I) (M - {#h#})" .
  have b: "sorted (map fst (map_erase j m))"
    using srt by (simp add: map_map_erase sorted_map_erase)
  have c: "is_unique (P_Specs cfg ! I_I) \<longrightarrow> distinct (map fst (map_erase j m))"
    using ok by (simp add: sec_ok_def map_map_erase distinct_map_erase)
  show ?thesis unfolding j(3) using a b c by (simp add: sec_ok_def)
qed

lemma lower_bound_map_erase:
  "sorted (map kf m) \<Longrightarrow> distinct (map kf m) \<Longrightarrow> j < length m \<Longrightarrow>
   lower_bound kf (kf (m ! j)) (map_erase j m) = j"
proof (induction m arbitrary: j)
  case Nil
  then show ?case by simp
next
  case (Cons a m)
  have gt: "\<forall>y\<in>set m. kf a < kf y" using Cons.prems(1,2) by (auto simp: order_less_le)
  show ?case
  proof (cases j)
    case 0
    have "takeWhile (\<lambda>x. kf x < kf a) m = []" using gt by (cases m) auto
    then show ?thesis using 0 by (simp add: map_erase_def lower_bound_def)
  next
    case (Suc j')
    then have j': "j' < length m" using Cons.prems(3) by simp
    have e: "map_erase j (a # m) = a # map_erase j' m" using Suc by (simp add: map_erase_def)
    have "kf a < kf (m ! j')" using gt j' by simp
    then show ?thesis using Cons.IH [of j'] Cons.prems j' Suc e by (simp add: lower_bound_def)
  qed
qed

lemma insert_at_map_erase: "j < length m \<Longrightarrow> insert_at j (m ! j) (map_erase j m) = m"
  by (simp add: insert_at_def map_erase_def id_take_nth_drop [symmetric] min_def)

text \<open>Dropping and re-adding the entry of a pair leaves a unique secondary exactly as it was.\<close>

lemma readd_unique_exact:
  assumes ok: "sec_ok cfg I_I M m" and u: "is_unique (P_Specs cfg ! I_I)" and mem: "h \<in># M"
    and self: "MatchSecondary (P_Policy cfg) tr (GetSecondaryValue (P_Policy cfg) h) h"
    and inj: "\<forall>h'\<in>#M. MatchSecondary (P_Policy cfg) tr (GetSecondaryValue (P_Policy cfg) h') h \<longrightarrow> h' = h"
  shows "add_entry cfg h I_I (drop_entry cfg tr h I_I m) = m"
proof -
  let ?e = "sec_entry cfg I_I h"
  have srt: "sorted (map fst m)" and d: "distinct (map fst m)"
    using ok u by (simp_all add: sec_ok_def)
  obtain j where j: "j < length m" "m ! j = ?e" "drop_entry cfg tr h I_I m = map_erase j m"
    using drop_entry_registered [OF ok mem self inj] by blast
  have srt': "sorted (map fst (map_erase j m))" using srt by (simp add: map_map_erase sorted_map_erase)
  have "fst (m ! j) \<notin> set (map_erase j (map fst m))"
  proof -
    have "map fst m = take j (map fst m) @ fst (m ! j) # drop (Suc j) (map fst m)"
      using j(1) by (metis id_take_nth_drop length_map nth_map)
    then have "distinct (take j (map fst m) @ fst (m ! j) # drop (Suc j) (map fst m))"
      using d by simp
    then show ?thesis by (auto simp: map_erase_def)
  qed
  then have nin: "fst ?e \<notin> fst ` set (map_erase j m)" using j(2) by (simp add: map_map_erase [symmetric])
  have lb: "lower_bound fst (fst ?e) (map_erase j m) = j"
    using lower_bound_map_erase [OF srt d j(1)] j(2) by simp
  have "add_entry cfg h I_I (map_erase j m) = insert_at j ?e (map_erase j m)"
    using u insert_unique_new [OF srt' nin] lb by (simp add: add_entry_def)
  then show ?thesis unfolding j(3) using insert_at_map_erase [OF j(1)] j(2) by simp
qed

section \<open>All secondaries: \<open>AddSecs\<close>, \<open>Rollback\<close>, \<open>DropSecs\<close>\<close>

lemma length_added [simp]: "length (added cfg h I_I secs) = length (P_Specs cfg)"
  by (simp add: added_def)

lemma nth_added:
  "I_J < length (P_Specs cfg) \<Longrightarrow>
   added cfg h I_I secs ! I_J = (if I_J < I_I then add_entry cfg h I_J (secs ! I_J) else secs ! I_J)"
  by (simp add: added_def)

lemma added_0: "length secs = length (P_Specs cfg) \<Longrightarrow> added cfg h 0 secs = secs"
  by (simp add: added_def map_nth [symmetric] del: map_nth) (metis map_nth)

lemma added_Suc:
  "I_I < length (P_Specs cfg) \<Longrightarrow>
   (added cfg h I_I secs)[I_I := add_entry cfg h I_I (secs ! I_I)] = added cfg h (Suc I_I) secs"
  by (rule nth_equalityI) (auto simp: nth_added nth_list_update less_Suc_eq)

lemma length_Rollback [simp]: "length (Rollback cfg tr I_I h secs) = length (P_Specs cfg)"
  by (simp add: Rollback_def)

lemma length_DropSecs_tuple [simp]: "length (DropSecs_tuple cfg tr ig h secs) = length (P_Specs cfg)"
  by (simp add: DropSecs_tuple_def)

lemma nth_DropSecs_tuple:
  "I_I < length (P_Specs cfg) \<Longrightarrow>
   DropSecs_tuple cfg tr ig h secs ! I_I =
     (if Some I_I \<noteq> ig then drop_entry cfg tr h I_I (secs ! I_I) else secs ! I_I)"
  by (simp add: DropSecs_tuple_def)

lemma AddSecs_from_step:
  assumes "I_I < length (P_Specs cfg)" "thr \<noteq> Some I_I" "\<not> rejects cfg h I_I (secs ! I_I)"
  shows "AddSecs_from cfg thr tr h I_I (added cfg h I_I secs) =
         AddSecs_from cfg thr tr h (Suc I_I) (added cfg h (Suc I_I) secs)"
proof -
  have n: "added cfg h I_I secs ! I_I = secs ! I_I" using assms(1) by (simp add: nth_added)
  show ?thesis
    using assms
    by (subst AddSecs_from.simps)
       (auto simp: n Let_def rejects_def add_entry_def sec_entry_def added_Suc [symmetric]
             split: prod.splits)
qed

lemma AddSecs_from_ok:
  assumes "\<forall>I_J. I_I \<le> I_J \<and> I_J < length (P_Specs cfg) \<longrightarrow> thr \<noteq> Some I_J \<and> \<not> rejects cfg h I_J (secs ! I_J)"
    and "I_I \<le> length (P_Specs cfg)"
  shows "AddSecs_from cfg thr tr h I_I (added cfg h I_I secs) =
         (Returned True, added cfg h (length (P_Specs cfg)) secs)"
  using assms
proof (induction "length (P_Specs cfg) - I_I" arbitrary: I_I)
  case 0
  then have "I_I = length (P_Specs cfg)" by simp
  then show ?case by (subst AddSecs_from.simps) simp
next
  case (Suc d)
  then have lt: "I_I < length (P_Specs cfg)" by simp
  have "AddSecs_from cfg thr tr h (Suc I_I) (added cfg h (Suc I_I) secs) =
        (Returned True, added cfg h (length (P_Specs cfg)) secs)"
    using Suc.hyps(1) [of "Suc I_I"] Suc.hyps(2) Suc.prems lt by simp
  then show ?case using AddSecs_from_step [OF lt, of thr h secs tr] Suc.prems(1) lt by simp
qed

lemma AddSecs_from_reject:
  assumes "\<forall>I_J. I_I \<le> I_J \<and> I_J < J \<longrightarrow> thr \<noteq> Some I_J \<and> \<not> rejects cfg h I_J (secs ! I_J)"
    and "I_I \<le> J" "J < length (P_Specs cfg)" "thr \<noteq> Some J" "rejects cfg h J (secs ! J)"
  shows "AddSecs_from cfg thr tr h I_I (added cfg h I_I secs) =
         (Returned False, Rollback cfg tr J h (added cfg h J secs))"
  using assms
proof (induction "J - I_I" arbitrary: I_I)
  case 0
  then have e: "I_I = J" by simp
  have n: "added cfg h J secs ! J = secs ! J" using "0.prems"(3) by (simp add: nth_added)
  show ?case unfolding e using "0.prems"(3,4,5)
    by (subst AddSecs_from.simps)
       (auto simp: n Let_def rejects_def sec_entry_def split: prod.splits)
next
  case (Suc d)
  then have lt: "I_I < J" "I_I < length (P_Specs cfg)" by simp_all
  have "AddSecs_from cfg thr tr h (Suc I_I) (added cfg h (Suc I_I) secs) =
        (Returned False, Rollback cfg tr J h (added cfg h J secs))"
    using Suc.hyps(1) [of "Suc I_I"] Suc.hyps(2) Suc.prems lt by simp
  then show ?case using AddSecs_from_step [OF lt(2), of thr h secs tr] Suc.prems(1) lt by simp
qed

lemma AddSecs_from_throw:
  assumes "\<forall>I_J. I_I \<le> I_J \<and> I_J < J \<longrightarrow> \<not> rejects cfg h I_J (secs ! I_J)"
    and "I_I \<le> J" "J < length (P_Specs cfg)"
  shows "AddSecs_from cfg (Some J) tr h I_I (added cfg h I_I secs) =
         (Threw, DropSecs_tuple cfg tr None h (added cfg h J secs))"
  using assms
proof (induction "J - I_I" arbitrary: I_I)
  case 0
  then have e: "I_I = J" by simp
  show ?case unfolding e using "0.prems"(3)
    by (subst AddSecs_from.simps) (simp add: Let_def)
next
  case (Suc d)
  then have lt: "I_I < J" "I_I < length (P_Specs cfg)" by simp_all
  have "AddSecs_from cfg (Some J) tr h (Suc I_I) (added cfg h (Suc I_I) secs) =
        (Threw, DropSecs_tuple cfg tr None h (added cfg h J secs))"
    using Suc.hyps(1) [of "Suc I_I"] Suc.hyps(2) Suc.prems lt by simp
  then show ?case using AddSecs_from_step [OF lt(2), of "Some J" h secs tr] Suc.prems(1) lt by simp
qed

section \<open>Consequences for a pair that is, or is not, registered in the secondaries\<close>

lemma ident_okI:
  assumes wf: "wf_config cfg" and p: "primary_ok cfg st" and t: "transl_ok cfg st tr"
  shows "ident_ok cfg tr (set st)"
proof -
  have ia: "\<And>h h'. h \<in> set st \<Longrightarrow> h' \<in> set st \<Longrightarrow> addr h' = addr h \<Longrightarrow> h' = h"
    using p by (meson distinct_map inj_onD primary_ok_def)
  show ?thesis
  proof (cases "P_Policy cfg")
    case S_NoInv
    then show ?thesis using ia by (auto simp: ident_ok_def)
  next
    case (S_UpdatePointerPolicyFull b)
    then show ?thesis using ia by (auto simp: ident_ok_def)
  next
    case (S_TranslationArrayPolicyFull b)
    then have "\<forall>h\<in>set st. tr ! trans_idx h = addr h"
      using t by (simp add: transl_ok_def c_needs_transl_array_def)
    then show ?thesis using ia S_TranslationArrayPolicyFull by (auto simp: ident_ok_def)
  next
    case S_KeyLookupPolicy
    then have "distinct (map first st)" using wf p by (simp add: wf_config_def primary_ok_def)
    then have "\<And>h h'. h \<in> set st \<Longrightarrow> h' \<in> set st \<Longrightarrow> first h' = first h \<Longrightarrow> h' = h"
      by (meson distinct_map inj_onD)
    then show ?thesis using S_KeyLookupPolicy by (auto simp: ident_ok_def)
  qed
qed

lemma unregistered_no_match:
  assumes ok: "secs_ok cfg M secs" and sub: "set_mset M \<subseteq> N" and h: "h \<in> N" "h \<notin># M"
    and id: "ident_ok cfg tr N" and I: "I_I < length (P_Specs cfg)"
  shows "\<forall>e\<in>set (secs ! I_I). \<not> MatchSecondary (P_Policy cfg) tr (snd e) h"
proof
  fix e assume "e \<in> set (secs ! I_I)"
  moreover have "mset (secs ! I_I) = image_mset (sec_entry cfg I_I) M"
    using ok I by (simp add: secs_ok_def sec_ok_def)
  ultimately have "e \<in># image_mset (sec_entry cfg I_I) M" by (metis set_mset_mset)
  then obtain h' where h': "h' \<in># M" "e = sec_entry cfg I_I h'" by auto
  then have "h' \<in> N" "h' \<noteq> h" using sub h by auto
  then show "\<not> MatchSecondary (P_Policy cfg) tr (snd e) h"
    using id h(1) h'(2) by (simp add: ident_ok_def sec_entry_def)
qed

lemma self_match: "ident_ok cfg tr N \<Longrightarrow> h \<in> N \<Longrightarrow>
    MatchSecondary (P_Policy cfg) tr (GetSecondaryValue (P_Policy cfg) h) h"
  by (simp add: ident_ok_def)

lemma secs_ok_sorted:
  "secs_ok cfg M secs \<Longrightarrow> I_I < length (P_Specs cfg) \<Longrightarrow> sorted (map fst (secs ! I_I))"
  by (simp add: secs_ok_def sec_ok_def)

lemma secs_ok_length: "secs_ok cfg M secs \<Longrightarrow> length secs = length (P_Specs cfg)"
  by (simp add: secs_ok_def)

lemma drop_added_unregistered:
  assumes ok: "secs_ok cfg M secs" and sub: "set_mset M \<subseteq> N" and h: "h \<in> N" "h \<notin># M"
    and id: "ident_ok cfg tr N" and I: "I_I < length (P_Specs cfg)"
  shows "\<not> rejects cfg h I_I (secs ! I_I) \<Longrightarrow> drop_entry cfg tr h I_I (add_entry cfg h I_I (secs ! I_I)) = secs ! I_I"
    and "drop_entry cfg tr h I_I (secs ! I_I) = secs ! I_I"
proof -
  note nm = unregistered_no_match [OF ok sub h id I]
  show "drop_entry cfg tr h I_I (add_entry cfg h I_I (secs ! I_I)) = secs ! I_I"
    if "\<not> rejects cfg h I_I (secs ! I_I)"
    using drop_add_entry [OF secs_ok_sorted [OF ok I] that _ self_match [OF id h(1)]] nm by blast
  show "drop_entry cfg tr h I_I (secs ! I_I) = secs ! I_I"
    using drop_entry_absent [OF secs_ok_sorted [OF ok I]] nm by blast
qed

lemma Rollback_added:
  assumes ok: "secs_ok cfg M secs" and sub: "set_mset M \<subseteq> N" and h: "h \<in> N" "h \<notin># M"
    and id: "ident_ok cfg tr N"
    and nr: "\<forall>I_J<J. \<not> rejects cfg h I_J (secs ! I_J)"
  shows "Rollback cfg tr J h (added cfg h J secs) = secs"
proof (rule nth_equalityI)
  show "length (Rollback cfg tr J h (added cfg h J secs)) = length secs"
    using secs_ok_length [OF ok] by simp
next
  fix i assume "i < length (Rollback cfg tr J h (added cfg h J secs))"
  then have i: "i < length (P_Specs cfg)" by simp
  show "Rollback cfg tr J h (added cfg h J secs) ! i = secs ! i"
    using i nr drop_added_unregistered(1) [OF ok sub h id i]
    by (simp add: Rollback_def nth_added)
qed

lemma DropSecs_tuple_added:
  assumes ok: "secs_ok cfg M secs" and sub: "set_mset M \<subseteq> N" and h: "h \<in> N" "h \<notin># M"
    and id: "ident_ok cfg tr N"
    and nr: "\<forall>I_J<J. \<not> rejects cfg h I_J (secs ! I_J)"
  shows "DropSecs_tuple cfg tr None h (added cfg h J secs) = secs"
proof (rule nth_equalityI)
  show "length (DropSecs_tuple cfg tr None h (added cfg h J secs)) = length secs"
    using secs_ok_length [OF ok] by simp
next
  fix i assume "i < length (DropSecs_tuple cfg tr None h (added cfg h J secs))"
  then have i: "i < length (P_Specs cfg)" by simp
  show "DropSecs_tuple cfg tr None h (added cfg h J secs) ! i = secs ! i"
    using i nr drop_added_unregistered [OF ok sub h id i]
    by (simp add: nth_DropSecs_tuple nth_added)
qed

lemma secs_ok_added:
  assumes ok: "secs_ok cfg M secs"
    and nr: "\<forall>I_J<length (P_Specs cfg). \<not> rejects cfg h I_J (secs ! I_J)"
  shows "secs_ok cfg (add_mset h M) (added cfg h (length (P_Specs cfg)) secs)"
  using ok nr by (simp add: secs_ok_def nth_added add_entry_sec_ok)

lemma secs_ok_DropSecs:
  assumes ok: "secs_ok cfg M secs" and sub: "set_mset M \<subseteq> N" and h: "h \<in># M"
    and id: "ident_ok cfg tr N"
  shows "secs_ok cfg (M - {#h#}) (DropSecs_tuple cfg tr None h secs)"
proof -
  have hN: "h \<in> N" using sub h by blast
  have inj: "\<forall>h'\<in>#M. MatchSecondary (P_Policy cfg) tr (GetSecondaryValue (P_Policy cfg) h') h \<longrightarrow> h' = h"
    using id sub hN by (auto simp: ident_ok_def)
  show ?thesis
    using ok drop_entry_sec_ok [OF _ h self_match [OF id hN] inj]
    by (simp add: secs_ok_def nth_DropSecs_tuple)
qed

lemma rejects_registered_iff:
  assumes ok: "secs_ok cfg M secs" and I: "I_I < length (P_Specs cfg)"
  shows "rejects cfg h I_I (secs ! I_I) \<longleftrightarrow>
         is_unique (P_Specs cfg ! I_I) \<and>
         (\<exists>h'\<in>#M. Project (P_Specs cfg ! I_I) (first h') (m_value h') =
                    Project (P_Specs cfg ! I_I) (first h) (m_value h))"
proof -
  let ?pr = "\<lambda>x. Project (P_Specs cfg ! I_I) (first x) (m_value x)"
  have "set (secs ! I_I) = sec_entry cfg I_I ` set_mset M"
    using ok I by (metis sec_ok_def secs_ok_def set_image_mset set_mset_mset)
  then have "fst ` set (secs ! I_I) = ?pr ` set_mset M"
    by (simp add: image_image sec_entry_def)
  then have "fst (sec_entry cfg I_I h) \<in> fst ` set (secs ! I_I) \<longleftrightarrow> (\<exists>h'\<in>#M. ?pr h = ?pr h')"
    by (simp add: sec_entry_def image_iff)
  also have "\<dots> \<longleftrightarrow> (\<exists>h'\<in>#M. ?pr h' = ?pr h)"
    by (rule bex_cong [OF refl]) (rule eq_commute)
  finally have "fst (sec_entry cfg I_I h) \<in> fst ` set (secs ! I_I) \<longleftrightarrow> (\<exists>h'\<in>#M. ?pr h' = ?pr h)" .
  then show ?thesis
    unfolding rejects_iff [OF secs_ok_sorted [OF ok I]] by simp
qed

text \<open>
  The outcome of \<open>AddSecs\<close> for a pair that has no entry yet: it throws when the
  throwing insert is reached before any rejection, it returns false when a unique
  secondary rejects, and in both cases the secondaries are what they were.
\<close>

lemma AddSecs_result:
  assumes ok: "secs_ok cfg M (m_second s)" and sub: "set_mset M \<subseteq> N" and h: "h \<in> N" "h \<notin># M"
    and id: "ident_ok cfg (transl s) N"
  shows "AddSecs cfg thr h s =
     (if \<exists>T. thr = Some T \<and> T < length (P_Specs cfg) \<and> (\<forall>I_J<T. \<not> rejects cfg h I_J (m_second s ! I_J))
      then (Threw, s)
      else if \<exists>I_J<length (P_Specs cfg). rejects cfg h I_J (m_second s ! I_J)
      then (Returned False, s)
      else (Returned True, s\<lparr>m_second := added cfg h (length (P_Specs cfg)) (m_second s)\<rparr>))"
proof -
  let ?n = "length (P_Specs cfg)" and ?secs = "m_second s"
  define rej where "rej J = rejects cfg h J (?secs ! J)" for J
  define thrown where "thrown = (\<exists>T. thr = Some T \<and> T < ?n \<and> (\<forall>I_J<T. \<not> rej I_J))"
  have a0: "added cfg h 0 ?secs = ?secs" using added_0 secs_ok_length [OF ok] by blast
  have goal: "AddSecs cfg thr h s =
     (if thrown then (Threw, s)
      else if \<exists>I_J<?n. rej I_J then (Returned False, s)
      else (Returned True, s\<lparr>m_second := added cfg h ?n ?secs\<rparr>))"
  proof (cases thrown)
    case True
    then obtain T where T: "thr = Some T" "T < ?n" "\<forall>I_J<T. \<not> rej I_J"
      unfolding thrown_def by blast
    have nr: "\<forall>I_J<T. \<not> rejects cfg h I_J (?secs ! I_J)" using T(3) by (simp add: rej_def)
    have nr': "\<forall>I_J. 0 \<le> I_J \<and> I_J < T \<longrightarrow> \<not> rejects cfg h I_J (?secs ! I_J)"
      using nr by simp
    have "AddSecs_from cfg (Some T) (transl s) h 0 (added cfg h 0 ?secs) =
          (Threw, DropSecs_tuple cfg (transl s) None h (added cfg h T ?secs))"
      using AddSecs_from_throw [OF nr' _ T(2)] by simp
    then have "AddSecs_from cfg thr (transl s) h 0 ?secs = (Threw, ?secs)"
      using a0 T(1) DropSecs_tuple_added [OF ok sub h id nr] by simp
    then show ?thesis using True by (simp add: AddSecs_def)
  next
    case nthrown: False
    show ?thesis
    proof (cases "\<exists>I_J<?n. rej I_J")
      case True
      define J where "J = (LEAST J. J < ?n \<and> rej J)"
      have J: "J < ?n \<and> rej J" unfolding J_def using True by (metis (mono_tags, lifting) LeastI)
      have least: "\<not> rej I_J" if "I_J < J" for I_J
      proof
        assume "rej I_J"
        then have "I_J < ?n \<and> rej I_J" using that J by simp
        then have "J \<le> I_J" unfolding J_def by (rule Least_le)
        then show False using that by simp
      qed
      have nt: "thr \<noteq> Some T" if "T \<le> J" for T
      proof
        assume "thr = Some T"
        moreover have "T < ?n" using that J by simp
        moreover have "\<forall>I_J<T. \<not> rej I_J" using least that by simp
        ultimately show False using nthrown unfolding thrown_def by blast
      qed
      have p1: "\<forall>I_J. 0 \<le> I_J \<and> I_J < J \<longrightarrow> thr \<noteq> Some I_J \<and> \<not> rejects cfg h I_J (?secs ! I_J)"
        using least nt by (simp add: rej_def)
      have p2: "rejects cfg h J (?secs ! J)" "J < ?n" "thr \<noteq> Some J"
        using J nt by (simp_all add: rej_def)
      have nr: "\<forall>I_J<J. \<not> rejects cfg h I_J (?secs ! I_J)" using least by (simp add: rej_def)
      have "AddSecs_from cfg thr (transl s) h 0 (added cfg h 0 ?secs) =
            (Returned False, Rollback cfg (transl s) J h (added cfg h J ?secs))"
        using AddSecs_from_reject [OF p1 _ p2(2) p2(3) p2(1)] by simp
      then have "AddSecs_from cfg thr (transl s) h 0 ?secs = (Returned False, ?secs)"
        using a0 Rollback_added [OF ok sub h id nr] by simp
      then show ?thesis using True nthrown by (simp add: AddSecs_def)
    next
      case False
      have nt: "thr \<noteq> Some T" if "T < ?n" for T
      proof
        assume "thr = Some T"
        moreover have "\<forall>I_J<T. \<not> rej I_J"
        proof (intro allI impI)
          fix I_J assume "I_J < T"
          then have "I_J < ?n" using that by simp
          then show "\<not> rej I_J" using False by blast
        qed
        ultimately have thrown unfolding thrown_def using that by blast
        then show False using nthrown by simp
      qed
      have p1: "\<forall>I_J. 0 \<le> I_J \<and> I_J < ?n \<longrightarrow> thr \<noteq> Some I_J \<and> \<not> rejects cfg h I_J (?secs ! I_J)"
        using False nt by (simp add: rej_def)
      have "AddSecs_from cfg thr (transl s) h 0 (added cfg h 0 ?secs) =
            (Returned True, added cfg h ?n ?secs)"
        using AddSecs_from_ok [OF p1] by simp
      then show ?thesis using a0 False nthrown by (simp add: AddSecs_def)
    qed
  qed
  then show ?thesis unfolding thrown_def rej_def .
qed

section \<open>Facts about the primary\<close>

lemma fold_max_ge: "x \<in> set xs \<Longrightarrow> x \<le> fold max xs (a::nat)"
proof (induction xs arbitrary: a)
  case Nil
  then show ?case by simp
next
  case (Cons y ys)
  have mono: "b \<le> fold max ys b" for b :: nat
    by (induction ys arbitrary: b) (auto intro: order_trans [OF max.cobounded2])
  show ?case
  proof (cases "x = y")
    case True
    have "y \<le> max y a" by simp
    also have "\<dots> \<le> fold max ys (max y a)" by (rule mono)
    finally show ?thesis using True by simp
  next
    case False
    then show ?thesis using Cons by simp
  qed
qed

lemma new_addr_fresh: "new_addr st \<notin> addr ` set st" "new_addr st \<noteq> 0"
proof -
  have "a \<le> fold max (map addr st) 0" if "a \<in> addr ` set st" for a
    using that fold_max_ge [of a "map addr st" 0] by simp
  then show "new_addr st \<notin> addr ` set st" unfolding new_addr_def
    by (metis Suc_n_not_le_n)
  show "new_addr st \<noteq> 0" by (simp add: new_addr_def)
qed

lemma mset_live_insert_at:
  "mset (live (insert_at p w st)) = (if dead w then mset (live st) else add_mset w (mset (live st)))"
  by (simp add: live_def)

lemma mset_live_update:
  "i < length st \<Longrightarrow>
   mset (live (st[i := y])) =
     (mset (live st) - (if dead (st ! i) then {#} else {#st ! i#})) + (if dead y then {#} else {#y#})"
  by (simp add: live_def mset_update filter_diff_mset [symmetric] del: filter_diff_mset)
     (simp add: filter_diff_mset)

lemma mset_live_map_erase:
  "i < length st \<Longrightarrow>
   mset (live (map_erase i st)) = mset (live st) - (if dead (st ! i) then {#} else {#st ! i#})"
  by (simp add: live_def mset_map_erase filter_diff_mset)

lemma live_subset: "set_mset (mset (live st)) \<subseteq> set st"
  by (auto simp: live_def)

lemma nth_in_live: "i < length st \<Longrightarrow> \<not> dead (st ! i) \<Longrightarrow> st ! i \<in># mset (live st)"
  by (simp add: live_def)

lemma length_live_size: "length (live st) = size (mset (live st))"
  by simp

lemma map_update_same:
  "i < length st \<Longrightarrow> f y = f (st ! i) \<Longrightarrow> map f (st[i := y]) = map f st"
  by (simp add: map_update list_update_same_conv)

lemma primary_ok_update:
  assumes "primary_ok cfg st" "i < length st" "addr y = addr (st ! i)" "first y = first (st ! i)"
    and "\<not> c_tombstones cfg \<longrightarrow> \<not> dead y"
  shows "primary_ok cfg (st[i := y])"
proof -
  have m: "map first (st[i := y]) = map first st" "map addr (st[i := y]) = map addr st"
    using assms(2,3,4) by (simp_all add: map_update_same)
  have "set (st[i := y]) \<subseteq> insert y (set st)" by (rule set_update_subset_insert)
  then have d: "\<not> c_tombstones cfg \<longrightarrow> (\<forall>h\<in>set (st[i := y]). \<not> dead h)"
    using assms(1,5) by (auto simp: primary_ok_def)
  have "addr ` set (st[i := y]) = addr ` set st" using m(2) by (metis set_map)
  then show ?thesis using assms(1) m d unfolding primary_ok_def by simp
qed

lemma primary_ok_map_erase:
  assumes "primary_ok cfg st"
  shows "primary_ok cfg (map_erase i st)"
proof -
  have s: "set (map_erase i st) \<subseteq> set st" by (rule set_map_erase_subset)
  have "sorted (map first (map_erase i st))" "distinct (map addr (map_erase i st))"
    "c_primary_is_unique cfg \<longrightarrow> distinct (map first (map_erase i st))"
    using assms by (simp_all add: primary_ok_def map_map_erase sorted_map_erase distinct_map_erase)
  then show ?thesis using assms s unfolding primary_ok_def by blast
qed

lemma primary_ok_insert:
  assumes ok: "primary_ok cfg st"
    and p: "p = (if c_primary_is_unique cfg then lower_bound first (first w) st
                 else upper_bound first (first w) st)"
    and fresh: "addr w \<notin> addr ` set st" "addr w \<noteq> 0" and nd: "\<not> dead w"
    and key: "c_primary_is_unique cfg \<longrightarrow> first w \<notin> first ` set st"
  shows "primary_ok cfg (insert_at p w st)"
proof -
  have srt: "sorted (map first st)" using ok by (simp add: primary_ok_def)
  have a: "sorted (map first (insert_at p w st))"
    unfolding p using sorted_insert_lower [OF srt] sorted_insert_upper [OF srt] by simp
  have b: "c_primary_is_unique cfg \<longrightarrow> distinct (map first (insert_at p w st))"
    using ok key by (simp add: primary_ok_def distinct_insert_at)
  have c: "distinct (map addr (insert_at p w st))"
    using ok fresh(1) by (simp add: primary_ok_def distinct_insert_at)
  show ?thesis using a b c ok fresh(2) nd by (simp add: primary_ok_def)
qed

lemma transl_ok_update:
  "transl_ok cfg st tr \<Longrightarrow> i < length st \<Longrightarrow> addr y = addr (st ! i) \<Longrightarrow> trans_idx y = trans_idx (st ! i)
   \<Longrightarrow> transl_ok cfg (st[i := y]) tr"
  unfolding transl_ok_def
  by (metis insertE nth_mem set_update_subset_insert subsetD)

lemma transl_ok_map_erase: "transl_ok cfg st tr \<Longrightarrow> transl_ok cfg (map_erase i st) tr"
  unfolding transl_ok_def using set_map_erase_subset by fastforce

lemma transl_ok_insert:
  assumes "transl_ok cfg st tr"
  shows "transl_ok cfg (insert_at p (if c_needs_transl_array cfg then w\<lparr>trans_idx := length tr\<rparr> else w) st)
           (if c_needs_transl_array cfg then tr @ [addr w] else tr)"
  using assms by (auto simp: transl_ok_def nth_append)

lemma update_insert_at [simp]: "p \<le> length st \<Longrightarrow> (insert_at p w st)[p := y] = insert_at p y st"
  by (simp add: insert_at_def list_update_append)

lemma inv_primary: "inv cfg s \<Longrightarrow> primary_ok cfg (m_storage s)"
  and inv_transl: "inv cfg s \<Longrightarrow> transl_ok cfg (m_storage s) (transl s)"
  and inv_secs: "inv cfg s \<Longrightarrow> secs_ok cfg (mset (live (m_storage s))) (m_second s)"
  and inv_live: "inv cfg s \<Longrightarrow> c_tombstones cfg \<Longrightarrow> m_live s = length (live (m_storage s))"
  by (simp_all add: inv_def)

lemma inv_empty: "inv cfg (empty_mi cfg)"
  by (simp add: inv_def empty_mi_def primary_ok_def transl_ok_def secs_ok_def sec_ok_def live_def)

lemma pos_of_nth:
  "distinct (map addr st) \<Longrightarrow> i < length st \<Longrightarrow> pos_of st (addr (st ! i)) = i"
proof (induction st arbitrary: i)
  case Nil
  then show ?case by simp
next
  case (Cons a st)
  show ?case
  proof (cases i)
    case 0
    then show ?thesis by (simp add: pos_of_def)
  next
    case (Suc j)
    then have "addr (st ! j) \<in> addr ` set st" using Cons.prems by simp
    then have "addr a \<noteq> addr (st ! j)" using Cons.prems by auto
    then show ?thesis using Cons.IH [of j] Cons.prems Suc by (simp add: pos_of_def)
  qed
qed

lemma pos_of_valid:
  "it \<in> addr ` set st \<Longrightarrow> pos_of st it < length st \<and> addr (st ! pos_of st it) = it"
proof -
  assume "it \<in> addr ` set st"
  then have ex: "\<exists>n\<in>set st. \<not> addr n \<noteq> it" by auto
  then have "takeWhile (\<lambda>n. addr n \<noteq> it) st \<noteq> st"
    by (simp add: takeWhile_eq_all_conv)
  then have "length (takeWhile (\<lambda>n. addr n \<noteq> it) st) \<noteq> length st"
    by (metis takeWhile_eq_take take_all order_refl)
  then have "length (takeWhile (\<lambda>n. addr n \<noteq> it) st) < length st"
    using length_takeWhile_le [of "\<lambda>n. addr n \<noteq> it" st] by simp
  moreover from this have "\<not> addr (st ! length (takeWhile (\<lambda>n. addr n \<noteq> it) st)) \<noteq> it"
    by (rule nth_length_takeWhile)
  ultimately show ?thesis by (simp add: pos_of_def)
qed

section \<open>What emplace does\<close>

lemma IncrementLive_fields [simp]:
  "m_storage (IncrementLive cfg s) = m_storage s" "m_second (IncrementLive cfg s) = m_second s"
  "transl (IncrementLive cfg s) = transl s"
  "m_live (IncrementLive cfg s) = (if c_tombstones cfg then m_live s + 1 else m_live s)"
  by (simp_all add: IncrementLive_def)

lemma inv_new_pair:
  assumes wf: "wf_config cfg" and iv: "inv cfg s"
    and p: "p = (if c_primary_is_unique cfg then lower_bound first (first w) (m_storage s)
                 else upper_bound first (first w) (m_storage s))"
    and fresh: "addr w \<notin> addr ` set (m_storage s)" "addr w \<noteq> 0" and nd: "\<not> dead w"
    and key: "c_primary_is_unique cfg \<longrightarrow> first w \<notin> first ` set (m_storage s)"
    and w': "w' = (if c_needs_transl_array cfg then w\<lparr>trans_idx := length (transl s)\<rparr> else w)"
    and tr': "tr' = (if c_needs_transl_array cfg then transl s @ [addr w] else transl s)"
  shows "primary_ok cfg (insert_at p w' (m_storage s))"
    and "transl_ok cfg (insert_at p w' (m_storage s)) tr'"
    and "ident_ok cfg tr' (set (insert_at p w' (m_storage s)))"
    and "w' \<notin># mset (live (m_storage s))"
proof -
  have f: "addr w' = addr w" "first w' = first w" "dead w' = dead w" by (simp_all add: w')
  have p': "p = (if c_primary_is_unique cfg then lower_bound first (first w') (m_storage s)
                 else upper_bound first (first w') (m_storage s))"
    using p f by simp
  show a: "primary_ok cfg (insert_at p w' (m_storage s))"
    by (rule primary_ok_insert [OF inv_primary [OF iv] p']) (use f fresh nd key in auto)
  show b: "transl_ok cfg (insert_at p w' (m_storage s)) tr'"
    unfolding w' tr' by (rule transl_ok_insert [OF inv_transl [OF iv]])
  show "ident_ok cfg tr' (set (insert_at p w' (m_storage s)))"
    by (rule ident_okI [OF wf a b])
  show "w' \<notin># mset (live (m_storage s))"
    using fresh(1) f(1) live_subset [of "m_storage s"] by (metis image_eqI subsetD)
qed

text \<open>
  The part of emplace after a successful primary insert: a throw or a rejection leaves the
  state as it was before the call, a success registers the new pair everywhere.
\<close>

lemma emplace_new_result:
  assumes wf: "wf_config cfg" and iv: "inv cfg s"
    and p: "p = (if c_primary_is_unique cfg then lower_bound first (first w) (m_storage s)
                 else upper_bound first (first w) (m_storage s))"
    and fresh: "addr w \<notin> addr ` set (m_storage s)" "addr w \<noteq> 0" and nd: "\<not> dead w"
    and key: "c_primary_is_unique cfg \<longrightarrow> first w \<notin> first ` set (m_storage s)"
    and w': "w' = (if c_needs_transl_array cfg then w\<lparr>trans_idx := length (transl s)\<rparr> else w)"
    and tr': "tr' = (if c_needs_transl_array cfg then transl s @ [addr w] else transl s)"
  shows "emplace_new cfg thr p (s\<lparr>m_storage := insert_at p w (m_storage s)\<rparr>) =
     (if \<exists>T. thr = Some T \<and> T < length (P_Specs cfg) \<and> (\<forall>I_J<T. \<not> rejects cfg w' I_J (m_second s ! I_J))
      then (Threw, s)
      else if \<exists>I_J<length (P_Specs cfg). rejects cfg w' I_J (m_second s ! I_J)
      then (Returned (end_it, False), s)
      else (Returned (addr w, True),
            IncrementLive cfg (s\<lparr>m_storage := insert_at p w' (m_storage s), transl := tr',
                                  m_second := added cfg w' (length (P_Specs cfg)) (m_second s)\<rparr>)))"
proof -
  let ?st = "m_storage s"
  let ?s0 = "s\<lparr>m_storage := insert_at p w ?st\<rparr>"
  let ?s1 = "s\<lparr>m_storage := insert_at p w' ?st, transl := tr'\<rparr>"
  note np = inv_new_pair [OF wf iv p fresh nd key w' tr']
  have pl: "p \<le> length ?st" unfolding p by (simp add: lower_le_length upper_le_length)
  have s1: "OnEmplaceSuccess cfg p ?s0 = ?s1"
    using pl by (simp add: OnEmplaceSuccess_def w' tr')
  have nth: "m_storage ?s1 ! p = w'" using pl by simp
  have fail: "(OnEmplaceFail cfg ?s1)\<lparr>m_storage := map_erase p (m_storage (OnEmplaceFail cfg ?s1))\<rparr> = s"
    using pl by (simp add: OnEmplaceFail_def tr')
  have fail2: "map_erase p (m_storage (OnEmplaceFail cfg ?s1)) = m_storage s"
    using pl by (simp add: OnEmplaceFail_def)
  have ok: "secs_ok cfg (mset (live ?st)) (m_second ?s1)" using inv_secs [OF iv] by simp
  have sub: "set_mset (mset (live ?st)) \<subseteq> set (insert_at p w' ?st)"
    using live_subset [of ?st] by auto
  have mem: "w' \<in> set (insert_at p w' ?st)" by simp
  have id: "ident_ok cfg (transl ?s1) (set (insert_at p w' ?st))" using np(3) by simp
  note res = AddSecs_result [OF ok sub mem np(4) id, of thr]
  have ms: "m_second ?s1 = m_second s" by simp
  have it: "ToIterator cfg (IncrementLive cfg (?s1\<lparr>m_second := secs\<rparr>)) p = addr w" for secs
    using pl nd by (subst ToIterator_live) (simp_all add: w')
  define A where "A = (\<exists>T. thr = Some T \<and> T < length (P_Specs cfg) \<and>
                            (\<forall>I_J<T. \<not> rejects cfg w' I_J (m_second s ! I_J)))"
  define B where "B = (\<exists>I_J<length (P_Specs cfg). rejects cfg w' I_J (m_second s ! I_J))"
  have res': "AddSecs cfg thr w' ?s1 =
     (if A then (Threw, ?s1) else if B then (Returned False, ?s1)
      else (Returned True, ?s1\<lparr>m_second := added cfg w' (length (P_Specs cfg)) (m_second s)\<rparr>))"
    using res unfolding ms A_def B_def .
  have "emplace_new cfg thr p ?s0 =
     (if A then (Threw, s) else if B then (Returned (end_it, False), s)
      else (Returned (addr w, True),
            IncrementLive cfg (s\<lparr>m_storage := insert_at p w' (m_storage s), transl := tr',
                                  m_second := added cfg w' (length (P_Specs cfg)) (m_second s)\<rparr>)))"
  proof (cases A)
    case True
    then show ?thesis unfolding emplace_new_def s1 Let_def nth res' using fail by simp
  next
    case nA: False
    show ?thesis
    proof (cases B)
      case True
      then show ?thesis unfolding emplace_new_def s1 Let_def nth res' using fail fail2 nA by simp
    next
      case False
      then show ?thesis unfolding emplace_new_def s1 Let_def nth res' using it nA by simp
    qed
  qed
  then show ?thesis unfolding A_def B_def .
qed

lemma emplace_new_inv:
  assumes wf: "wf_config cfg" and iv: "inv cfg s"
    and p: "p = (if c_primary_is_unique cfg then lower_bound first (first w) (m_storage s)
                 else upper_bound first (first w) (m_storage s))"
    and fresh: "addr w \<notin> addr ` set (m_storage s)" "addr w \<noteq> 0" and nd: "\<not> dead w"
    and key: "c_primary_is_unique cfg \<longrightarrow> first w \<notin> first ` set (m_storage s)"
    and w': "w' = (if c_needs_transl_array cfg then w\<lparr>trans_idx := length (transl s)\<rparr> else w)"
    and tr': "tr' = (if c_needs_transl_array cfg then transl s @ [addr w] else transl s)"
    and nr: "\<forall>I_J<length (P_Specs cfg). \<not> rejects cfg w' I_J (m_second s ! I_J)"
  shows "inv cfg (IncrementLive cfg (s\<lparr>m_storage := insert_at p w' (m_storage s), transl := tr',
                                  m_second := added cfg w' (length (P_Specs cfg)) (m_second s)\<rparr>))"
proof -
  note np = inv_new_pair [OF wf iv p fresh nd key w' tr']
  have d: "\<not> dead w'" using nd by (simp add: w')
  have a: "secs_ok cfg (mset (live (insert_at p w' (m_storage s))))
             (added cfg w' (length (P_Specs cfg)) (m_second s))"
    using secs_ok_added [OF inv_secs [OF iv] nr] d by (simp add: mset_live_insert_at)
  have b: "c_tombstones cfg \<longrightarrow> m_live s + 1 = length (live (insert_at p w' (m_storage s)))"
    using inv_live [OF iv] d
    by (simp add: length_live_size mset_live_insert_at del: size_mset)
  show ?thesis using np(1,2) a b by (simp add: inv_def)
qed

lemma in_set_update_other: "x \<in> set st \<Longrightarrow> x \<noteq> st ! i \<Longrightarrow> x \<in> set (st[i := y])"
  by (metis in_set_conv_nth length_list_update nth_list_update_neq)

lemma same_addr_same_pair:
  "primary_ok cfg st \<Longrightarrow> x \<in> set st \<Longrightarrow> i < length st \<Longrightarrow> addr x = addr (st ! i) \<Longrightarrow> x = st ! i"
  by (meson distinct_map inj_onD nth_mem primary_ok_def)

text \<open>A pair of the primary gets a new payload and flag; the other pairs still tell it apart.\<close>

lemma inv_changed_pair:
  assumes wf: "wf_config cfg" and iv: "inv cfg s" and i: "i < length (m_storage s)"
    and y: "addr y = addr (m_storage s ! i)" "first y = first (m_storage s ! i)"
      "trans_idx y = trans_idx (m_storage s ! i)" "\<not> c_tombstones cfg \<longrightarrow> \<not> dead y"
  shows "primary_ok cfg ((m_storage s)[i := y])"
    and "transl_ok cfg ((m_storage s)[i := y]) (transl s)"
    and "ident_ok cfg (transl s) (set ((m_storage s)[i := y]))"
    and "y \<in> set ((m_storage s)[i := y])"
    and "y \<notin># mset (live (m_storage s)) - {#m_storage s ! i#}"
    and "set_mset (mset (live (m_storage s)) - {#m_storage s ! i#}) \<subseteq> set ((m_storage s)[i := y])"
proof -
  let ?st = "m_storage s"
  note po = inv_primary [OF iv]
  show a: "primary_ok cfg (?st[i := y])" by (rule primary_ok_update [OF po i y(1,2,4)])
  show b: "transl_ok cfg (?st[i := y]) (transl s)"
    by (rule transl_ok_update [OF inv_transl [OF iv] i y(1,3)])
  show "ident_ok cfg (transl s) (set (?st[i := y]))" by (rule ident_okI [OF wf a b])
  show "y \<in> set (?st[i := y])" using i by (simp add: set_update_memI)
  have d: "distinct (live ?st)" using po by (simp add: primary_ok_def live_def distinct_map)
  have cnt: "count (mset (live ?st)) x \<le> 1" for x
    using d by (simp add: distinct_count_atmost_1)
  show "y \<notin># mset (live ?st) - {#?st ! i#}"
  proof
    assume m: "y \<in># mset (live ?st) - {#?st ! i#}"
    then have "y \<in> set ?st" using live_subset [of ?st] by (meson in_diffD subsetD)
    then have e: "y = ?st ! i" using same_addr_same_pair [OF po _ i y(1)] by simp
    from m have "count {#?st ! i#} y < count (mset (live ?st)) y" by (simp only: in_diff_count)
    then show False using cnt [of y] e by simp
  qed
  show "set_mset (mset (live ?st) - {#?st ! i#}) \<subseteq> set (?st[i := y])"
  proof
    fix x assume m: "x \<in># mset (live ?st) - {#?st ! i#}"
    then have x: "x \<in> set ?st" using live_subset [of ?st] by (meson in_diffD subsetD)
    have "x \<noteq> ?st ! i"
    proof
      assume e: "x = ?st ! i"
      from m have "count {#?st ! i#} x < count (mset (live ?st)) x" by (simp only: in_diff_count)
      then show False using cnt [of x] e by simp
    qed
    then show "x \<in> set (?st[i := y])" using x by (rule in_set_update_other [rotated])
  qed
qed

lemma dead_not_live: "dead x \<Longrightarrow> mset (live st) - {#x#} = mset (live st)"
  by (simp add: live_def)

lemma inv_dead_update:
  assumes wf: "wf_config cfg" and iv: "inv cfg s" and i: "i < length (m_storage s)"
    and tomb: "c_tombstones cfg" and d: "dead (m_storage s ! i)" "dead y"
    and y: "addr y = addr (m_storage s ! i)" "first y = first (m_storage s ! i)"
      "trans_idx y = trans_idx (m_storage s ! i)"
  shows "inv cfg (s\<lparr>m_storage := (m_storage s)[i := y]\<rparr>)"
proof -
  have t: "\<not> c_tombstones cfg \<longrightarrow> \<not> dead y" using tomb by simp
  note cp = inv_changed_pair [OF wf iv i y t]
  have "mset (live ((m_storage s)[i := y])) = mset (live (m_storage s))"
    using d by (simp add: mset_live_update [OF i])
  then have "secs_ok cfg (mset (live ((m_storage s)[i := y]))) (m_second s)"
    "length (live ((m_storage s)[i := y])) = length (live (m_storage s))"
    using inv_secs [OF iv] by (simp, metis size_mset)
  then show ?thesis using cp(1,2) inv_live [OF iv] by (simp add: inv_def)
qed

lemma emplace_revive_result:
  assumes wf: "wf_config cfg" and iv: "inv cfg s" and tomb: "c_tombstones cfg"
    and i: "i < length (m_storage s)" and d: "dead (m_storage s ! i)"
    and h': "h' = (m_storage s ! i)\<lparr>dead := False, m_value := v\<rparr>"
  shows "emplace_revive cfg thr i v s =
     (if \<exists>T. thr = Some T \<and> T < length (P_Specs cfg) \<and> (\<forall>I_J<T. \<not> rejects cfg h' I_J (m_second s ! I_J))
      then (Threw, s\<lparr>m_storage := (m_storage s)[i := h'\<lparr>dead := True\<rparr>]\<rparr>)
      else if \<exists>I_J<length (P_Specs cfg). rejects cfg h' I_J (m_second s ! I_J)
      then (Returned (end_it, False), s\<lparr>m_storage := (m_storage s)[i := h'\<lparr>dead := True\<rparr>]\<rparr>)
      else (Returned (addr (m_storage s ! i), True),
            IncrementLive cfg (s\<lparr>m_storage := (m_storage s)[i := h'],
                                  m_second := added cfg h' (length (P_Specs cfg)) (m_second s)\<rparr>)))"
proof -
  let ?st = "m_storage s"
  let ?s1 = "s\<lparr>m_storage := ?st[i := h']\<rparr>"
  have y: "addr h' = addr (?st ! i)" "first h' = first (?st ! i)" "trans_idx h' = trans_idx (?st ! i)"
    "\<not> c_tombstones cfg \<longrightarrow> \<not> dead h'" by (simp_all add: h')
  note cp = inv_changed_pair [OF wf iv i y]
  note dl = dead_not_live [OF d, of ?st]
  have s1: "upd_pair i (\<lambda>h. h\<lparr>dead := False, m_value := v\<rparr>) s = ?s1" by (simp add: upd_pair_def h')
  have nth: "m_storage ?s1 ! i = h'" using i by simp
  have ok: "secs_ok cfg (mset (live ?st)) (m_second ?s1)" using inv_secs [OF iv] by simp
  have id: "ident_ok cfg (transl ?s1) (set (?st[i := h']))" using cp(3) by simp
  note res = AddSecs_result [OF ok cp(6) [unfolded dl] cp(4) cp(5) [unfolded dl] id, of thr]
  have ms: "m_second ?s1 = m_second s" by simp
  define A where "A = (\<exists>T. thr = Some T \<and> T < length (P_Specs cfg) \<and>
                            (\<forall>I_J<T. \<not> rejects cfg h' I_J (m_second s ! I_J)))"
  define B where "B = (\<exists>I_J<length (P_Specs cfg). rejects cfg h' I_J (m_second s ! I_J))"
  have res': "AddSecs cfg thr h' ?s1 =
     (if A then (Threw, ?s1) else if B then (Returned False, ?s1)
      else (Returned True, ?s1\<lparr>m_second := added cfg h' (length (P_Specs cfg)) (m_second s)\<rparr>))"
    using res unfolding ms A_def B_def .
  have bk: "upd_pair i (\<lambda>h. h\<lparr>dead := True\<rparr>) ?s1 = s\<lparr>m_storage := ?st[i := h'\<lparr>dead := True\<rparr>]\<rparr>"
    using i by (simp add: upd_pair_def)
  have it: "ToIterator cfg (IncrementLive cfg (?s1\<lparr>m_second := secs\<rparr>)) i = addr (?st ! i)" for secs
    using i by (subst ToIterator_live) (simp_all add: h')
  have "emplace_revive cfg thr i v s =
     (if A then (Threw, s\<lparr>m_storage := ?st[i := h'\<lparr>dead := True\<rparr>]\<rparr>)
      else if B then (Returned (end_it, False), s\<lparr>m_storage := ?st[i := h'\<lparr>dead := True\<rparr>]\<rparr>)
      else (Returned (addr (?st ! i), True),
            IncrementLive cfg (s\<lparr>m_storage := ?st[i := h'],
                                  m_second := added cfg h' (length (P_Specs cfg)) (m_second s)\<rparr>)))"
  proof (cases A)
    case True
    then show ?thesis unfolding emplace_revive_def s1 Let_def nth res' using bk by simp
  next
    case nA: False
    show ?thesis
    proof (cases B)
      case True
      then show ?thesis unfolding emplace_revive_def s1 Let_def nth res' using bk nA by simp
    next
      case False
      then show ?thesis unfolding emplace_revive_def s1 Let_def nth res' using it nA by simp
    qed
  qed
  then show ?thesis unfolding A_def B_def .
qed

lemma emplace_revive_inv:
  assumes wf: "wf_config cfg" and iv: "inv cfg s" and tomb: "c_tombstones cfg"
    and i: "i < length (m_storage s)" and d: "dead (m_storage s ! i)"
    and h': "h' = (m_storage s ! i)\<lparr>dead := False, m_value := v\<rparr>"
  shows "inv cfg (s\<lparr>m_storage := (m_storage s)[i := h'\<lparr>dead := True\<rparr>]\<rparr>)"
    and "\<forall>I_J<length (P_Specs cfg). \<not> rejects cfg h' I_J (m_second s ! I_J) \<Longrightarrow>
         inv cfg (IncrementLive cfg (s\<lparr>m_storage := (m_storage s)[i := h'],
                                  m_second := added cfg h' (length (P_Specs cfg)) (m_second s)\<rparr>))"
proof -
  let ?st = "m_storage s"
  show "inv cfg (s\<lparr>m_storage := ?st[i := h'\<lparr>dead := True\<rparr>]\<rparr>)"
    by (rule inv_dead_update [OF wf iv i tomb d]) (simp_all add: h')
  assume nr: "\<forall>I_J<length (P_Specs cfg). \<not> rejects cfg h' I_J (m_second s ! I_J)"
  have y: "addr h' = addr (?st ! i)" "first h' = first (?st ! i)" "trans_idx h' = trans_idx (?st ! i)"
    "\<not> c_tombstones cfg \<longrightarrow> \<not> dead h'" by (simp_all add: h')
  note cp = inv_changed_pair [OF wf iv i y]
  have l: "mset (live (?st[i := h'])) = add_mset h' (mset (live ?st))"
    using d by (simp add: mset_live_update [OF i] h')
  have a: "secs_ok cfg (mset (live (?st[i := h']))) (added cfg h' (length (P_Specs cfg)) (m_second s))"
    unfolding l by (rule secs_ok_added [OF inv_secs [OF iv] nr])
  have "size (mset (live (?st[i := h']))) = Suc (size (mset (live ?st)))" unfolding l by simp
  then have b: "m_live s + 1 = length (live (?st[i := h']))"
    using inv_live [OF iv tomb] by simp
  show "inv cfg (IncrementLive cfg (s\<lparr>m_storage := ?st[i := h'],
                                  m_second := added cfg h' (length (P_Specs cfg)) (m_second s)\<rparr>))"
    using cp(1,2) a b tomb by (simp add: inv_def)
qed

lemma map_find_unique:
  assumes "sorted (map kf xs)" "distinct (map kf xs)" "i < length xs" "kf (xs ! i) = k"
  shows "map_find kf k xs = i"
proof -
  have r: "lower_bound kf k xs \<le> i" "i < upper_bound kf k xs"
    using in_equal_range_iff [OF assms(1,3), of k] assms(4) by auto
  then have "lower_bound kf k xs = i" using distinct_keys_range [OF assms(1,2), of k] by simp
  then show ?thesis using assms(3,4) by (simp add: map_find_def)
qed

lemma emplace_new_key:
  assumes wf: "wf_config cfg" and iv: "inv cfg s"
    and key: "c_primary_is_unique cfg \<longrightarrow> k \<notin> first ` set (m_storage s)"
    and p: "p = (if c_primary_is_unique cfg then lower_bound first k (m_storage s)
                 else upper_bound first k (m_storage s))"
    and w': "w' = \<lparr>addr = new_addr (m_storage s), first = k, m_value = v, dead = False,
                   trans_idx = (if c_needs_transl_array cfg then length (transl s) else 0)\<rparr>"
    and tr': "tr' = (if c_needs_transl_array cfg then transl s @ [addr w'] else transl s)"
  shows "emplace cfg thr k v s =
     (if \<exists>T. thr = Some T \<and> T < length (P_Specs cfg) \<and> (\<forall>I_J<T. \<not> rejects cfg w' I_J (m_second s ! I_J))
      then (Threw, s)
      else if \<exists>I_J<length (P_Specs cfg). rejects cfg w' I_J (m_second s ! I_J)
      then (Returned (end_it, False), s)
      else (Returned (addr w', True),
            IncrementLive cfg (s\<lparr>m_storage := insert_at p w' (m_storage s), transl := tr',
                                  m_second := added cfg w' (length (P_Specs cfg)) (m_second s)\<rparr>)))"
    and "\<forall>I_J<length (P_Specs cfg). \<not> rejects cfg w' I_J (m_second s ! I_J) \<Longrightarrow>
         inv cfg (IncrementLive cfg (s\<lparr>m_storage := insert_at p w' (m_storage s), transl := tr',
                                  m_second := added cfg w' (length (P_Specs cfg)) (m_second s)\<rparr>))"
proof -
  let ?st = "m_storage s"
  define w where "w = \<lparr>addr = new_addr ?st, first = k, m_value = v, dead = False, trans_idx = 0\<rparr>"
  have f: "first w = k" "addr w = addr w'" "\<not> dead w" by (simp_all add: w_def w')
  have w'': "w' = (if c_needs_transl_array cfg then w\<lparr>trans_idx := length (transl s)\<rparr> else w)"
    by (simp add: w_def w')
  have tr'': "tr' = (if c_needs_transl_array cfg then transl s @ [addr w] else transl s)"
    using f by (simp add: tr')
  have p': "p = (if c_primary_is_unique cfg then lower_bound first (first w) ?st
                 else upper_bound first (first w) ?st)" using p f by simp
  have fresh: "addr w \<notin> addr ` set ?st" "addr w \<noteq> 0"
    using new_addr_fresh [of ?st] by (simp_all add: w_def)
  have key': "c_primary_is_unique cfg \<longrightarrow> first w \<notin> first ` set ?st" using key f by simp
  note res = emplace_new_result [OF wf iv p' fresh f(3) key' w'' tr'', of thr, unfolded f(2)]
  have srt: "sorted (map first ?st)" using inv_primary [OF iv] by (simp add: primary_ok_def)
  have "emplace cfg thr k v s = emplace_new cfg thr p (s\<lparr>m_storage := insert_at p w ?st\<rparr>)"
  proof (cases "c_primary_is_unique cfg")
    case True
    then have nk: "first w \<notin> first ` set ?st" using key' by simp
    have mf: "map_find first k ?st = length ?st"
      using map_find_iff [OF srt, of k] nk f(1) by simp
    show ?thesis
      using True mf insert_unique_new [OF srt nk] p f(1)
      by (simp add: emplace_def w_def [symmetric])
  next
    case False
    then show ?thesis using p f(1)
      by (simp add: emplace_def w_def [symmetric] insert_multi_def Let_def)
  qed
  then show "emplace cfg thr k v s =
     (if \<exists>T. thr = Some T \<and> T < length (P_Specs cfg) \<and> (\<forall>I_J<T. \<not> rejects cfg w' I_J (m_second s ! I_J))
      then (Threw, s)
      else if \<exists>I_J<length (P_Specs cfg). rejects cfg w' I_J (m_second s ! I_J)
      then (Returned (end_it, False), s)
      else (Returned (addr w', True),
            IncrementLive cfg (s\<lparr>m_storage := insert_at p w' (m_storage s), transl := tr',
                                  m_second := added cfg w' (length (P_Specs cfg)) (m_second s)\<rparr>)))"
    using res by simp
  show "inv cfg (IncrementLive cfg (s\<lparr>m_storage := insert_at p w' (m_storage s), transl := tr',
                                  m_second := added cfg w' (length (P_Specs cfg)) (m_second s)\<rparr>))"
    if "\<forall>I_J<length (P_Specs cfg). \<not> rejects cfg w' I_J (m_second s ! I_J)"
    by (rule emplace_new_inv [OF wf iv p' fresh f(3) key' w'' tr'' that])
qed

lemma emplace_existing_live:
  assumes iv: "inv cfg s" and u: "c_primary_is_unique cfg"
    and i: "i < length (m_storage s)" "first (m_storage s ! i) = k" "\<not> dead (m_storage s ! i)"
  shows "emplace cfg thr k v s = (Returned (addr (m_storage s ! i), False), s)"
proof -
  let ?st = "m_storage s"
  have srt: "sorted (map first ?st)" "distinct (map first ?st)"
    using inv_primary [OF iv] u by (simp_all add: primary_ok_def)
  have mf: "map_find first k ?st = i" by (rule map_find_unique [OF srt i(1,2)])
  then have lb: "lower_bound first k ?st = i"
    using i(1) by (simp add: map_find_def Let_def split: if_splits)
  have kin: "k \<in> first ` set ?st" using i(1,2) by (metis imageI nth_mem)
  let ?w = "\<lparr>addr = new_addr ?st, first = k, m_value = v, dead = False, trans_idx = 0\<rparr>"
  have iu: "insert_unique first ?w ?st = ((i, False), ?st)"
    using insert_unique_dup [OF srt(1), of ?w] kin lb by simp
  have it: "ToIterator cfg s i = addr (?st ! i)" by (rule ToIterator_live [OF i(1,3)])
  show ?thesis using u mf i iu it by (simp add: emplace_def)
qed

lemma emplace_dead_key:
  assumes iv: "inv cfg s" and u: "c_primary_is_unique cfg"
    and i: "i < length (m_storage s)" "first (m_storage s ! i) = k" "dead (m_storage s ! i)"
  shows "emplace cfg thr k v s = emplace_revive cfg thr i v s"
proof -
  let ?st = "m_storage s"
  have srt: "sorted (map first ?st)" "distinct (map first ?st)"
    using inv_primary [OF iv] u by (simp_all add: primary_ok_def)
  have t: "c_tombstones cfg" using inv_primary [OF iv] i by (auto simp: primary_ok_def)
  have mf: "map_find first k ?st = i" by (rule map_find_unique [OF srt i(1,2)])
  show ?thesis using u t mf i by (simp add: emplace_def)
qed

text \<open>emplace keeps the invariants, whatever its outcome.\<close>

lemma emplace_inv:
  assumes wf: "wf_config cfg" and iv: "inv cfg s"
  shows "inv cfg (snd (emplace cfg thr k v s))"
proof (cases "c_primary_is_unique cfg \<and> k \<in> first ` set (m_storage s)")
  case True
  then obtain i where i: "i < length (m_storage s)" "first (m_storage s ! i) = k"
    by (metis imageE in_set_conv_nth)
  show ?thesis
  proof (cases "dead (m_storage s ! i)")
    case False
    then show ?thesis using emplace_existing_live [OF iv _ i] True iv by simp
  next
    case d: True
    then have t: "c_tombstones cfg" using inv_primary [OF iv] i by (auto simp: primary_ok_def)
    note r = emplace_revive_result [OF wf iv t i(1) d refl, of thr v]
    note v = emplace_revive_inv [OF wf iv t i(1) d refl, of v]
    have e: "emplace cfg thr k v s = emplace_revive cfg thr i v s"
      using emplace_dead_key [OF iv _ i d] True by simp
    let ?h = "(m_storage s ! i)\<lparr>dead := False, m_value := v\<rparr>"
    show ?thesis
    proof (cases "\<forall>I_J<length (P_Specs cfg). \<not> rejects cfg ?h I_J (m_second s ! I_J)")
      case True
      then show ?thesis unfolding e r using v by (simp split: if_splits)
    next
      case False
      then show ?thesis unfolding e r using v(1) by (simp split: if_splits)
    qed
  qed
next
  case False
  then have key: "c_primary_is_unique cfg \<longrightarrow> k \<notin> first ` set (m_storage s)" by simp
  let ?w = "\<lparr>addr = new_addr (m_storage s), first = k, m_value = v, dead = False,
             trans_idx = (if c_needs_transl_array cfg then length (transl s) else 0)\<rparr>"
  note r = emplace_new_key(1) [OF wf iv key refl refl refl, where thr = thr]
    emplace_new_key(2) [OF wf iv key refl refl refl]
  show ?thesis
  proof (cases "\<forall>I_J<length (P_Specs cfg). \<not> rejects cfg ?w I_J (m_second s ! I_J)")
    case True
    then show ?thesis unfolding r(1) using r(2) iv by (simp split: if_splits)
  next
    case False
    then show ?thesis unfolding r(1) using iv by (simp split: if_splits)
  qed
qed

section \<open>Dropping and re-adding the entries of a registered pair\<close>

lemma unique_projection:
  assumes ok: "sec_ok cfg I_I M m" and u: "is_unique (P_Specs cfg ! I_I)"
    and mem: "h \<in># M" "h' \<in># M - {#h#}"
  shows "Project (P_Specs cfg ! I_I) (first h') (m_value h') \<noteq> Project (P_Specs cfg ! I_I) (first h) (m_value h)"
proof
  let ?pr = "\<lambda>x. fst (sec_entry cfg I_I x)"
  assume "Project (P_Specs cfg ! I_I) (first h') (m_value h') = Project (P_Specs cfg ! I_I) (first h) (m_value h)"
  then have e: "?pr h' = ?pr h" by (simp add: sec_entry_def)
  obtain M'' where M'': "M - {#h#} = add_mset h' M''" using mem(2) by (meson mset_add)
  have M: "M = add_mset h (add_mset h' M'')" using mem(1) M'' by (metis insert_DiffM)
  have "mset m = image_mset (sec_entry cfg I_I) M" using ok by (simp add: sec_ok_def)
  then have "mset (map fst m) = image_mset fst (image_mset (sec_entry cfg I_I) M)" by simp
  also have "\<dots> = image_mset ?pr M" by (simp add: multiset.map_comp comp_def)
  also have "\<dots> = add_mset (?pr h) (add_mset (?pr h') (image_mset ?pr M''))"
    by (subst M) simp
  finally have "mset (map fst m) = add_mset (?pr h) (add_mset (?pr h') (image_mset ?pr M''))" .
  then have "count (mset (map fst m)) (?pr h) \<ge> 2" using e by simp
  moreover have "distinct (map fst m)" using ok u by (simp add: sec_ok_def)
  then have "count (mset (map fst m)) (?pr h) \<le> 1"
    unfolding distinct_count_atmost_1 by simp
  ultimately show False by simp
qed

lemma mset_add_entry:
  "sorted (map fst m) \<Longrightarrow> \<not> rejects cfg h I_I m \<Longrightarrow>
   mset (add_entry cfg h I_I m) = add_mset (sec_entry cfg I_I h) (mset m)"
  by (simp add: add_entry_eq)

lemma readd:
  assumes ok: "secs_ok cfg M secs" and sub: "set_mset M \<subseteq> N" and mem: "h \<in># M"
    and once: "h \<notin># M - {#h#}" and id: "ident_ok cfg tr N"
    and D: "D = DropSecs_tuple cfg tr None h secs"
  shows "\<forall>I_J<length (P_Specs cfg). \<not> rejects cfg h I_J (D ! I_J)"
    and "secs_ok cfg M (added cfg h (length (P_Specs cfg)) D)"
    and "\<forall>I_J<length (P_Specs cfg). is_unique (P_Specs cfg ! I_J) \<longrightarrow>
           added cfg h (length (P_Specs cfg)) D ! I_J = secs ! I_J"
    and "\<forall>I_J<length (P_Specs cfg). mset (added cfg h (length (P_Specs cfg)) D ! I_J) = mset (secs ! I_J)"
proof -
  have hN: "h \<in> N" using sub mem by blast
  have okD: "secs_ok cfg (M - {#h#}) D" unfolding D by (rule secs_ok_DropSecs [OF ok sub mem id])
  have inj: "\<forall>h'\<in>#M. MatchSecondary (P_Policy cfg) tr (GetSecondaryValue (P_Policy cfg) h') h \<longrightarrow> h' = h"
    using id sub hN by (auto simp: ident_ok_def)
  note self = self_match [OF id hN]
  show nr: "\<forall>I_J<length (P_Specs cfg). \<not> rejects cfg h I_J (D ! I_J)"
  proof (intro allI impI notI)
    fix I_J assume I: "I_J < length (P_Specs cfg)" and r: "rejects cfg h I_J (D ! I_J)"
    then obtain h' where h': "is_unique (P_Specs cfg ! I_J)" "h' \<in># M - {#h#}"
      "Project (P_Specs cfg ! I_J) (first h') (m_value h') = Project (P_Specs cfg ! I_J) (first h) (m_value h)"
      using rejects_registered_iff [OF okD I, of h] by blast
    have "sec_ok cfg I_J M (secs ! I_J)" using ok I by (simp add: secs_ok_def)
    from unique_projection [OF this h'(1) mem h'(2)] h'(3) show False by simp
  qed
  have "secs_ok cfg (add_mset h (M - {#h#})) (added cfg h (length (P_Specs cfg)) D)"
    by (rule secs_ok_added [OF okD nr])
  then show "secs_ok cfg M (added cfg h (length (P_Specs cfg)) D)" using mem by simp
  show "\<forall>I_J<length (P_Specs cfg). is_unique (P_Specs cfg ! I_J) \<longrightarrow>
           added cfg h (length (P_Specs cfg)) D ! I_J = secs ! I_J"
  proof (intro allI impI)
    fix I_J assume I: "I_J < length (P_Specs cfg)" and u: "is_unique (P_Specs cfg ! I_J)"
    have so: "sec_ok cfg I_J M (secs ! I_J)" using ok I by (simp add: secs_ok_def)
    show "added cfg h (length (P_Specs cfg)) D ! I_J = secs ! I_J"
      using readd_unique_exact [OF so u mem self inj] I
      by (simp add: nth_added D nth_DropSecs_tuple)
  qed
  show "\<forall>I_J<length (P_Specs cfg). mset (added cfg h (length (P_Specs cfg)) D ! I_J) = mset (secs ! I_J)"
  proof (intro allI impI)
    fix I_J assume I: "I_J < length (P_Specs cfg)"
    have "mset (add_entry cfg h I_J (D ! I_J)) = add_mset (sec_entry cfg I_J h) (mset (D ! I_J))"
      using mset_add_entry [OF secs_ok_sorted [OF okD I]] nr I by blast
    also have "\<dots> = add_mset (sec_entry cfg I_J h) (image_mset (sec_entry cfg I_J) (M - {#h#}))"
      using okD I by (simp add: secs_ok_def sec_ok_def)
    also have "\<dots> = image_mset (sec_entry cfg I_J) M" using mem
      by (metis image_mset_add_mset insert_DiffM)
    also have "\<dots> = mset (secs ! I_J)" using ok I by (simp add: secs_ok_def sec_ok_def)
    finally show "mset (added cfg h (length (P_Specs cfg)) D ! I_J) = mset (secs ! I_J)"
      using I by (simp add: nth_added)
  qed
qed

section \<open>UpdateCore\<close>

lemma upd_pair_fields [simp]:
  "m_storage (upd_pair i f s) = (m_storage s)[i := f (m_storage s ! i)]"
  "m_second (upd_pair i f s) = m_second s" "transl (upd_pair i f s) = transl s"
  "m_live (upd_pair i f s) = m_live s"
  by (simp_all add: upd_pair_def)

lemma handle_valid:
  assumes iv: "inv cfg s" and mem: "h \<in> addr ` set (m_storage s)"
  shows "h \<noteq> 0" and "pos_of (m_storage s) h < length (m_storage s)"
    and "addr (m_storage s ! pos_of (m_storage s) h) = h"
    and "dead (m_storage s ! pos_of (m_storage s) h) \<Longrightarrow> c_tombstones cfg"
proof -
  have p: "primary_ok cfg (m_storage s)" by (rule inv_primary [OF iv])
  show "h \<noteq> 0" using p mem by (auto simp: primary_ok_def)
  show i: "pos_of (m_storage s) h < length (m_storage s)" using pos_of_valid [OF mem] by simp
  show "addr (m_storage s ! pos_of (m_storage s) h) = h" using pos_of_valid [OF mem] by simp
  show "dead (m_storage s ! pos_of (m_storage s) h) \<Longrightarrow> c_tombstones cfg"
    using p nth_mem [OF i] unfolding primary_ok_def by blast
qed

text \<open>
  \<open>restore_old\<close> for a pair that was live: the old payload is back, and the entries of the
  pair are written again into the secondaries left by \<open>DropSecs\<close>, unless an insert throws:
  then the handler of \<open>AddSecs\<close> has dropped what was written.
\<close>

lemma restore_old_live:
  assumes wf: "wf_config cfg" and iv: "inv cfg s" and i: "i < length (m_storage s)"
    and nd: "\<not> dead (m_storage s ! i)"
    and n0: "n0 = m_storage s ! i"
    and D: "D = DropSecs_tuple cfg (transl s) None n0 (m_second s)"
  shows "restore_old cfg thr_r i (m_value n0) False
           (s\<lparr>m_storage := (m_storage s)[i := n0\<lparr>m_value := p\<rparr>], m_second := D\<rparr>) =
         (if \<exists>T. thr_r = Some T \<and> T < length (P_Specs cfg) then (Threw, s\<lparr>m_second := D\<rparr>)
          else (Returned True, s\<lparr>m_second := added cfg n0 (length (P_Specs cfg)) D\<rparr>))"
proof -
  let ?st = "m_storage s"
  let ?M = "mset (live ?st)"
  let ?n = "length (P_Specs cfg)"
  let ?s2 = "s\<lparr>m_second := D\<rparr>"
  have id: "ident_ok cfg (transl s) (set ?st)"
    by (rule ident_okI [OF wf inv_primary [OF iv] inv_transl [OF iv]])
  have mem: "n0 \<in># ?M" unfolding n0 by (rule nth_in_live [OF i nd])
  have y: "addr n0 = addr (?st ! i)" "first n0 = first (?st ! i)"
      "trans_idx n0 = trans_idx (?st ! i)" "\<not> c_tombstones cfg \<longrightarrow> \<not> dead n0"
    using nd by (simp_all add: n0)
  have once: "n0 \<notin># ?M - {#n0#}" using inv_changed_pair(5) [OF wf iv i y] by (simp add: n0)
  note rd = readd [OF inv_secs [OF iv] live_subset mem once id D]
  have okD: "secs_ok cfg (?M - {#n0#}) (m_second ?s2)"
    using secs_ok_DropSecs [OF inv_secs [OF iv] live_subset mem id] by (simp add: D)
  have sub: "set_mset (?M - {#n0#}) \<subseteq> set ?st"
    using live_subset [of ?st] by (meson in_diffD subsetD subsetI)
  have inN: "n0 \<in> set ?st" unfolding n0 using i by simp
  have id2: "ident_ok cfg (transl ?s2) (set ?st)" using id by simp
  have ms: "m_second ?s2 = D" by simp
  have c: "(\<exists>T. thr_r = Some T \<and> T < ?n \<and> (\<forall>I_J<T. \<not> rejects cfg n0 I_J (D ! I_J)))
           = (\<exists>T. thr_r = Some T \<and> T < ?n)"
    using rd(1) by (auto intro: less_trans)
  have nr: "(\<exists>I_J<?n. rejects cfg n0 I_J (D ! I_J)) = False" using rd(1) by blast
  have A: "AddSecs cfg thr_r n0 ?s2 =
      (if \<exists>T. thr_r = Some T \<and> T < ?n then (Threw, ?s2)
       else (Returned True, ?s2\<lparr>m_second := added cfg n0 ?n D\<rparr>))"
    unfolding AddSecs_result [OF okD sub inN once id2, of thr_r] ms c nr by (simp only: if_False)
  have r2: "(?st ! i)\<lparr>dead := False\<rparr> = ?st ! i" using nd by simp
  have R: "restore_old cfg thr_r i (m_value n0) False
             (s\<lparr>m_storage := ?st[i := n0\<lparr>m_value := p\<rparr>], m_second := D\<rparr>) = AddSecs cfg thr_r n0 ?s2"
    using i unfolding n0 by (simp add: restore_old_def Let_def upd_pair_def r2)
  show ?thesis unfolding R A by simp
qed

text \<open>
  What \<open>UpdateCore\<close> returns and leaves behind when the pair of the handle is live.  When
  the insert into a secondary throws after the mutation, the pair keeps the new payload
  and none of its entries is in the secondaries.
\<close>

lemma UpdateCore_live:
  assumes wf: "wf_config cfg" and iv: "inv cfg s" and mem: "h \<in> addr ` set (m_storage s)"
    and i: "i = pos_of (m_storage s) h" and n0: "n0 = m_storage s ! i" and nd: "\<not> dead n0"
    and D: "D = DropSecs_tuple cfg (transl s) None n0 (m_second s)"
  shows "UpdateCore cfg thr thr_r h mut s =
     (case mut (m_value n0) of
        None \<Rightarrow> (Threw, if \<exists>T. thr_r = Some T \<and> T < length (P_Specs cfg) then s\<lparr>m_second := D\<rparr>
                        else s\<lparr>m_second := added cfg n0 (length (P_Specs cfg)) D\<rparr>)
      | Some p \<Rightarrow>
          if \<exists>T. thr = Some T \<and> T < length (P_Specs cfg)
                 \<and> (\<forall>I_J<T. \<not> rejects cfg (n0\<lparr>m_value := p\<rparr>) I_J (D ! I_J))
          then (Threw, s\<lparr>m_storage := (m_storage s)[i := n0\<lparr>m_value := p\<rparr>], m_second := D\<rparr>)
          else if \<exists>I_J<length (P_Specs cfg). rejects cfg (n0\<lparr>m_value := p\<rparr>) I_J (D ! I_J)
          then (if \<exists>T. thr_r = Some T \<and> T < length (P_Specs cfg) then (Threw, s\<lparr>m_second := D\<rparr>)
                else (Returned False, s\<lparr>m_second := added cfg n0 (length (P_Specs cfg)) D\<rparr>))
          else (Returned True,
                s\<lparr>m_storage := (m_storage s)[i := n0\<lparr>m_value := p\<rparr>],
                  m_second := added cfg (n0\<lparr>m_value := p\<rparr>) (length (P_Specs cfg)) D\<rparr>))"
proof -
  let ?st = "m_storage s"
  let ?M = "mset (live ?st)"
  let ?n = "length (P_Specs cfg)"
  let ?s2 = "s\<lparr>m_second := D\<rparr>"
  let ?R = "s\<lparr>m_second := added cfg n0 ?n D\<rparr>"
  let ?tr = "\<exists>T. thr_r = Some T \<and> T < ?n"
  note hv = handle_valid [OF iv mem]
  have il: "i < length ?st" using hv(2) by (simp add: i)
  have nd': "\<not> dead (?st ! i)" using nd by (simp add: n0)
  have id: "ident_ok cfg (transl s) (set ?st)"
    by (rule ident_okI [OF wf inv_primary [OF iv] inv_transl [OF iv]])
  have memM: "n0 \<in># ?M" unfolding n0 by (rule nth_in_live [OF il nd'])
  have okD: "secs_ok cfg (?M - {#n0#}) D"
    using secs_ok_DropSecs [OF inv_secs [OF iv] live_subset memM id] by (simp add: D)
  note rest = restore_old_live [OF wf iv il nd' n0 D, of thr_r]
  have r2: "(?st ! i)\<lparr>dead := False\<rparr> = ?st ! i" using nd' by simp
  have s1: "(if c_tombstones cfg then upd_pair i (\<lambda>h. h\<lparr>dead := False\<rparr>) s else s) = s"
    by (simp add: upd_pair_def r2)
  have s2: "DropSecs cfg None (?st ! i) s = ?s2" by (simp add: DropSecs_def D n0)
  have of: "(if c_tombstones cfg then dead (?st ! i) else False) = False" using nd' by simp
  have pre: "UpdateCore cfg thr thr_r h mut s =
      (case mut (m_value n0) of
         None \<Rightarrow> (Threw, snd (restore_old cfg thr_r i (m_value n0) False ?s2))
       | Some p \<Rightarrow>
           (let s3 = upd_pair i (\<lambda>h. h\<lparr>m_value := p\<rparr>) ?s2
            in case AddSecs cfg thr (m_storage s3 ! i) s3 of
                 (Returned ok, s4) \<Rightarrow>
                   if \<not> ok then
                     (case restore_old cfg thr_r i (m_value n0) False s4 of
                        (Returned r, s5) \<Rightarrow> (Returned False, s5)
                      | (Threw, s5) \<Rightarrow> (Threw, s5))
                   else (Returned True, s4)
               | (Threw, s4) \<Rightarrow> (Threw, s4)))"
    unfolding UpdateCore_def Let_def i [symmetric] s1 of s2
    using hv(1) by (simp add: n0 split: option.split prod.split outcome.split)
  have none: "snd (restore_old cfg thr_r i (m_value n0) False ?s2) = (if ?tr then ?s2 else ?R)"
  proof -
    have "s\<lparr>m_storage := ?st[i := n0\<lparr>m_value := m_value n0\<rparr>], m_second := D\<rparr> = ?s2"
      by (simp add: n0)
    then have "restore_old cfg thr_r i (m_value n0) False ?s2 =
        (if ?tr then (Threw, ?s2) else (Returned True, ?R))"
      using rest [of "m_value n0"] by (simp only:)
    then show ?thesis by (cases ?tr) (simp_all only: if_True if_False snd_conv)
  qed
  have some: "(let s3 = upd_pair i (\<lambda>h. h\<lparr>m_value := p\<rparr>) ?s2
            in case AddSecs cfg thr (m_storage s3 ! i) s3 of
                 (Returned ok, s4) \<Rightarrow>
                   if \<not> ok then
                     (case restore_old cfg thr_r i (m_value n0) False s4 of
                        (Returned r, s5) \<Rightarrow> (Returned False, s5)
                      | (Threw, s5) \<Rightarrow> (Threw, s5))
                   else (Returned True, s4)
               | (Threw, s4) \<Rightarrow> (Threw, s4)) =
          (if \<exists>T. thr = Some T \<and> T < ?n \<and> (\<forall>I_J<T. \<not> rejects cfg (n0\<lparr>m_value := p\<rparr>) I_J (D ! I_J))
           then (Threw, s\<lparr>m_storage := ?st[i := n0\<lparr>m_value := p\<rparr>], m_second := D\<rparr>)
           else if \<exists>I_J<?n. rejects cfg (n0\<lparr>m_value := p\<rparr>) I_J (D ! I_J)
           then (if ?tr then (Threw, ?s2) else (Returned False, ?R))
           else (Returned True,
                s\<lparr>m_storage := ?st[i := n0\<lparr>m_value := p\<rparr>],
                  m_second := added cfg (n0\<lparr>m_value := p\<rparr>) ?n D\<rparr>))" for p
  proof -
    let ?n1 = "n0\<lparr>m_value := p\<rparr>"
    let ?s3 = "s\<lparr>m_storage := ?st[i := ?n1], m_second := D\<rparr>"
    have y: "addr ?n1 = addr (?st ! i)" "first ?n1 = first (?st ! i)"
      "trans_idx ?n1 = trans_idx (?st ! i)" "\<not> c_tombstones cfg \<longrightarrow> \<not> dead ?n1"
      using nd by (simp_all add: n0)
    note cp = inv_changed_pair [OF wf iv il y]
    have u: "upd_pair i (\<lambda>h. h\<lparr>m_value := p\<rparr>) ?s2 = ?s3" by (simp add: upd_pair_def n0)
    have nth: "m_storage ?s3 ! i = ?n1" using il by simp
    have ok3: "secs_ok cfg (?M - {#n0#}) (m_second ?s3)" using okD by simp
    have id3: "ident_ok cfg (transl ?s3) (set (?st[i := ?n1]))" using cp(3) by simp
    have sub3: "set_mset (?M - {#n0#}) \<subseteq> set (?st[i := ?n1])" using cp(6) by (simp add: n0)
    have nin: "?n1 \<notin># ?M - {#n0#}" using cp(5) by (simp add: n0)
    have ms: "m_second ?s3 = D" by simp
    have sm: "?s3\<lparr>m_second := added cfg ?n1 ?n D\<rparr> =
              s\<lparr>m_storage := ?st[i := ?n1], m_second := added cfg ?n1 ?n D\<rparr>" by simp
    note A = AddSecs_result [OF ok3 sub3 cp(4) nin id3, of thr, unfolded ms sm]
    show ?thesis
    proof (cases "\<exists>T. thr = Some T \<and> T < ?n \<and> (\<forall>I_J<T. \<not> rejects cfg ?n1 I_J (D ! I_J))")
      case True
      show ?thesis unfolding Let_def u nth A
        by (simp only: True if_True prod.case outcome.case)
    next
      case nt: False
      show ?thesis
      proof (cases "\<exists>I_J<?n. rejects cfg ?n1 I_J (D ! I_J)")
        case True
        show ?thesis unfolding Let_def u nth A
          by (cases ?tr) (simp_all only: nt True rest if_True if_False prod.case outcome.case simp_thms)
      next
        case False
        show ?thesis unfolding Let_def u nth A
          by (simp only: nt False if_True if_False prod.case outcome.case simp_thms)
      qed
    qed
  qed
  show ?thesis unfolding pre none using some by (simp only: split: option.split)
qed

text \<open>
  The same for a pair that is dead (tombstoned): no secondary holds an entry of it.  When
  the insert into a secondary throws, the flag stays cleared and the live counter is not
  incremented.
\<close>

lemma UpdateCore_dead:
  assumes wf: "wf_config cfg" and iv: "inv cfg s" and mem: "h \<in> addr ` set (m_storage s)"
    and i: "i = pos_of (m_storage s) h" and n0: "n0 = m_storage s ! i" and d: "dead n0"
  shows "UpdateCore cfg thr thr_r h mut s =
     (case mut (m_value n0) of
        None \<Rightarrow> (Threw, s)
      | Some p \<Rightarrow>
          if \<exists>T. thr = Some T \<and> T < length (P_Specs cfg)
                 \<and> (\<forall>I_J<T. \<not> rejects cfg (n0\<lparr>dead := False, m_value := p\<rparr>) I_J (m_second s ! I_J))
          then (Threw, s\<lparr>m_storage := (m_storage s)[i := n0\<lparr>dead := False, m_value := p\<rparr>]\<rparr>)
          else if \<exists>I_J<length (P_Specs cfg). rejects cfg (n0\<lparr>dead := False, m_value := p\<rparr>) I_J (m_second s ! I_J)
          then (Returned False, s)
          else (Returned True,
                IncrementLive cfg
                  (s\<lparr>m_storage := (m_storage s)[i := n0\<lparr>dead := False, m_value := p\<rparr>],
                     m_second := added cfg (n0\<lparr>dead := False, m_value := p\<rparr>) (length (P_Specs cfg)) (m_second s)\<rparr>)))"
proof -
  let ?st = "m_storage s"
  let ?M = "mset (live ?st)"
  let ?n = "length (P_Specs cfg)"
  let ?s1 = "s\<lparr>m_storage := ?st[i := n0\<lparr>dead := False\<rparr>]\<rparr>"
  note hv = handle_valid [OF iv mem]
  have il: "i < length ?st" using hv(2) by (simp add: i)
  have d': "dead (?st ! i)" using d by (simp add: n0)
  have tomb: "c_tombstones cfg" using hv(4) d' by (simp add: i)
  have r0: "(?st ! i)\<lparr>dead := True\<rparr> = ?st ! i" using d' by simp
  have rest: "restore_old cfg thr_r i (m_value n0) True
                (s\<lparr>m_storage := ?st[i := n0\<lparr>dead := False, m_value := p\<rparr>]\<rparr>) = (Returned True, s)" for p
    using il tomb by (simp add: restore_old_def Let_def upd_pair_def n0 r0)
  have s1: "upd_pair i (\<lambda>h. h\<lparr>dead := False\<rparr>) s = ?s1" by (simp add: upd_pair_def n0)
  have pre: "UpdateCore cfg thr thr_r h mut s =
      (case mut (m_value n0) of
         None \<Rightarrow> (Threw, snd (restore_old cfg thr_r i (m_value n0) True ?s1))
       | Some p \<Rightarrow>
           (let s3 = upd_pair i (\<lambda>h. h\<lparr>m_value := p\<rparr>) ?s1
            in case AddSecs cfg thr (m_storage s3 ! i) s3 of
                 (Returned ok, s4) \<Rightarrow>
                   if \<not> ok then
                     (case restore_old cfg thr_r i (m_value n0) True s4 of
                        (Returned r, s5) \<Rightarrow> (Returned False, s5)
                      | (Threw, s5) \<Rightarrow> (Threw, s5))
                   else (Returned True, IncrementLive cfg s4)
               | (Threw, s4) \<Rightarrow> (Threw, s4)))"
    unfolding UpdateCore_def Let_def i [symmetric]
    using hv(1) tomb d' il
    by (simp add: n0 upd_pair_def split: option.split prod.split outcome.split)
  have none: "snd (restore_old cfg thr_r i (m_value n0) True ?s1) = s"
  proof -
    have "n0\<lparr>dead := False, m_value := m_value n0\<rparr> = n0\<lparr>dead := False\<rparr>" by simp
    then show ?thesis using rest [of "m_value n0"] by simp
  qed
  have some: "(let s3 = upd_pair i (\<lambda>h. h\<lparr>m_value := p\<rparr>) ?s1
            in case AddSecs cfg thr (m_storage s3 ! i) s3 of
                 (Returned ok, s4) \<Rightarrow>
                   if \<not> ok then
                     (case restore_old cfg thr_r i (m_value n0) True s4 of
                        (Returned r, s5) \<Rightarrow> (Returned False, s5)
                      | (Threw, s5) \<Rightarrow> (Threw, s5))
                   else (Returned True, IncrementLive cfg s4)
               | (Threw, s4) \<Rightarrow> (Threw, s4)) =
          (if \<exists>T. thr = Some T \<and> T < ?n
                 \<and> (\<forall>I_J<T. \<not> rejects cfg (n0\<lparr>dead := False, m_value := p\<rparr>) I_J (m_second s ! I_J))
           then (Threw, s\<lparr>m_storage := ?st[i := n0\<lparr>dead := False, m_value := p\<rparr>]\<rparr>)
           else if \<exists>I_J<?n. rejects cfg (n0\<lparr>dead := False, m_value := p\<rparr>) I_J (m_second s ! I_J)
           then (Returned False, s)
           else (Returned True,
                IncrementLive cfg
                  (s\<lparr>m_storage := ?st[i := n0\<lparr>dead := False, m_value := p\<rparr>],
                     m_second := added cfg (n0\<lparr>dead := False, m_value := p\<rparr>) ?n (m_second s)\<rparr>)))" for p
  proof -
    let ?n2 = "n0\<lparr>dead := False, m_value := p\<rparr>"
    let ?s3 = "s\<lparr>m_storage := ?st[i := ?n2]\<rparr>"
    have y: "addr ?n2 = addr (?st ! i)" "first ?n2 = first (?st ! i)"
      "trans_idx ?n2 = trans_idx (?st ! i)" "\<not> c_tombstones cfg \<longrightarrow> \<not> dead ?n2"
      by (simp_all add: n0)
    note cp = inv_changed_pair [OF wf iv il y]
    have dl: "?M - {#?st ! i#} = ?M" by (rule dead_not_live [OF d'])
    have u: "upd_pair i (\<lambda>h. h\<lparr>m_value := p\<rparr>) ?s1 = ?s3" using il by (simp add: upd_pair_def)
    have nth: "m_storage ?s3 ! i = ?n2" using il by simp
    have ok3: "secs_ok cfg ?M (m_second ?s3)" using inv_secs [OF iv] by simp
    have id3: "ident_ok cfg (transl ?s3) (set (?st[i := ?n2]))" using cp(3) by simp
    have sub3: "set_mset ?M \<subseteq> set (?st[i := ?n2])" using cp(6) dl by simp
    have nin: "?n2 \<notin># ?M" using cp(5) dl by simp
    have ms: "m_second ?s3 = m_second s" by simp
    note A = AddSecs_result [OF ok3 sub3 cp(4) nin id3, of thr, unfolded ms]
    show ?thesis
    proof (cases "\<exists>T. thr = Some T \<and> T < ?n \<and> (\<forall>I_J<T. \<not> rejects cfg ?n2 I_J (m_second s ! I_J))")
      case True
      show ?thesis unfolding Let_def u nth A
        by (simp only: True if_True prod.case outcome.case)
    next
      case nt: False
      show ?thesis
      proof (cases "\<exists>I_J<?n. rejects cfg ?n2 I_J (m_second s ! I_J)")
        case True
        show ?thesis unfolding Let_def u nth A
          by (simp only: nt True rest if_True if_False prod.case outcome.case simp_thms)
      next
        case False
        show ?thesis unfolding Let_def u nth A
          by (simp only: nt False if_True if_False prod.case outcome.case simp_thms)
      qed
    qed
  qed
  show ?thesis unfolding pre none using some by (simp only: split: option.split)
qed

lemma mset_live_replace:
  assumes i: "i < length st" and nd: "\<not> dead (st ! i)" "\<not> dead y"
  shows "mset (live (st[i := y])) = add_mset y (mset (live st) - {#st ! i#})"
    and "length (live (st[i := y])) = length (live st)"
proof -
  show e: "mset (live (st[i := y])) = add_mset y (mset (live st) - {#st ! i#})"
    using mset_live_update [OF i, of y] nd by simp
  have "st ! i \<in># mset (live st)" by (rule nth_in_live [OF i nd(1)])
  then have "size (add_mset y (mset (live st) - {#st ! i#})) = size (mset (live st))"
    by (simp add: size_Suc_Diff1)
  then show "length (live (st[i := y])) = length (live st)"
    using e by (metis length_live_size)
qed

section \<open>Where the re-added entry of a non-unique secondary goes\<close>

lemma count_one_position:
  "count (mset xs) x = 1 \<Longrightarrow> i < length xs \<Longrightarrow> j < length xs \<Longrightarrow> xs ! i = x \<Longrightarrow> xs ! j = x \<Longrightarrow> i = j"
proof (induction xs arbitrary: i j)
  case Nil
  then show ?case by simp
next
  case (Cons a xs)
  have in0: "k < length xs \<Longrightarrow> xs ! k = x \<Longrightarrow> 0 < count (mset xs) x" for k
    by (metis count_greater_zero_iff nth_mem set_mset_mset)
  show ?case
  proof (cases i)
    case i0: 0
    show ?thesis
    proof (cases j)
      case 0
      then show ?thesis using i0 by simp
    next
      case (Suc j')
      then have "0 < count (mset xs) x" using Cons.prems in0 [of j'] by simp
      then show ?thesis using Cons.prems i0 by simp
    qed
  next
    case (Suc i')
    then have ci: "0 < count (mset xs) x" using Cons.prems in0 [of i'] by simp
    show ?thesis
    proof (cases j)
      case 0
      then show ?thesis using Cons.prems ci by simp
    next
      case sj: (Suc j')
      have "a \<noteq> x" using Cons.prems(1) ci by auto
      then have "count (mset xs) x = 1" using Cons.prems(1) by simp
      then have "i' = j'" using Cons.IH [of i' j'] Cons.prems Suc sj by simp
      then show ?thesis using Suc sj by simp
    qed
  qed
qed

lemma count_image_filter:
  "count (image_mset f M) y = size (filter_mset (\<lambda>x. f x = y) M)"
  by (induction M) simp_all

lemma entry_once:
  assumes ok: "sec_ok cfg I_I M m" and mem: "h \<in># M" and once: "h \<notin># M - {#h#}"
    and self: "MatchSecondary (P_Policy cfg) tr (GetSecondaryValue (P_Policy cfg) h) h"
    and inj: "\<forall>h'\<in>#M. MatchSecondary (P_Policy cfg) tr (GetSecondaryValue (P_Policy cfg) h') h \<longrightarrow> h' = h"
  shows "count (mset m) (sec_entry cfg I_I h) = 1"
proof -
  have ms: "mset m = image_mset (sec_entry cfg I_I) M" using ok by (simp add: sec_ok_def)
  have e: "sec_entry cfg I_I h' = sec_entry cfg I_I h \<longleftrightarrow> h' = h" if "h' \<in># M" for h'
  proof
    assume "sec_entry cfg I_I h' = sec_entry cfg I_I h"
    then have "GetSecondaryValue (P_Policy cfg) h' = GetSecondaryValue (P_Policy cfg) h"
      by (simp add: sec_entry_def)
    then show "h' = h" using self inj that by auto
  qed simp
  have c1: "count M h = 1"
  proof -
    have a: "count (M - {#h#}) h = 0" using once by (simp only: not_in_iff)
    have b: "0 < count M h" using mem by (simp only: count_greater_zero_iff)
    have "count (M - {#h#}) h = count M h - 1" by simp
    then show ?thesis using a b by arith
  qed
  have "count (mset m) (sec_entry cfg I_I h) =
        size (filter_mset (\<lambda>h'. sec_entry cfg I_I h' = sec_entry cfg I_I h) M)"
    unfolding ms by (rule count_image_filter)
  also have "filter_mset (\<lambda>h'. sec_entry cfg I_I h' = sec_entry cfg I_I h) M = filter_mset (\<lambda>h'. h' = h) M"
    by (rule filter_mset_cong [OF refl]) (use e in auto)
  also have "size (filter_mset (\<lambda>h'. h' = h) M) = count M h"
    by (simp add: filter_eq_replicate_mset)
  finally show ?thesis using c1 by simp
qed

lemma upper_bound_split:
  assumes srt: "sorted (map kf m)" and j: "j < length m" and k: "kf (m ! j) = k"
  shows "upper_bound kf k m = Suc j + upper_bound kf k (drop (Suc j) m)"
    and "upper_bound kf k (map_erase j m) = j + upper_bound kf k (drop (Suc j) m)"
proof -
  have m: "m = take j m @ m ! j # drop (Suc j) m" using j by (simp add: id_take_nth_drop)
  have le: "\<forall>x\<in>set (take j m). kf x \<le> k"
  proof
    fix x assume "x \<in> set (take j m)"
    then obtain a where a: "a < j" "x = m ! a" using j by (auto simp: in_set_conv_nth)
    have "map kf m ! a \<le> map kf m ! j" using srt a(1) j by (simp add: sorted_iff_nth_mono)
    then show "kf x \<le> k" using a j k by simp
  qed
  have t1: "takeWhile (\<lambda>x. kf x \<le> k) (take j m @ ys) = take j m @ takeWhile (\<lambda>x. kf x \<le> k) ys" for ys
    using le by (simp add: takeWhile_append2)
  have "upper_bound kf k m = length (takeWhile (\<lambda>x. kf x \<le> k) (take j m @ m ! j # drop (Suc j) m))"
    unfolding upper_bound_def using m by simp
  then show "upper_bound kf k m = Suc j + upper_bound kf k (drop (Suc j) m)"
    unfolding t1 using k j by (simp add: upper_bound_def)
  show "upper_bound kf k (map_erase j m) = j + upper_bound kf k (drop (Suc j) m)"
    unfolding upper_bound_def map_erase_def t1 using j by simp
qed

lemma reinsert_at_upper_bound:
  assumes srt: "sorted (map fst m)" and j: "j < length m"
  shows "insert_at (upper_bound fst (fst (m ! j)) (map_erase j m)) (m ! j) (map_erase j m)
         = take j m @ drop (Suc j) (take (upper_bound fst (fst (m ! j)) m) m) @ [m ! j]
           @ drop (upper_bound fst (fst (m ! j)) m) m"
proof -
  let ?r = "drop (Suc j) m"
  let ?c = "upper_bound fst (fst (m ! j)) ?r"
  note ub = upper_bound_split [OF srt j refl]
  have a: "take (j + ?c) (take j m @ ?r) = take j m @ take ?c ?r" using j by simp
  have b: "drop (j + ?c) (take j m @ ?r) = drop ?c ?r" using j by simp
  have d: "drop (Suc j + ?c) m = drop ?c ?r" by (simp add: add.commute)
  have e: "drop (Suc j) (take (Suc j + ?c) m) = take ?c ?r" by (simp add: drop_take)
  show ?thesis
    unfolding ub insert_at_def
    by (simp only: map_erase_def a b d e append_assoc append_Cons append_Nil)
qed

text \<open>
  Dropping and re-adding the entry of a pair in a non-unique secondary moves that entry,
  which occurs at one position only, behind the last entry with the same sub-key; every
  other entry keeps its place relative to the others.
\<close>

lemma readd_multi_exact:
  assumes ok: "sec_ok cfg I_I M m" and nu: "\<not> is_unique (P_Specs cfg ! I_I)"
    and mem: "h \<in># M" and once: "h \<notin># M - {#h#}"
    and self: "MatchSecondary (P_Policy cfg) tr (GetSecondaryValue (P_Policy cfg) h) h"
    and inj: "\<forall>h'\<in>#M. MatchSecondary (P_Policy cfg) tr (GetSecondaryValue (P_Policy cfg) h') h \<longrightarrow> h' = h"
  shows "\<exists>j<length m. m ! j = sec_entry cfg I_I h
           \<and> (\<forall>j'<length m. m ! j' = sec_entry cfg I_I h \<longrightarrow> j' = j)
           \<and> add_entry cfg h I_I (drop_entry cfg tr h I_I m) =
               take j m @ drop (Suc j) (take (upper_bound fst (fst (m ! j)) m) m) @ [m ! j]
               @ drop (upper_bound fst (fst (m ! j)) m) m"
proof -
  obtain j where j: "j < length m" "m ! j = sec_entry cfg I_I h"
    "drop_entry cfg tr h I_I m = map_erase j m"
    using drop_entry_registered [OF ok mem self inj] by blast
  have srt: "sorted (map fst m)" using ok by (simp add: sec_ok_def)
  have c: "count (mset m) (sec_entry cfg I_I h) = 1" by (rule entry_once [OF ok mem once self inj])
  have u: "\<forall>j'<length m. m ! j' = sec_entry cfg I_I h \<longrightarrow> j' = j"
    using count_one_position [OF c _ j(1) _ j(2)] by blast
  have "add_entry cfg h I_I (map_erase j m) =
        insert_at (upper_bound fst (fst (m ! j)) (map_erase j m)) (m ! j) (map_erase j m)"
    using nu j(2) by (simp add: add_entry_def insert_multi_def Let_def)
  then have "add_entry cfg h I_I (drop_entry cfg tr h I_I m) =
     take j m @ drop (Suc j) (take (upper_bound fst (fst (m ! j)) m) m) @ [m ! j]
     @ drop (upper_bound fst (fst (m ! j)) m) m"
    using reinsert_at_upper_bound [OF srt j(1)] j(3) by simp
  then show ?thesis using j(1,2) u by blast
qed

section \<open>A rejected update\<close>

text \<open>
  A unique secondary rejects the entry rebuilt for the new payload before any insert
  throws, and the re-insertion of the old entries by \<open>restore_old\<close> does not throw.
\<close>

lemma UpdateCore_rejected:
  assumes wf: "wf_config cfg" and iv: "inv cfg s" and mem: "h \<in> addr ` set (m_storage s)"
    and n0: "n0 = m_storage s ! pos_of (m_storage s) h"
    and D: "D = (if dead n0 then m_second s else DropSecs_tuple cfg (transl s) None n0 (m_second s))"
    and mut: "mut (m_value n0) = Some p"
    and rej: "\<exists>I_J<length (P_Specs cfg). rejects cfg (n0\<lparr>dead := False, m_value := p\<rparr>) I_J (D ! I_J)"
    and nt: "\<not> (\<exists>T. thr = Some T \<and> T < length (P_Specs cfg)
                \<and> (\<forall>I_J<T. \<not> rejects cfg (n0\<lparr>dead := False, m_value := p\<rparr>) I_J (D ! I_J)))"
    and ntr: "dead n0 \<or> \<not> (\<exists>T. thr_r = Some T \<and> T < length (P_Specs cfg))"
    and s': "s' = snd (UpdateCore cfg thr thr_r h mut s)"
  shows "fst (UpdateCore cfg thr thr_r h mut s) = Returned False"
    and "m_storage s' = m_storage s" and "transl s' = transl s" and "m_live s' = m_live s"
    and "length (m_second s') = length (m_second s)"
    and "\<forall>I_J<length (P_Specs cfg). mset (m_second s' ! I_J) = mset (m_second s ! I_J)"
    and "\<forall>I_J<length (P_Specs cfg). is_unique (P_Specs cfg ! I_J) \<longrightarrow> m_second s' ! I_J = m_second s ! I_J"
    and "\<forall>I_J<length (P_Specs cfg). \<not> is_unique (P_Specs cfg ! I_J) \<and> \<not> dead n0 \<longrightarrow>
           (\<exists>j<length (m_second s ! I_J).
               m_second s ! I_J ! j = sec_entry cfg I_J n0
             \<and> (\<forall>j'<length (m_second s ! I_J). m_second s ! I_J ! j' = sec_entry cfg I_J n0 \<longrightarrow> j' = j)
             \<and> m_second s' ! I_J =
                 take j (m_second s ! I_J)
                 @ drop (Suc j) (take (upper_bound fst (fst (m_second s ! I_J ! j)) (m_second s ! I_J)) (m_second s ! I_J))
                 @ [m_second s ! I_J ! j]
                 @ drop (upper_bound fst (fst (m_second s ! I_J ! j)) (m_second s ! I_J)) (m_second s ! I_J))"
    and "dead n0 \<longrightarrow> s' = s"
    and "\<not> dead n0 \<longrightarrow> s' = s\<lparr>m_second := added cfg n0 (length (P_Specs cfg)) D\<rparr>"
    and "inv cfg s'"
proof -
  let ?st = "m_storage s"
  let ?M = "mset (live ?st)"
  let ?n = "length (P_Specs cfg)"
  define i where "i = pos_of ?st h"
  have n0i: "n0 = ?st ! i" by (simp add: n0 i_def)
  note hv = handle_valid [OF iv mem]
  have il: "i < length ?st" using hv(2) by (simp add: i_def)
  have len: "length (m_second s) = ?n" by (rule secs_ok_length [OF inv_secs [OF iv]])
  have all: "fst (UpdateCore cfg thr thr_r h mut s) = Returned False \<and> m_storage s' = m_storage s
      \<and> transl s' = transl s \<and> m_live s' = m_live s
      \<and> (\<forall>I_J<?n. mset (m_second s' ! I_J) = mset (m_second s ! I_J))
      \<and> (\<forall>I_J<?n. is_unique (P_Specs cfg ! I_J) \<longrightarrow> m_second s' ! I_J = m_second s ! I_J)
      \<and> (\<forall>I_J<?n. \<not> is_unique (P_Specs cfg ! I_J) \<and> \<not> dead n0 \<longrightarrow>
           (\<exists>j<length (m_second s ! I_J).
               m_second s ! I_J ! j = sec_entry cfg I_J n0
             \<and> (\<forall>j'<length (m_second s ! I_J). m_second s ! I_J ! j' = sec_entry cfg I_J n0 \<longrightarrow> j' = j)
             \<and> m_second s' ! I_J =
                 take j (m_second s ! I_J)
                 @ drop (Suc j) (take (upper_bound fst (fst (m_second s ! I_J ! j)) (m_second s ! I_J)) (m_second s ! I_J))
                 @ [m_second s ! I_J ! j]
                 @ drop (upper_bound fst (fst (m_second s ! I_J ! j)) (m_second s ! I_J)) (m_second s ! I_J)))
      \<and> (dead n0 \<longrightarrow> s' = s)
      \<and> (\<not> dead n0 \<longrightarrow> s' = s\<lparr>m_second := added cfg n0 ?n D\<rparr>)
      \<and> inv cfg s'"
  proof (cases "dead n0")
    case True
    have DD: "D = m_second s" using True by (simp add: D)
    have c1: "(\<exists>T. thr = Some T \<and> T < ?n
                \<and> (\<forall>I_J<T. \<not> rejects cfg (n0\<lparr>dead := False, m_value := p\<rparr>) I_J (m_second s ! I_J))) = False"
      using nt unfolding DD by simp
    have c2: "(\<exists>I_J<?n. rejects cfg (n0\<lparr>dead := False, m_value := p\<rparr>) I_J (m_second s ! I_J)) = True"
      using rej unfolding DD by simp
    have "UpdateCore cfg thr thr_r h mut s = (Returned False, s)"
      unfolding UpdateCore_dead [OF wf iv mem i_def n0i True, of thr thr_r mut]
      by (simp only: mut option.case c1 c2 if_True if_False)
    then show ?thesis using True iv by (simp add: s')
  next
    case False
    define D' where "D' = DropSecs_tuple cfg (transl s) None n0 (m_second s)"
    have DD: "D = D'" using False by (simp add: D D'_def)
    have e: "n0\<lparr>dead := False, m_value := p\<rparr> = n0\<lparr>m_value := p\<rparr>" using False by simp
    have c1: "(\<exists>T. thr = Some T \<and> T < ?n
                \<and> (\<forall>I_J<T. \<not> rejects cfg (n0\<lparr>m_value := p\<rparr>) I_J (D' ! I_J))) = False"
      using nt unfolding DD e by simp
    have c2: "(\<exists>I_J<?n. rejects cfg (n0\<lparr>m_value := p\<rparr>) I_J (D' ! I_J)) = True"
      using rej unfolding DD e by simp
    have c3: "(\<exists>T. thr_r = Some T \<and> T < ?n) = False" using ntr False by simp
    have U: "UpdateCore cfg thr thr_r h mut s = (Returned False, s\<lparr>m_second := added cfg n0 ?n D'\<rparr>)"
      unfolding UpdateCore_live [OF wf iv mem i_def n0i False D'_def, of thr thr_r mut]
      by (simp only: mut option.case c1 c2 c3 if_True if_False)
    have id: "ident_ok cfg (transl s) (set ?st)"
      by (rule ident_okI [OF wf inv_primary [OF iv] inv_transl [OF iv]])
    have nd': "\<not> dead (?st ! i)" using False by (simp add: n0i)
    have memM: "n0 \<in># ?M" unfolding n0i by (rule nth_in_live [OF il nd'])
    have y0: "addr n0 = addr (?st ! i)" "first n0 = first (?st ! i)"
      "trans_idx n0 = trans_idx (?st ! i)" "\<not> c_tombstones cfg \<longrightarrow> \<not> dead n0"
      using False by (simp_all add: n0i)
    have once: "n0 \<notin># ?M - {#n0#}" using inv_changed_pair(5) [OF wf iv il y0] by (simp add: n0i)
    note rd = readd [OF inv_secs [OF iv] live_subset memM once id D'_def]
    have hN: "n0 \<in> set ?st" using il by (simp add: n0i)
    have inj: "\<forall>h'\<in>#?M. MatchSecondary (P_Policy cfg) (transl s) (GetSecondaryValue (P_Policy cfg) h') n0 \<longrightarrow> h' = n0"
      using id live_subset [of ?st] hN by (auto simp: ident_ok_def)
    note self = self_match [OF id hN]
    have ex: "\<forall>I_J<?n. \<not> is_unique (P_Specs cfg ! I_J) \<longrightarrow>
           (\<exists>j<length (m_second s ! I_J).
               m_second s ! I_J ! j = sec_entry cfg I_J n0
             \<and> (\<forall>j'<length (m_second s ! I_J). m_second s ! I_J ! j' = sec_entry cfg I_J n0 \<longrightarrow> j' = j)
             \<and> added cfg n0 ?n D' ! I_J =
                 take j (m_second s ! I_J)
                 @ drop (Suc j) (take (upper_bound fst (fst (m_second s ! I_J ! j)) (m_second s ! I_J)) (m_second s ! I_J))
                 @ [m_second s ! I_J ! j]
                 @ drop (upper_bound fst (fst (m_second s ! I_J ! j)) (m_second s ! I_J)) (m_second s ! I_J))"
    proof (intro allI impI)
      fix I_J assume I: "I_J < ?n" and nu: "\<not> is_unique (P_Specs cfg ! I_J)"
      have so: "sec_ok cfg I_J ?M (m_second s ! I_J)" using inv_secs [OF iv] I by (simp add: secs_ok_def)
      have a: "added cfg n0 ?n D' ! I_J =
               add_entry cfg n0 I_J (drop_entry cfg (transl s) n0 I_J (m_second s ! I_J))"
        using I by (simp add: nth_added D'_def nth_DropSecs_tuple)
      show "\<exists>j<length (m_second s ! I_J).
               m_second s ! I_J ! j = sec_entry cfg I_J n0
             \<and> (\<forall>j'<length (m_second s ! I_J). m_second s ! I_J ! j' = sec_entry cfg I_J n0 \<longrightarrow> j' = j)
             \<and> added cfg n0 ?n D' ! I_J =
                 take j (m_second s ! I_J)
                 @ drop (Suc j) (take (upper_bound fst (fst (m_second s ! I_J ! j)) (m_second s ! I_J)) (m_second s ! I_J))
                 @ [m_second s ! I_J ! j]
                 @ drop (upper_bound fst (fst (m_second s ! I_J ! j)) (m_second s ! I_J)) (m_second s ! I_J)"
        unfolding a by (rule readd_multi_exact [OF so nu memM once self inj])
    qed
    have R: "inv cfg (s\<lparr>m_second := added cfg n0 ?n D'\<rparr>)"
      using iv rd(2) by (simp add: inv_def)
    have s'e: "s' = s\<lparr>m_second := added cfg n0 ?n D'\<rparr>" by (simp add: s' U)
    have f: "fst (UpdateCore cfg thr thr_r h mut s) = Returned False" by (simp add: U)
    have g: "m_storage s' = m_storage s" "transl s' = transl s" "m_live s' = m_live s"
      "m_second s' = added cfg n0 ?n D'"
      by (simp_all add: s'e)
    show ?thesis unfolding g DD using f rd(3) rd(4) ex False R s'e by blast
  qed
  show "fst (UpdateCore cfg thr thr_r h mut s) = Returned False" using all by blast
  show "m_storage s' = m_storage s" using all by blast
  show "transl s' = transl s" using all by blast
  show "m_live s' = m_live s" using all by blast
  have ivs': "inv cfg s'" using all by blast
  show "length (m_second s') = length (m_second s)"
    using secs_ok_length [OF inv_secs [OF ivs']] len by simp
  show "\<forall>I_J<?n. mset (m_second s' ! I_J) = mset (m_second s ! I_J)" using all by blast
  show "\<forall>I_J<?n. is_unique (P_Specs cfg ! I_J) \<longrightarrow> m_second s' ! I_J = m_second s ! I_J"
    using all by blast
  show "\<forall>I_J<length (P_Specs cfg). \<not> is_unique (P_Specs cfg ! I_J) \<and> \<not> dead n0 \<longrightarrow>
           (\<exists>j<length (m_second s ! I_J).
               m_second s ! I_J ! j = sec_entry cfg I_J n0
             \<and> (\<forall>j'<length (m_second s ! I_J). m_second s ! I_J ! j' = sec_entry cfg I_J n0 \<longrightarrow> j' = j)
             \<and> m_second s' ! I_J =
                 take j (m_second s ! I_J)
                 @ drop (Suc j) (take (upper_bound fst (fst (m_second s ! I_J ! j)) (m_second s ! I_J)) (m_second s ! I_J))
                 @ [m_second s ! I_J ! j]
                 @ drop (upper_bound fst (fst (m_second s ! I_J ! j)) (m_second s ! I_J)) (m_second s ! I_J))"
    using all by blast
  show "dead n0 \<longrightarrow> s' = s" using all by blast
  show "\<not> dead n0 \<longrightarrow> s' = s\<lparr>m_second := added cfg n0 (length (P_Specs cfg)) D\<rparr>" using all by blast
  show "inv cfg s'" by (rule ivs')
qed

text \<open>With a payload equal to the old one nothing can be rejected, so a rejected \<open>replace\<close> went through \<open>UpdateCore\<close>.\<close>

lemma replace_rejected_is_update:
  assumes wf: "wf_config cfg" and iv: "inv cfg s" and mem: "it \<in> addr ` set (m_storage s)"
    and n0: "n0 = m_storage s ! pos_of (m_storage s) it"
    and D: "D = (if dead n0 then m_second s else DropSecs_tuple cfg (transl s) None n0 (m_second s))"
    and rej: "\<exists>I_J<length (P_Specs cfg). rejects cfg (n0\<lparr>dead := False, m_value := p\<rparr>) I_J (D ! I_J)"
  shows "replace_mi cfg thr thr_r it p s = UpdateCore cfg thr thr_r it (\<lambda>dst. Some p) s"
proof -
  let ?st = "m_storage s"
  let ?M = "mset (live ?st)"
  define i where "i = pos_of ?st it"
  have n0i: "n0 = ?st ! i" by (simp add: n0 i_def)
  note hv = handle_valid [OF iv mem]
  have il: "i < length ?st" using hv(2) by (simp add: i_def)
  have "\<not> (\<not> dead n0 \<and> m_value n0 = p)"
  proof
    assume a: "\<not> dead n0 \<and> m_value n0 = p"
    define D' where "D' = DropSecs_tuple cfg (transl s) None n0 (m_second s)"
    have e: "n0\<lparr>dead := False, m_value := p\<rparr> = n0" using a by auto
    have id: "ident_ok cfg (transl s) (set ?st)"
      by (rule ident_okI [OF wf inv_primary [OF iv] inv_transl [OF iv]])
    have nd': "\<not> dead (?st ! i)" using a by (simp add: n0i)
    have memM: "n0 \<in># ?M" unfolding n0i by (rule nth_in_live [OF il nd'])
    have y0: "addr n0 = addr (?st ! i)" "first n0 = first (?st ! i)"
      "trans_idx n0 = trans_idx (?st ! i)" "\<not> c_tombstones cfg \<longrightarrow> \<not> dead n0"
      using a by (simp_all add: n0i)
    have once: "n0 \<notin># ?M - {#n0#}" using inv_changed_pair(5) [OF wf iv il y0] by (simp add: n0i)
    note rd = readd [OF inv_secs [OF iv] live_subset memM once id D'_def]
    have "\<exists>I_J<length (P_Specs cfg). rejects cfg n0 I_J (D' ! I_J)"
      using rej a unfolding e by (simp add: D D'_def)
    then show False using rd(1) by blast
  qed
  then have "\<not> ((if c_tombstones cfg then \<not> dead (?st ! pos_of ?st it) else True)
            \<and> m_value (?st ! pos_of ?st it) = p)"
    using hv(4) by (auto simp: n0)
  then show ?thesis using hv(1)
    by (auto simp: replace_mi_def Replace_def ToHandle_it_def Let_def end_it_def split: if_splits)
qed

lemma UpdateCore_same_mutation:
  assumes wf: "wf_config cfg" and iv: "inv cfg s" and mem: "h \<in> addr ` set (m_storage s)"
    and eq: "mut (m_value (m_storage s ! pos_of (m_storage s) h)) =
             mut' (m_value (m_storage s ! pos_of (m_storage s) h))"
  shows "UpdateCore cfg thr thr_r h mut s = UpdateCore cfg thr thr_r h mut' s"
proof (cases "dead (m_storage s ! pos_of (m_storage s) h)")
  case True
  show ?thesis
    unfolding UpdateCore_dead [OF wf iv mem refl refl True] using eq by simp
next
  case False
  show ?thesis
    unfolding UpdateCore_live [OF wf iv mem refl refl False refl] using eq by simp
qed

section \<open>erase by iterator\<close>

lemma DecrementLive_fields [simp]:
  "m_storage (DecrementLive cfg s) = m_storage s" "m_second (DecrementLive cfg s) = m_second s"
  "transl (DecrementLive cfg s) = transl s"
  by (simp_all add: DecrementLive_def)

lemma DropSecs_fields [simp]:
  "m_storage (DropSecs cfg ig h s) = m_storage s" "transl (DropSecs cfg ig h s) = transl s"
  "m_live (DropSecs cfg ig h s) = m_live s"
  "m_second (DropSecs cfg ig h s) = DropSecs_tuple cfg (transl s) ig h (m_second s)"
  by (simp_all add: DropSecs_def)

lemma live_positive: "i < length st \<Longrightarrow> \<not> dead (st ! i) \<Longrightarrow> 0 < length (live st)"
  using nth_in_live [of i st] by (cases "live st") auto

lemma length_live_erased:
  assumes i: "i < length st" and nd: "\<not> dead (st ! i)"
  shows "length (live (st[i := (st ! i)\<lparr>dead := True\<rparr>])) = length (live st) - 1"
    and "length (live (map_erase i st)) = length (live st) - 1"
    and "mset (live (st[i := (st ! i)\<lparr>dead := True\<rparr>])) = mset (live st) - {#st ! i#}"
    and "mset (live (map_erase i st)) = mset (live st) - {#st ! i#}"
proof -
  have mem: "st ! i \<in># mset (live st)" by (rule nth_in_live [OF i nd])
  show a: "mset (live (st[i := (st ! i)\<lparr>dead := True\<rparr>])) = mset (live st) - {#st ! i#}"
    using mset_live_update [OF i, of "(st ! i)\<lparr>dead := True\<rparr>"] nd by simp
  show b: "mset (live (map_erase i st)) = mset (live st) - {#st ! i#}"
    using mset_live_map_erase [OF i] nd by simp
  have "size (mset (live st) - {#st ! i#}) = size (mset (live st)) - 1"
    using mem by (simp add: size_Diff_singleton)
  then show "length (live (st[i := (st ! i)\<lparr>dead := True\<rparr>])) = length (live st) - 1"
    and "length (live (map_erase i st)) = length (live st) - 1"
    using a b by (metis length_live_size)+
qed

text \<open>\<open>erase(it)\<close> for an iterator to the live record at position \<open>i\<close> of the primary.\<close>

lemma erase_it_live:
  assumes wf: "wf_config cfg" and iv: "inv cfg s" and i: "i < length (m_storage s)"
    and nd: "\<not> dead (m_storage s ! i)"
    and s1: "s1 = snd (erase_it cfg (addr (m_storage s ! i)) s)"
  shows "fst (erase_it cfg (addr (m_storage s ! i)) s) =
           (if c_tombstones cfg
            then iter_at (m_storage s1) (SkipDead (m_storage s1) (Suc i) (length (m_storage s1)))
            else iter_at (m_storage s1) i)"
    and "m_storage s1 = (if c_tombstones cfg then (m_storage s)[i := (m_storage s ! i)\<lparr>dead := True\<rparr>]
                         else map_erase i (m_storage s))"
    and "transl s1 = transl s"
    and "m_second s1 = DropSecs_tuple cfg (transl s) None (m_storage s ! i) (m_second s)"
    and "m_live s1 = (if c_tombstones cfg then m_live s - 1 else m_live s)"
    and "inv cfg s1"
proof -
  let ?st = "m_storage s"
  let ?it = "addr (?st ! i)"
  let ?M = "mset (live ?st)"
  have p: "primary_ok cfg ?st" by (rule inv_primary [OF iv])
  have mem: "?it \<in> addr ` set ?st" using i by simp
  note hv = handle_valid [OF iv mem]
  have pos: "pos_of ?st ?it = i" using pos_of_nth [OF _ i] p by (simp add: primary_ok_def)
  have ne: "?it \<noteq> end_it" "?it \<noteq> 0" using hv(1) by (simp_all add: end_it_def)
  have lv: "c_tombstones cfg \<Longrightarrow> m_live s \<noteq> 0"
    using inv_live [OF iv] live_positive [OF i nd] by simp
  have E: "erase_it cfg ?it s =
     (if c_tombstones cfg then
        (let s2 = (DropSecs cfg None (?st ! i) s)\<lparr>m_storage := ?st[i := (?st ! i)\<lparr>dead := True\<rparr>],
                                                  m_live := m_live s - 1\<rparr>
         in (iter_at (m_storage s2) (SkipDead (m_storage s2) (Suc i) (length (m_storage s2))), s2))
      else
        (let s2 = (DropSecs cfg None (?st ! i) s)\<lparr>m_storage := map_erase i ?st\<rparr>
         in (iter_at (m_storage s2) i, s2)))"
    using ne lv
    by (simp add: erase_it_def ToHandle_it_def pos Let_def upd_pair_def DecrementLive_def)
  show "fst (erase_it cfg ?it s) =
           (if c_tombstones cfg
            then iter_at (m_storage s1) (SkipDead (m_storage s1) (Suc i) (length (m_storage s1)))
            else iter_at (m_storage s1) i)"
    unfolding s1 E by (simp add: Let_def)
  show st1: "m_storage s1 = (if c_tombstones cfg then ?st[i := (?st ! i)\<lparr>dead := True\<rparr>]
                         else map_erase i ?st)"
    unfolding s1 E by (simp add: Let_def)
  show tr1: "transl s1 = transl s" unfolding s1 E by (simp add: Let_def)
  show sec1: "m_second s1 = DropSecs_tuple cfg (transl s) None (?st ! i) (m_second s)"
    unfolding s1 E by (simp add: Let_def)
  show lv1: "m_live s1 = (if c_tombstones cfg then m_live s - 1 else m_live s)"
    unfolding s1 E by (simp add: Let_def)
  have id: "ident_ok cfg (transl s) (set ?st)"
    by (rule ident_okI [OF wf p inv_transl [OF iv]])
  have memM: "?st ! i \<in># ?M" by (rule nth_in_live [OF i nd])
  have okD: "secs_ok cfg (?M - {#?st ! i#}) (m_second s1)"
    unfolding sec1 by (rule secs_ok_DropSecs [OF inv_secs [OF iv] live_subset memM id])
  note le = length_live_erased [OF i nd]
  show "inv cfg s1"
  proof (cases "c_tombstones cfg")
    case True
    have "primary_ok cfg (?st[i := (?st ! i)\<lparr>dead := True\<rparr>])"
      by (rule primary_ok_update [OF p i]) (simp_all add: True)
    moreover have "transl_ok cfg (?st[i := (?st ! i)\<lparr>dead := True\<rparr>]) (transl s)"
      by (rule transl_ok_update [OF inv_transl [OF iv] i]) simp_all
    ultimately show ?thesis
      using True okD le(1,3) inv_live [OF iv True] by (simp add: inv_def st1 tr1 lv1)
  next
    case False
    have "primary_ok cfg (map_erase i ?st)" by (rule primary_ok_map_erase [OF p])
    moreover have "transl_ok cfg (map_erase i ?st) (transl s)"
      by (rule transl_ok_map_erase [OF inv_transl [OF iv]])
    ultimately show ?thesis
      using False okD le(4) by (simp add: inv_def st1 tr1)
  qed
qed

section \<open>Skipping dead pairs\<close>

lemma SkipDead_props:
  "it \<le> e \<Longrightarrow> e \<le> length st \<Longrightarrow>
   (\<forall>m. it \<le> m \<and> m < SkipDead st it e \<longrightarrow> dead (st ! m))
   \<and> (SkipDead st it e < e \<longrightarrow> \<not> dead (st ! SkipDead st it e))"
proof (induction st it e rule: SkipDead.induct)
  case (1 st it e)
  show ?case
  proof (cases "it \<noteq> e \<and> it < length st \<and> dead (st ! it)")
    case True
    then have lt: "Suc it \<le> e" using "1.prems" by simp
    have IH: "(\<forall>m. Suc it \<le> m \<and> m < SkipDead st (Suc it) e \<longrightarrow> dead (st ! m))
      \<and> (SkipDead st (Suc it) e < e \<longrightarrow> \<not> dead (st ! SkipDead st (Suc it) e))"
      by (rule "1.IH" [OF True lt "1.prems"(2)])
    have u: "SkipDead st it e = SkipDead st (Suc it) e"
      using True by (subst SkipDead.simps) simp
    show ?thesis
    proof (intro conjI allI impI)
      fix m assume "it \<le> m \<and> m < SkipDead st it e"
      then have "m = it \<or> (Suc it \<le> m \<and> m < SkipDead st (Suc it) e)" unfolding u by auto
      then show "dead (st ! m)" using True IH by blast
    next
      assume "SkipDead st it e < e"
      then show "\<not> dead (st ! SkipDead st it e)" using IH unfolding u by blast
    qed
  next
    case False
    then have u: "SkipDead st it e = it" by (subst SkipDead.simps) auto
    show ?thesis unfolding u using False "1.prems" by auto
  qed
qed

lemma SkipDead_eqI:
  "it \<le> j \<Longrightarrow> j \<le> e \<Longrightarrow> e \<le> length st \<Longrightarrow> (\<forall>m. it \<le> m \<and> m < j \<longrightarrow> dead (st ! m))
   \<Longrightarrow> (j < e \<longrightarrow> \<not> dead (st ! j)) \<Longrightarrow> SkipDead st it e = j"
proof (induction "j - it" arbitrary: it)
  case 0
  then have e: "it = j" by simp
  show ?case
  proof (cases "j < e")
    case True
    then show ?thesis using 0 e by simp
  next
    case False
    then have "j = e" using 0 by simp
    then show ?thesis using e by simp
  qed
next
  case (Suc n)
  then have lt: "it < j" by simp
  then have d: "dead (st ! it)" "it \<noteq> e" "it < length st" using Suc.prems by auto
  have u: "SkipDead st it e = SkipDead st (Suc it) e"
    using d by (subst SkipDead.simps) simp
  have "SkipDead st (Suc it) e = j"
  proof (rule Suc.hyps(1))
    show "n = j - Suc it" using Suc.hyps(2) by simp
    show "Suc it \<le> j" using lt by simp
    show "j \<le> e" "e \<le> length st" "j < e \<longrightarrow> \<not> dead (st ! j)" using Suc.prems by simp_all
    show "\<forall>m. Suc it \<le> m \<and> m < j \<longrightarrow> dead (st ! m)" using Suc.prems(4) by simp
  qed
  then show ?case using u by simp
qed

lemma iter_at_eq_iff:
  assumes "distinct (map addr st)" "0 \<notin> addr ` set st" "i \<le> length st" "j \<le> length st"
  shows "iter_at st i = iter_at st j \<longleftrightarrow> i = j"
proof
  assume e: "iter_at st i = iter_at st j"
  show "i = j"
  proof (cases "i < length st")
    case True
    then have ni: "iter_at st i = addr (st ! i)" "addr (st ! i) \<noteq> 0"
      using assms(2) nth_mem [OF True] by (auto simp: iter_at_def)
    show ?thesis
    proof (cases "j < length st")
      case jl: True
      then have "addr (st ! i) = addr (st ! j)" using e True by (simp add: iter_at_def)
      then have "map addr st ! i = map addr st ! j" using True jl by simp
      then show ?thesis using assms(1) True jl by (metis nth_eq_iff_index_eq length_map)
    next
      case False
      then show ?thesis using e ni by (simp add: iter_at_def end_it_def)
    qed
  next
    case False
    then have il: "i = length st" using assms(3) by simp
    show ?thesis
    proof (cases "j < length st")
      case True
      then have "addr (st ! j) \<noteq> 0" using assms(2) nth_mem [OF True] by auto
      then show ?thesis using e il True by (simp add: iter_at_def end_it_def)
    next
      case False
      then show ?thesis using il assms(4) by simp
    qed
  qed
qed simp

section \<open>erase by key\<close>

lemma no_dead_without_tombstones:
  "inv cfg s \<Longrightarrow> \<not> c_tombstones cfg \<Longrightarrow> i < length (m_storage s) \<Longrightarrow> \<not> dead (m_storage s ! i)"
  using inv_primary [of cfg s] nth_mem [of i "m_storage s"] unfolding primary_ok_def by blast

lemma inv_addrs:
  "inv cfg s \<Longrightarrow> distinct (map addr (m_storage s))" "inv cfg s \<Longrightarrow> 0 \<notin> addr ` set (m_storage s)"
  using inv_primary [of cfg s] by (simp_all add: primary_ok_def)

lemma iter_at_map_erase:
  "f < length st \<Longrightarrow> f \<le> j \<Longrightarrow> iter_at (map_erase f st) j = iter_at st (Suc j)"
  by (auto simp: iter_at_def map_erase_def nth_append min_def)

text \<open>
  Without tombstones: the loop started at position \<open>f\<close> with \<open>it_l\<close> at position \<open>l\<close>
  removes the pairs at the positions from \<open>f\<close> up to \<open>l\<close> and returns.
\<close>

lemma erase_loop_plain:
  assumes wf: "wf_config cfg" and nt: "\<not> c_tombstones cfg"
  shows "inv cfg s \<Longrightarrow> f < l \<Longrightarrow> l \<le> length (m_storage s) \<Longrightarrow> (c_primary_is_unique cfg \<longrightarrow> l = Suc f) \<Longrightarrow>
     \<exists>s'. erase_loop cfg (addr (m_storage s ! f)) (iter_at (m_storage s) l) removed s
             = Some (removed + (l - f), s')
          \<and> inv cfg s' \<and> m_storage s' = take f (m_storage s) @ drop l (m_storage s)
          \<and> transl s' = transl s \<and> m_live s' = m_live s"
proof (induction "l - f" arbitrary: s l removed)
  case 0
  then show ?case by simp
next
  case (Suc n)
  let ?st = "m_storage s"
  define s1 where "s1 = snd (erase_it cfg (addr (?st ! f)) s)"
  have fl: "f < length ?st" using Suc.prems by simp
  have nd: "\<not> dead (?st ! f)" by (rule no_dead_without_tombstones [OF Suc.prems(1) nt fl])
  note E = erase_it_live [OF wf Suc.prems(1) fl nd s1_def]
  have it': "fst (erase_it cfg (addr (?st ! f)) s) = iter_at ?st (Suc f)"
    using E(1,2) nt fl by (simp add: iter_at_map_erase)
  have st1: "m_storage s1 = map_erase f ?st" using E(2) nt by simp
  have ei: "erase_it cfg (addr (?st ! f)) s = (iter_at ?st (Suc f), s1)"
    using it' by (simp add: s1_def prod_eq_iff)
  have loop: "erase_loop cfg (addr (?st ! f)) (iter_at ?st l) removed s =
      (if \<not> c_primary_is_unique cfg then
         (if iter_at ?st (Suc f) = iter_at ?st l then Some (removed + 1, s1)
          else erase_loop cfg (iter_at ?st (Suc f)) (iter_at ?st l) (removed + 1) s1)
       else Some (removed + 1, s1))"
    by (subst erase_loop.simps) (simp add: ei)
  have eqi: "iter_at ?st (Suc f) = iter_at ?st l \<longleftrightarrow> Suc f = l"
    using iter_at_eq_iff [OF inv_addrs [OF Suc.prems(1)], of "Suc f" l] Suc.prems fl by simp
  show ?case
  proof (cases "l = Suc f")
    case True
    have "erase_loop cfg (addr (?st ! f)) (iter_at ?st l) removed s = Some (removed + 1, s1)"
      unfolding loop using True by simp
    moreover have "m_storage s1 = take f ?st @ drop l ?st" using st1 True by (simp add: map_erase_def)
    ultimately show ?thesis using E(3,5,6) True nt by simp
  next
    case False
    then have nu: "\<not> c_primary_is_unique cfg" and lt: "Suc f < l" using Suc.prems by auto
    have f1: "f < length (m_storage s1)" using st1 fl lt Suc.prems(3) by simp
    have a1: "iter_at ?st (Suc f) = addr (m_storage s1 ! f)"
      using iter_at_map_erase [OF fl, of f] f1 st1 by (simp add: iter_at_def)
    have a2: "iter_at ?st l = iter_at (m_storage s1) (l - 1)"
      using iter_at_map_erase [OF fl, of "l - 1"] lt st1 by simp
    have "\<exists>s'. erase_loop cfg (addr (m_storage s1 ! f)) (iter_at (m_storage s1) (l - 1)) (removed + 1) s1
             = Some (removed + 1 + (l - 1 - f), s')
          \<and> inv cfg s' \<and> m_storage s' = take f (m_storage s1) @ drop (l - 1) (m_storage s1)
          \<and> transl s' = transl s1 \<and> m_live s' = m_live s1"
    proof (rule Suc.hyps(1))
      show "n = l - 1 - f" using Suc.hyps(2) by simp
      show "inv cfg s1" by (rule E(6))
      show "f < l - 1" using lt by simp
      show "l - 1 \<le> length (m_storage s1)" using st1 fl Suc.prems(3) by simp
      show "c_primary_is_unique cfg \<longrightarrow> l - 1 = Suc f" using nu by simp
    qed
    then obtain s' where s': "erase_loop cfg (addr (m_storage s1 ! f)) (iter_at (m_storage s1) (l - 1)) (removed + 1) s1
             = Some (removed + 1 + (l - 1 - f), s')"
      "inv cfg s'" "m_storage s' = take f (m_storage s1) @ drop (l - 1) (m_storage s1)"
      "transl s' = transl s1" "m_live s' = m_live s1" by blast
    have dr: "drop (l - 1) (map_erase f ?st) = drop l ?st"
      using lt fl by (simp add: map_erase_def min_def Suc_diff_Suc)
    have tk: "take f (map_erase f ?st) = take f ?st" using fl by (simp add: map_erase_def min_def)
    have ar: "removed + 1 + (l - 1 - f) = removed + (l - f)" using lt by simp
    have rec: "erase_loop cfg (iter_at ?st (Suc f)) (iter_at ?st l) (removed + 1) s1
                 = Some (removed + (l - f), s')"
      using s'(1) unfolding a1 [symmetric] a2 [symmetric] ar .
    have "erase_loop cfg (addr (?st ! f)) (iter_at ?st l) removed s = Some (removed + (l - f), s')"
      unfolding loop using nu eqi False rec by simp
    moreover have "m_storage s' = take f ?st @ drop l ?st" using s'(3) st1 dr tk by simp
    ultimately show ?thesis using s'(2,4,5) E(3,5) nt by simp
  qed
qed

lemma iter_at_update_flag [simp]:
  "iter_at (st[i := (st ! i)\<lparr>dead := b\<rparr>]) j = iter_at st j"
  by (cases "i = j") (auto simp: iter_at_def)

lemma count_live_from:
  assumes "i < l" "\<not> dead (st ! i)"
  shows "filter (\<lambda>m. \<not> dead (st ! m)) [i..<l] = i # filter (\<lambda>m. \<not> dead (st ! m)) [Suc i..<l]"
  using assms by (simp add: upt_conv_Cons)

lemma count_live_skip:
  assumes "i \<le> j" "j \<le> l" "\<forall>m. i \<le> m \<and> m < j \<longrightarrow> dead (st ! m)"
  shows "filter (\<lambda>m. \<not> dead (st ! m)) [i..<l] = filter (\<lambda>m. \<not> dead (st ! m)) [j..<l]"
proof -
  have "[i..<l] = [i..<j] @ [j..<l]" using assms(1,2) by (metis le_Suc_ex upt_add_eq_append)
  moreover have "filter (\<lambda>m. \<not> dead (st ! m)) [i..<j] = []" using assms(3) by (simp add: filter_empty_conv)
  ultimately show ?thesis by simp
qed

text \<open>
  With tombstones: the loop started at the live pair at position \<open>i\<close>, with \<open>it_l\<close> the
  iterator made from position \<open>l\<close>, marks the pairs at the positions from \<open>i\<close> up to \<open>l\<close>
  as dead, counts those that were live, and returns.
\<close>

lemma erase_loop_tombs:
  assumes wf: "wf_config cfg" and tomb: "c_tombstones cfg"
  shows "inv cfg s \<Longrightarrow> i < l \<Longrightarrow> l \<le> length (m_storage s) \<Longrightarrow> \<not> dead (m_storage s ! i) \<Longrightarrow>
     (c_primary_is_unique cfg \<longrightarrow> (\<forall>m. i < m \<and> m < l \<longrightarrow> dead (m_storage s ! m))) \<Longrightarrow>
     \<exists>s'. erase_loop cfg (addr (m_storage s ! i)) (ToIterator cfg s l) removed s
             = Some (removed + length (filter (\<lambda>m. \<not> dead (m_storage s ! m)) [i..<l]), s')
          \<and> inv cfg s' \<and> length (m_storage s') = length (m_storage s)
          \<and> (\<forall>m<length (m_storage s). m_storage s' ! m =
                (if i \<le> m \<and> m < l then (m_storage s ! m)\<lparr>dead := True\<rparr> else m_storage s ! m))
          \<and> transl s' = transl s"
proof (induction "l - i" arbitrary: s i removed rule: less_induct)
  case less
  let ?st = "m_storage s"
  let ?len = "length ?st"
  define s1 where "s1 = snd (erase_it cfg (addr (?st ! i)) s)"
  define st1 where "st1 = ?st[i := (?st ! i)\<lparr>dead := True\<rparr>]"
  define j where "j = SkipDead st1 (Suc i) ?len"
  define jl where "jl = SkipDead ?st l ?len"
  have il: "i < ?len" using less.prems by simp
  note E = erase_it_live [OF wf less.prems(1) il less.prems(4) s1_def]
  have ms1: "m_storage s1 = st1" using E(2) tomb by (simp add: st1_def)
  have len1: "length st1 = ?len" by (simp add: st1_def)
  have nth1: "st1 ! m = ?st ! m" if "m \<noteq> i" for m using that by (simp add: st1_def)
  have nthi: "st1 ! i = (?st ! i)\<lparr>dead := True\<rparr>" using il by (simp add: st1_def)
  have it1: "iter_at st1 m = iter_at ?st m" for m by (simp add: st1_def)
  have jb: "Suc i \<le> j" "j \<le> ?len"
    using SkipDead_bounds [of "Suc i" ?len st1] il len1 by (simp_all add: j_def)
  have jp: "\<forall>m. Suc i \<le> m \<and> m < j \<longrightarrow> dead (st1 ! m)" "j < ?len \<longrightarrow> \<not> dead (st1 ! j)"
    using SkipDead_props [of "Suc i" ?len st1] il len1 by (simp_all add: j_def)
  have jp': "\<forall>m. Suc i \<le> m \<and> m < j \<longrightarrow> dead (?st ! m)" "j < ?len \<longrightarrow> \<not> dead (?st ! j)"
    using jp jb nth1 by (metis Suc_n_not_le_n)+
  have jlb: "l \<le> jl" "jl \<le> ?len"
    using SkipDead_bounds [of l ?len ?st] less.prems(3) by (simp_all add: jl_def)
  have itl: "ToIterator cfg s l = iter_at ?st jl" using tomb by (simp add: ToIterator_def jl_def)
  have "fst (erase_it cfg (addr (?st ! i)) s) = iter_at st1 (SkipDead st1 (Suc i) (length st1))"
    using E(1) tomb unfolding ms1 by simp
  then have "fst (erase_it cfg (addr (?st ! i)) s) = iter_at ?st j"
    unfolding len1 it1 j_def .
  then have ei: "erase_it cfg (addr (?st ! i)) s = (iter_at ?st j, s1)"
    by (simp add: s1_def prod_eq_iff)
  have loop: "erase_loop cfg (addr (?st ! i)) (ToIterator cfg s l) removed s =
      (if \<not> c_primary_is_unique cfg then
         (if iter_at ?st j = iter_at ?st jl then Some (removed + 1, s1)
          else erase_loop cfg (iter_at ?st j) (iter_at ?st jl) (removed + 1) s1)
       else Some (removed + 1, s1))"
    by (subst erase_loop.simps) (simp add: ei itl)
  have eqi: "iter_at ?st j = iter_at ?st jl \<longleftrightarrow> j = jl"
    by (rule iter_at_eq_iff [OF inv_addrs [OF less.prems(1)] jb(2) jlb(2)])
  have cnt: "filter (\<lambda>m. \<not> dead (?st ! m)) [i..<l] = i # filter (\<lambda>m. \<not> dead (?st ! m)) [Suc i..<l]"
    by (rule count_live_from [OF less.prems(2,4)])
  show ?case
  proof (cases "j < l")
    case False
    then have lj: "l \<le> j" by simp
    have "SkipDead ?st l ?len = j"
      by (rule SkipDead_eqI [OF lj jb(2) le_refl]) (use jp' less.prems(2) in auto)
    then have "j = jl" by (simp add: jl_def)
    then have r: "erase_loop cfg (addr (?st ! i)) (ToIterator cfg s l) removed s = Some (removed + 1, s1)"
      unfolding loop by simp
    have dd: "\<forall>m. Suc i \<le> m \<and> m < l \<longrightarrow> dead (?st ! m)" using jp'(1) lj by simp
    then have "filter (\<lambda>m. \<not> dead (?st ! m)) [Suc i..<l] = []" by (simp add: filter_empty_conv)
    then have c1: "length (filter (\<lambda>m. \<not> dead (?st ! m)) [i..<l]) = 1" using cnt by simp
    have el: "\<forall>m<?len. m_storage s1 ! m =
                (if i \<le> m \<and> m < l then (?st ! m)\<lparr>dead := True\<rparr> else ?st ! m)"
    proof (intro allI impI)
      fix m assume m: "m < ?len"
      show "m_storage s1 ! m = (if i \<le> m \<and> m < l then (?st ! m)\<lparr>dead := True\<rparr> else ?st ! m)"
      proof (cases "m = i")
        case True
        then show ?thesis using nthi less.prems(2) by (simp add: ms1)
      next
        case ne: False
        have "i < m \<and> m < l \<longrightarrow> (?st ! m)\<lparr>dead := True\<rparr> = ?st ! m" using dd by simp
        then show ?thesis using ne nth1 [OF ne] by (auto simp: ms1)
      qed
    qed
    show ?thesis using r c1 E(3,6) el len1 by (simp add: ms1)
  next
    case True
    have jl': "j < ?len" using True less.prems(3) by simp
    have ndj: "\<not> dead (st1 ! j)" "\<not> dead (?st ! j)" using jp(2) jp'(2) jl' by simp_all
    have nu: "\<not> c_primary_is_unique cfg" using less.prems(5) ndj(2) jb(1) True by auto
    have ne: "iter_at ?st j \<noteq> iter_at ?st jl" using eqi True jlb(1) by simp
    have aj: "iter_at ?st j = addr (m_storage s1 ! j)" using jl' it1 [of j] len1 by (simp add: iter_at_def ms1)
    have "SkipDead st1 l ?len = jl"
    proof (rule SkipDead_eqI [OF jlb])
      show "?len \<le> length st1" by (simp add: len1)
      have p: "(\<forall>m. l \<le> m \<and> m < jl \<longrightarrow> dead (?st ! m)) \<and> (jl < ?len \<longrightarrow> \<not> dead (?st ! jl))"
        using SkipDead_props [OF less.prems(3) le_refl] by (simp add: jl_def)
      show "\<forall>m. l \<le> m \<and> m < jl \<longrightarrow> dead (st1 ! m)" using p less.prems(2) nth1 by auto
      show "jl < ?len \<longrightarrow> \<not> dead (st1 ! jl)" using p less.prems(2) jlb(1) nth1 by auto
    qed
    then have itl1: "ToIterator cfg s1 l = iter_at ?st jl"
      using tomb by (simp add: ToIterator_def ms1 len1 it1)
    have "\<exists>s'. erase_loop cfg (addr (m_storage s1 ! j)) (ToIterator cfg s1 l) (removed + 1) s1
             = Some (removed + 1 + length (filter (\<lambda>m. \<not> dead (m_storage s1 ! m)) [j..<l]), s')
          \<and> inv cfg s' \<and> length (m_storage s') = length (m_storage s1)
          \<and> (\<forall>m<length (m_storage s1). m_storage s' ! m =
                (if j \<le> m \<and> m < l then (m_storage s1 ! m)\<lparr>dead := True\<rparr> else m_storage s1 ! m))
          \<and> transl s' = transl s1"
    proof (rule less.hyps)
      show "l - j < l - i" using jb(1) True by simp
      show "inv cfg s1" by (rule E(6))
      show "j < l" by (rule True)
      show "l \<le> length (m_storage s1)" using less.prems(3) by (simp add: ms1 len1)
      show "\<not> dead (m_storage s1 ! j)" using ndj(1) by (simp add: ms1)
      show "c_primary_is_unique cfg \<longrightarrow> (\<forall>m. j < m \<and> m < l \<longrightarrow> dead (m_storage s1 ! m))"
        using nu by simp
    qed
    then obtain s' where s': "erase_loop cfg (addr (m_storage s1 ! j)) (ToIterator cfg s1 l) (removed + 1) s1
             = Some (removed + 1 + length (filter (\<lambda>m. \<not> dead (m_storage s1 ! m)) [j..<l]), s')"
      "inv cfg s'" "length (m_storage s') = length (m_storage s1)"
      "\<forall>m<length (m_storage s1). m_storage s' ! m =
                (if j \<le> m \<and> m < l then (m_storage s1 ! m)\<lparr>dead := True\<rparr> else m_storage s1 ! m)"
      "transl s' = transl s1" by blast
    have f1: "filter (\<lambda>m. \<not> dead (m_storage s1 ! m)) [j..<l] = filter (\<lambda>m. \<not> dead (?st ! m)) [j..<l]"
      by (rule filter_cong [OF refl]) (use jb(1) nth1 in \<open>auto simp: ms1\<close>)
    have f2: "filter (\<lambda>m. \<not> dead (?st ! m)) [Suc i..<l] = filter (\<lambda>m. \<not> dead (?st ! m)) [j..<l]"
      by (rule count_live_skip [OF jb(1) _ jp'(1)]) (use True in simp)
    have c: "removed + 1 + length (filter (\<lambda>m. \<not> dead (m_storage s1 ! m)) [j..<l])
             = removed + length (filter (\<lambda>m. \<not> dead (?st ! m)) [i..<l])"
      unfolding f1 cnt f2 by simp
    have r: "erase_loop cfg (addr (?st ! i)) (ToIterator cfg s l) removed s
             = Some (removed + length (filter (\<lambda>m. \<not> dead (?st ! m)) [i..<l]), s')"
      unfolding loop using nu ne s'(1) unfolding aj [symmetric] itl1 c by simp
    have el: "\<forall>m<?len. m_storage s' ! m =
                (if i \<le> m \<and> m < l then (?st ! m)\<lparr>dead := True\<rparr> else ?st ! m)"
    proof (intro allI impI)
      fix m assume m: "m < ?len"
      then have sm: "m_storage s' ! m = (if j \<le> m \<and> m < l then (st1 ! m)\<lparr>dead := True\<rparr> else st1 ! m)"
        using s'(4) by (simp add: ms1 len1)
      show "m_storage s' ! m = (if i \<le> m \<and> m < l then (?st ! m)\<lparr>dead := True\<rparr> else ?st ! m)"
      proof (cases "m = i")
        case True
        then show ?thesis using sm nthi jb(1) less.prems(2) by simp
      next
        case ne: False
        have "i < m \<and> m < j \<longrightarrow> (?st ! m)\<lparr>dead := True\<rparr> = ?st ! m" using jp'(1) by simp
        then show ?thesis using ne nth1 [OF ne] sm jb(1) by auto
      qed
    qed
    show ?thesis using r s'(2,3,5) E(3) el len1 by (simp add: ms1)
  qed
qed

lemma range_as_map_nth:
  "l \<le> length xs \<Longrightarrow> take (l - f) (drop f xs) = map ((!) xs) [f..<l]"
  by (rule nth_equalityI) auto

lemma count_in_range:
  assumes srt: "sorted (map kf xs)"
  shows "length (filter (\<lambda>x. kf x = k \<and> P x) xs) =
         length (filter (\<lambda>m. P (xs ! m)) [lower_bound kf k xs..<upper_bound kf k xs])"
proof -
  let ?f = "lower_bound kf k xs" and ?l = "upper_bound kf k xs"
  have "filter (\<lambda>x. kf x = k \<and> P x) xs = filter P (filter (\<lambda>x. kf x = k) xs)"
    by (simp add: conj_commute)
  also have "\<dots> = filter P (map ((!) xs) [?f..<?l])"
    using equal_range_filter [OF srt, of k] range_as_map_nth [OF upper_le_length, of kf k xs ?f] by simp
  also have "\<dots> = map ((!) xs) (filter (\<lambda>m. P (xs ! m)) [?f..<?l])"
    by (simp add: filter_map comp_def)
  finally show ?thesis by simp
qed

lemma filter_other_keys:
  assumes srt: "sorted (map kf xs)"
  shows "filter (\<lambda>x. kf x \<noteq> k) xs = take (lower_bound kf k xs) xs @ drop (upper_bound kf k xs) xs"
proof -
  let ?f = "lower_bound kf k xs" and ?l = "upper_bound kf k xs"
  have fl: "?f \<le> ?l" by (rule lower_le_upper)
  have split: "xs = take ?f xs @ take (?l - ?f) (drop ?f xs) @ drop ?l xs"
    using fl by (metis append_take_drop_id drop_drop le_add_diff_inverse2)
  have a: "\<forall>x\<in>set (take ?f xs). kf x \<noteq> k"
    unfolding takeWhile_lower using set_takeWhileD by fastforce
  have b: "\<forall>x\<in>set (take (?l - ?f) (drop ?f xs)). kf x = k"
    unfolding equal_range_filter [OF srt, of k, symmetric] by simp
  have c: "\<forall>x\<in>set (drop ?l xs). kf x \<noteq> k"
    unfolding dropWhile_upper using sorted_dropWhile_le [OF srt] by fastforce
  have "filter (\<lambda>x. kf x \<noteq> k) xs =
        filter (\<lambda>x. kf x \<noteq> k) (take ?f xs) @ filter (\<lambda>x. kf x \<noteq> k) (take (?l - ?f) (drop ?f xs))
        @ filter (\<lambda>x. kf x \<noteq> k) (drop ?l xs)"
    by (subst split) simp
  also have "filter (\<lambda>x. kf x \<noteq> k) (take ?f xs) = take ?f xs" using a by (simp add: filter_id_conv)
  also have "filter (\<lambda>x. kf x \<noteq> k) (take (?l - ?f) (drop ?f xs)) = []" using b by (simp add: filter_empty_conv)
  also have "filter (\<lambda>x. kf x \<noteq> k) (drop ?l xs) = drop ?l xs" using c by (simp add: filter_id_conv)
  finally show ?thesis by simp
qed

text \<open>\<open>erase(key)\<close> returns; its count and the state it leaves behind.\<close>

lemma erase_key_result:
  assumes wf: "wf_config cfg" and iv: "inv cfg s"
  shows "\<exists>s'. erase_key cfg k s = Some (length (filter (\<lambda>h. first h = k \<and> \<not> dead h) (m_storage s)), s')
     \<and> inv cfg s'
     \<and> m_storage s' = (if c_tombstones cfg
                       then map (\<lambda>h. if first h = k then h\<lparr>dead := True\<rparr> else h) (m_storage s)
                       else filter (\<lambda>h. first h \<noteq> k) (m_storage s))
     \<and> transl s' = transl s
     \<and> (filter (\<lambda>h. first h = k \<and> \<not> dead h) (m_storage s) = [] \<longrightarrow> s' = s)"
proof -
  let ?st = "m_storage s"
  let ?len = "length ?st"
  let ?f = "lower_bound first k ?st" and ?l = "upper_bound first k ?st"
  let ?n = "length (filter (\<lambda>h. first h = k \<and> \<not> dead h) ?st)"
  have p: "primary_ok cfg ?st" by (rule inv_primary [OF iv])
  have srt: "sorted (map first ?st)" using p by (simp add: primary_ok_def)
  have fl: "?f \<le> ?l" "?l \<le> ?len" by (rule lower_le_upper, rule upper_le_length)
  have n: "?n = length (filter (\<lambda>m. \<not> dead (?st ! m)) [?f..<?l])"
    by (rule count_in_range [OF srt])
  have uq: "c_primary_is_unique cfg \<longrightarrow> ?l - ?f \<le> 1"
    using distinct_keys_range [OF srt] p by (simp add: primary_ok_def)
  have ek: "erase_key cfg k s =
      (if ToIterator cfg s ?f = ToIterator cfg s ?l then Some (0, s)
       else erase_loop cfg (ToIterator cfg s ?f) (ToIterator cfg s ?l) 0 s)"
    by (simp add: erase_key_def equal_range_mi_def map_equal_range_def)
  have nz: "?n = 0 \<longleftrightarrow> filter (\<lambda>h. first h = k \<and> \<not> dead h) ?st = []" by simp
  show ?thesis
  proof (cases "c_tombstones cfg")
    case nt: False
    have nd: "\<forall>h\<in>set ?st. \<not> dead h" using p nt by (simp add: primary_ok_def)
    have "filter (\<lambda>h. first h = k \<and> \<not> dead h) ?st = filter (\<lambda>h. first h = k) ?st"
      by (rule filter_cong [OF refl]) (use nd in auto)
    then have n': "?n = ?l - ?f" using equal_range_filter [OF srt, of k] fl by simp
    have it: "ToIterator cfg s m = iter_at ?st m" for m using nt by (simp add: ToIterator_def)
    have eqi: "iter_at ?st ?f = iter_at ?st ?l \<longleftrightarrow> ?f = ?l"
      using iter_at_eq_iff [OF inv_addrs [OF iv], of ?f ?l] fl by simp
    show ?thesis
    proof (cases "?f = ?l")
      case True
      have "erase_key cfg k s = Some (?n, s)" unfolding ek n' using True by simp
      moreover have "filter (\<lambda>h. first h \<noteq> k) ?st = ?st"
        unfolding filter_other_keys [OF srt] using True by simp
      ultimately show ?thesis using iv nt by simp
    next
      case False
      then have lt: "?f < ?l" using fl by simp
      then have fa: "iter_at ?st ?f = addr (?st ! ?f)" using fl by (simp add: iter_at_def)
      have "\<exists>s'. erase_loop cfg (addr (?st ! ?f)) (iter_at ?st ?l) 0 s = Some (0 + (?l - ?f), s')
          \<and> inv cfg s' \<and> m_storage s' = take ?f ?st @ drop ?l ?st
          \<and> transl s' = transl s \<and> m_live s' = m_live s"
        by (rule erase_loop_plain [OF wf nt iv lt fl(2)]) (use uq lt in auto)
      then obtain s' where s': "erase_loop cfg (addr (?st ! ?f)) (iter_at ?st ?l) 0 s = Some (?l - ?f, s')"
        "inv cfg s'" "m_storage s' = take ?f ?st @ drop ?l ?st" "transl s' = transl s"
        by auto
      have "erase_key cfg k s = Some (?n, s')"
        unfolding ek it n' using eqi False s'(1) by (simp add: fa)
      moreover have "?n \<noteq> 0" using n' lt by simp
      ultimately show ?thesis using s'(2,3,4) nt nz by (simp add: filter_other_keys [OF srt])
    qed
  next
    case tomb: True
    define j0 where "j0 = SkipDead ?st ?f ?len"
    define jl where "jl = SkipDead ?st ?l ?len"
    have it: "ToIterator cfg s ?f = iter_at ?st j0" "ToIterator cfg s ?l = iter_at ?st jl"
      using tomb by (simp_all add: ToIterator_def j0_def jl_def)
    have fle: "?f \<le> ?len" using fl by simp
    have jb: "?f \<le> j0" "j0 \<le> ?len"
      using SkipDead_bounds [OF fle le_refl] by (simp_all add: j0_def)
    have jp: "\<forall>m. ?f \<le> m \<and> m < j0 \<longrightarrow> dead (?st ! m)" "j0 < ?len \<longrightarrow> \<not> dead (?st ! j0)"
      using SkipDead_props [OF fle le_refl] by (simp_all add: j0_def)
    have jlb: "?l \<le> jl" "jl \<le> ?len"
      using SkipDead_bounds [OF fl(2) le_refl] by (simp_all add: jl_def)
    have eqi: "iter_at ?st j0 = iter_at ?st jl \<longleftrightarrow> j0 = jl"
      by (rule iter_at_eq_iff [OF inv_addrs [OF iv] jb(2) jlb(2)])
    have key: "(?f \<le> m \<and> m < ?l) \<longleftrightarrow> first (?st ! m) = k" if "m < ?len" for m
      by (rule in_equal_range_iff [OF srt that])
    show ?thesis
    proof (cases "j0 < ?l")
      case False
      then have lj: "?l \<le> j0" by simp
      have "SkipDead ?st ?l ?len = j0"
        by (rule SkipDead_eqI [OF lj jb(2) le_refl]) (use jp fl in auto)
      then have "j0 = jl" by (simp add: jl_def)
      then have r: "erase_key cfg k s = Some (0, s)" unfolding ek it by simp
      have dd: "\<forall>m. ?f \<le> m \<and> m < ?l \<longrightarrow> dead (?st ! m)" using jp(1) lj by simp
      then have "filter (\<lambda>m. \<not> dead (?st ! m)) [?f..<?l] = []" by (simp add: filter_empty_conv)
      then have n0: "?n = 0" using n by simp
      have "map (\<lambda>h. if first h = k then h\<lparr>dead := True\<rparr> else h) ?st = ?st"
      proof (rule nth_equalityI)
        show "length (map (\<lambda>h. if first h = k then h\<lparr>dead := True\<rparr> else h) ?st) = ?len" by simp
        fix m assume "m < length (map (\<lambda>h. if first h = k then h\<lparr>dead := True\<rparr> else h) ?st)"
        then have m: "m < ?len" by simp
        have "first (?st ! m) = k \<longrightarrow> dead (?st ! m)" using key [OF m] dd by blast
        then show "map (\<lambda>h. if first h = k then h\<lparr>dead := True\<rparr> else h) ?st ! m = ?st ! m"
          using m by auto
      qed
      then show ?thesis using r n0 iv tomb by simp
    next
      case True
      have jl': "j0 < ?len" using True fl by simp
      have ndj: "\<not> dead (?st ! j0)" using jp(2) jl' by simp
      have ne: "iter_at ?st j0 \<noteq> iter_at ?st jl" using eqi True jlb(1) by simp
      have aj: "iter_at ?st j0 = addr (?st ! j0)" using jl' by (simp add: iter_at_def)
      have u: "c_primary_is_unique cfg \<longrightarrow> (\<forall>m. j0 < m \<and> m < ?l \<longrightarrow> dead (?st ! m))"
        using uq jb(1) by auto
      have "\<exists>s'. erase_loop cfg (addr (?st ! j0)) (ToIterator cfg s ?l) 0 s
             = Some (0 + length (filter (\<lambda>m. \<not> dead (?st ! m)) [j0..<?l]), s')
          \<and> inv cfg s' \<and> length (m_storage s') = ?len
          \<and> (\<forall>m<?len. m_storage s' ! m =
                (if j0 \<le> m \<and> m < ?l then (?st ! m)\<lparr>dead := True\<rparr> else ?st ! m))
          \<and> transl s' = transl s"
        by (rule erase_loop_tombs [OF wf tomb iv True fl(2) ndj u])
      then obtain s' where s': "erase_loop cfg (addr (?st ! j0)) (iter_at ?st jl) 0 s
             = Some (length (filter (\<lambda>m. \<not> dead (?st ! m)) [j0..<?l]), s')"
        "inv cfg s'" "length (m_storage s') = ?len"
        "\<forall>m<?len. m_storage s' ! m =
                (if j0 \<le> m \<and> m < ?l then (?st ! m)\<lparr>dead := True\<rparr> else ?st ! m)"
        "transl s' = transl s" unfolding it by auto
      have c: "filter (\<lambda>m. \<not> dead (?st ! m)) [?f..<?l] = filter (\<lambda>m. \<not> dead (?st ! m)) [j0..<?l]"
        by (rule count_live_skip [OF jb(1) _ jp(1)]) (use True in simp)
      have r: "erase_key cfg k s = Some (?n, s')"
        unfolding ek it n c using ne s'(1) by (simp add: aj)
      have "j0 \<in> set (filter (\<lambda>m. \<not> dead (?st ! m)) [j0..<?l])" using True ndj by simp
      then have "?n \<noteq> 0" unfolding n c by (metis length_0_conv empty_iff empty_set)
      moreover have "m_storage s' = map (\<lambda>h. if first h = k then h\<lparr>dead := True\<rparr> else h) ?st"
      proof (rule nth_equalityI)
        show "length (m_storage s') = length (map (\<lambda>h. if first h = k then h\<lparr>dead := True\<rparr> else h) ?st)"
          using s'(3) by simp
        fix m assume "m < length (m_storage s')"
        then have m: "m < ?len" using s'(3) by simp
        have d: "?f \<le> m \<and> m < j0 \<longrightarrow> (?st ! m)\<lparr>dead := True\<rparr> = ?st ! m" using jp(1) by simp
        show "m_storage s' ! m = map (\<lambda>h. if first h = k then h\<lparr>dead := True\<rparr> else h) ?st ! m"
          using s'(4) m key [OF m] d jb(1) by auto
      qed
      ultimately show ?thesis using r s'(2,5) tomb nz by simp
    qed
  qed
qed

section \<open>Operations that keep the invariants\<close>

lemma clear_inv: "inv cfg (clear_mi cfg s)"
  by (simp add: inv_def clear_mi_def SetLive_def PolicyClear_def ClearSecondaries_def
      primary_ok_def transl_ok_def secs_ok_def sec_ok_def live_def)

lemma emplace_live_inv:
  assumes wf: "wf_config cfg"
  shows "inv cfg t \<Longrightarrow> inv cfg (emplace_live cfg prs t)"
  unfolding emplace_live_def
proof (induction prs arbitrary: t)
  case Nil
  then show ?case by simp
next
  case (Cons pr prs)
  have "inv cfg (if c_tombstones cfg then (if \<not> dead pr then snd (emplace cfg None (first pr) (m_value pr) t) else t)
                 else snd (emplace cfg None (first pr) (m_value pr) t))"
    using emplace_inv [OF wf Cons.prems] Cons.prems by simp
  then show ?case using Cons.IH by simp
qed

lemma compact_inv: "wf_config cfg \<Longrightarrow> inv cfg (compact cfg s)"
  unfolding compact_def by (rule emplace_live_inv [OF _ inv_empty])

lemma erase_it_inv:
  assumes wf: "wf_config cfg" and iv: "inv cfg s"
    and it: "it = end_it \<or> (it \<in> addr ` set (m_storage s) \<and> \<not> dead (m_storage s ! pos_of (m_storage s) it))"
  shows "inv cfg (snd (erase_it cfg it s))"
proof (cases "it = end_it")
  case True
  then show ?thesis using iv by (simp add: erase_it_def)
next
  case False
  then have mem: "it \<in> addr ` set (m_storage s)" and nd: "\<not> dead (m_storage s ! pos_of (m_storage s) it)"
    using it by simp_all
  note hv = handle_valid [OF iv mem]
  show ?thesis using erase_it_live(6) [OF wf iv hv(2) nd refl] by (simp add: hv(3))
qed

section \<open>What the invariants say about the secondaries\<close>

text \<open>The value stored for a pair of the primary resolves to the handle of that pair.\<close>

lemma ToHandle_stored:
  assumes wf: "wf_config cfg" and iv: "inv cfg s" and h: "h \<in> set (m_storage s)"
  shows "ToHandle (P_Policy cfg) s (GetSecondaryValue (P_Policy cfg) h) = addr h"
proof (cases "P_Policy cfg")
  case S_NoInv
  then show ?thesis by simp
next
  case (S_UpdatePointerPolicyFull b)
  then show ?thesis by simp
next
  case (S_TranslationArrayPolicyFull b)
  then have "c_needs_transl_array cfg" by (simp add: c_needs_transl_array_def)
  then have "transl s ! trans_idx h = addr h"
    using inv_transl [OF iv] h by (simp add: transl_ok_def)
  then show ?thesis using S_TranslationArrayPolicyFull by simp
next
  case S_KeyLookupPolicy
  then have u: "c_primary_is_unique cfg" using wf by (simp add: wf_config_def)
  have p: "primary_ok cfg (m_storage s)" by (rule inv_primary [OF iv])
  obtain i where i: "i < length (m_storage s)" "m_storage s ! i = h"
    using h by (auto simp: in_set_conv_nth)
  have "map_find first (first h) (m_storage s) = i"
    by (rule map_find_unique) (use p u i in \<open>simp_all add: primary_ok_def\<close>)
  then show ?thesis using S_KeyLookupPolicy i by simp
qed

lemma count_live_once:
  assumes p: "primary_ok cfg st" and R: "R \<in> set st" "\<not> dead R"
  shows "count (mset (live st)) R = 1"
proof -
  have "distinct (map addr st)" using p by (simp add: primary_ok_def)
  then have "distinct st" by (rule distinct_map [THEN iffD1, THEN conjunct1])
  then have "distinct (live st)" by (simp add: live_def)
  moreover have "R \<in> set (live st)" using R by (simp add: live_def)
  ultimately show ?thesis by (simp add: distinct_count_atmost_1)
qed

lemma coherent_secondary:
  assumes wf: "wf_config cfg" and iv: "inv cfg s" and I: "I_I < length (P_Specs cfg)"
  shows "\<forall>R\<in>set (m_storage s). \<not> dead R \<longrightarrow>
           length (filter (\<lambda>e. ToHandle (P_Policy cfg) s (snd e) = addr R) (m_second s ! I_I)) = 1
           \<and> (\<forall>e\<in>set (m_second s ! I_I). ToHandle (P_Policy cfg) s (snd e) = addr R \<longrightarrow>
                 fst e = Project (P_Specs cfg ! I_I) (first R) (m_value R))"
    and "\<forall>e\<in>set (m_second s ! I_I). \<exists>R\<in>set (m_storage s). \<not> dead R
           \<and> ToHandle (P_Policy cfg) s (snd e) = addr R"
proof -
  let ?st = "m_storage s"
  let ?M = "mset (live ?st)"
  let ?m = "m_second s ! I_I"
  let ?res = "\<lambda>e. ToHandle (P_Policy cfg) s (snd e)"
  have p: "primary_ok cfg ?st" by (rule inv_primary [OF iv])
  have ms: "mset ?m = image_mset (sec_entry cfg I_I) ?M"
    using inv_secs [OF iv] I by (simp add: secs_ok_def sec_ok_def)
  have res: "?res (sec_entry cfg I_I h) = addr h" if "h \<in> set ?st" for h
    using ToHandle_stored [OF wf iv that] by (simp add: sec_entry_def)
  have ent: "\<exists>h\<in>set ?st. \<not> dead h \<and> e = sec_entry cfg I_I h" if "e \<in> set ?m" for e
  proof -
    have "e \<in># image_mset (sec_entry cfg I_I) ?M" using that ms by (metis set_mset_mset)
    then obtain h where "h \<in># ?M" "e = sec_entry cfg I_I h" by auto
    then show ?thesis by (auto simp: live_def)
  qed
  show "\<forall>e\<in>set ?m. \<exists>R\<in>set ?st. \<not> dead R \<and> ?res e = addr R"
    using ent res by blast
  show "\<forall>R\<in>set ?st. \<not> dead R \<longrightarrow>
           length (filter (\<lambda>e. ?res e = addr R) ?m) = 1
           \<and> (\<forall>e\<in>set ?m. ?res e = addr R \<longrightarrow> fst e = Project (P_Specs cfg ! I_I) (first R) (m_value R))"
  proof (intro ballI impI conjI)
    fix R assume R: "R \<in> set ?st" "\<not> dead R"
    have same: "addr h = addr R \<longleftrightarrow> h = R" if "h \<in> set ?st" for h
      using p that R(1) unfolding primary_ok_def by (metis distinct_map inj_onD)
    have "length (filter (\<lambda>e. ?res e = addr R) ?m) = size (filter_mset (\<lambda>e. ?res e = addr R) (mset ?m))"
      by (metis mset_filter size_mset)
    also have "\<dots> = size (filter_mset (\<lambda>h. ?res (sec_entry cfg I_I h) = addr R) ?M)"
      unfolding ms by (simp add: filter_mset_image_mset comp_def)
    also have "filter_mset (\<lambda>h. ?res (sec_entry cfg I_I h) = addr R) ?M = filter_mset (\<lambda>h. h = R) ?M"
      by (rule filter_mset_cong [OF refl]) (use res same live_subset in fastforce)
    also have "size (filter_mset (\<lambda>h. h = R) ?M) = count ?M R"
      by (simp add: filter_eq_replicate_mset)
    also have "\<dots> = 1" by (rule count_live_once [OF p R])
    finally show "length (filter (\<lambda>e. ?res e = addr R) ?m) = 1" .
  next
    fix R e assume R: "R \<in> set ?st" "\<not> dead R" and e: "e \<in> set ?m" "?res e = addr R"
    have same: "addr h = addr R \<longleftrightarrow> h = R" if "h \<in> set ?st" for h
      using p that R(1) unfolding primary_ok_def by (metis distinct_map inj_onD)
    obtain h where h: "h \<in> set ?st" "e = sec_entry cfg I_I h" using ent [OF e(1)] by blast
    then have "h = R" using res e(2) same by simp
    then show "fst e = Project (P_Specs cfg ! I_I) (first R) (m_value R)"
      using h(2) by (simp add: sec_entry_def)
  qed
qed

section \<open>Iteration visits the live pairs\<close>

lemma visit_tombs:
  assumes tomb: "c_tombstones cfg"
  shows "i \<le> length (m_storage s) \<Longrightarrow>
         visit cfg s (SkipDead (m_storage s) i (length (m_storage s))) = map addr (live (drop i (m_storage s)))"
proof (induction "length (m_storage s) - i" arbitrary: i)
  case 0
  then have "i = length (m_storage s)" by simp
  then show ?case by (subst visit.simps) (simp add: live_def)
next
  case (Suc n)
  let ?st = "m_storage s"
  have il: "i < length ?st" using Suc.hyps(2) by simp
  have dr: "drop i ?st = ?st ! i # drop (Suc i) ?st" using il by (simp add: Cons_nth_drop_Suc)
  have IH: "visit cfg s (SkipDead ?st (Suc i) (length ?st)) = map addr (live (drop (Suc i) ?st))"
    by (rule Suc.hyps(1)) (use Suc.hyps(2) il in simp_all)
  show ?case
  proof (cases "dead (?st ! i)")
    case True
    then have "SkipDead ?st i (length ?st) = SkipDead ?st (Suc i) (length ?st)"
      using il by (subst SkipDead.simps) simp
    then show ?thesis using IH True by (simp add: dr live_def)
  next
    case False
    then have "SkipDead ?st i (length ?st) = i" by simp
    moreover have "visit cfg s i = addr (?st ! i) # visit cfg s (SkipDead ?st (Suc i) (length ?st))"
      using il tomb by (subst visit.simps) (simp add: next_pos_def)
    ultimately show ?thesis using IH False by (simp add: dr live_def)
  qed
qed

lemma visit_plain:
  assumes nt: "\<not> c_tombstones cfg"
  shows "i \<le> length (m_storage s) \<Longrightarrow> visit cfg s i = map addr (drop i (m_storage s))"
proof (induction "length (m_storage s) - i" arbitrary: i)
  case 0
  then show ?case by (subst visit.simps) simp
next
  case (Suc n)
  let ?st = "m_storage s"
  have il: "i < length ?st" using Suc.hyps(2) by simp
  have dr: "drop i ?st = ?st ! i # drop (Suc i) ?st" using il by (simp add: Cons_nth_drop_Suc)
  have IH: "visit cfg s (Suc i) = map addr (drop (Suc i) ?st)"
    by (rule Suc.hyps(1)) (use Suc.hyps(2) il in simp_all)
  have "visit cfg s i = addr (?st ! i) # visit cfg s (Suc i)"
    using il nt by (subst visit.simps) (simp add: next_pos_def)
  then show ?case using IH by (simp add: dr)
qed

lemma visible_eq:
  "visible cfg s = (if c_tombstones cfg then map addr (live (m_storage s)) else map addr (m_storage s))"
  using visit_tombs [of cfg 0 s] visit_plain [of cfg 0 s]
  by (simp add: visible_def begin_pos_def)

section \<open>Rebuilding a container from the live records of another\<close>

lemma upper_bound_end: "\<forall>x\<in>set xs. kf x \<le> k \<Longrightarrow> upper_bound kf k xs = length xs"
  by (simp add: upper_bound_def takeWhile_eq_all_conv [THEN iffD2])

lemma lower_bound_end: "\<forall>x\<in>set xs. kf x < k \<Longrightarrow> lower_bound kf k xs = length xs"
  by (simp add: lower_bound_def takeWhile_eq_all_conv [THEN iffD2])

lemma insert_at_end [simp]: "insert_at (length xs) x xs = xs @ [x]"
  by (simp add: insert_at_def)

text \<open>An emplace whose key is not below any key of the primary and which collides nowhere appends a pair.\<close>

lemma emplace_append:
  assumes wf: "wf_config cfg" and iv: "inv cfg t"
    and le: "\<forall>h\<in>set (m_storage t). first h \<le> k"
    and lt: "c_primary_is_unique cfg \<longrightarrow> (\<forall>h\<in>set (m_storage t). first h \<noteq> k)"
    and nc: "\<forall>I_I<length (P_Specs cfg). is_unique (P_Specs cfg ! I_I) \<longrightarrow>
               (\<forall>h\<in>set (live (m_storage t)).
                  Project (P_Specs cfg ! I_I) (first h) (m_value h) \<noteq> Project (P_Specs cfg ! I_I) k v)"
  shows "\<exists>w. m_storage (snd (emplace cfg None k v t)) = m_storage t @ [w]
            \<and> value_of w = (k, v) \<and> \<not> dead w \<and> inv cfg (snd (emplace cfg None k v t))
            \<and> fst (emplace cfg None k v t) = Returned (addr w, True)"
proof -
  let ?st = "m_storage t"
  let ?n = "length (P_Specs cfg)"
  define w where "w = \<lparr>addr = new_addr ?st, first = k, m_value = v, dead = False,
                   trans_idx = (if c_needs_transl_array cfg then length (transl t) else 0)\<rparr>"
  define p where "p = (if c_primary_is_unique cfg then lower_bound first k ?st else upper_bound first k ?st)"
  have key: "c_primary_is_unique cfg \<longrightarrow> k \<notin> first ` set ?st" using lt by auto
  have pe: "p = length ?st"
  proof (cases "c_primary_is_unique cfg")
    case True
    then have "\<forall>h\<in>set ?st. first h < k" using le lt by (simp add: order_less_le)
    then show ?thesis using True by (simp add: p_def lower_bound_end)
  next
    case False
    then show ?thesis using le by (simp add: p_def upper_bound_end)
  qed
  have nr: "\<forall>I_J<?n. \<not> rejects cfg w I_J (m_second t ! I_J)"
  proof (intro allI impI notI)
    fix I_J assume I: "I_J < ?n" and r: "rejects cfg w I_J (m_second t ! I_J)"
    then obtain h' where "is_unique (P_Specs cfg ! I_J)" "h' \<in># mset (live ?st)"
      "Project (P_Specs cfg ! I_J) (first h') (m_value h') = Project (P_Specs cfg ! I_J) (first w) (m_value w)"
      using rejects_registered_iff [OF inv_secs [OF iv] I, of w] by blast
    then show False using nc I by (auto simp: w_def)
  qed
  note E = emplace_new_key [OF wf iv key p_def w_def refl]
  have e: "emplace cfg None k v t =
      (Returned (addr w, True),
       IncrementLive cfg (t\<lparr>m_storage := insert_at p w ?st,
                             transl := (if c_needs_transl_array cfg then transl t @ [addr w] else transl t),
                             m_second := added cfg w ?n (m_second t)\<rparr>))"
    using E(1) [of None] nr by simp
  have "m_storage (snd (emplace cfg None k v t)) = ?st @ [w]" unfolding e by (simp add: pe)
  moreover have "inv cfg (snd (emplace cfg None k v t))" unfolding e using E(2) [OF nr] by simp
  moreover have "value_of w = (k, v)" "\<not> dead w" by (simp_all add: w_def value_of_def)
  ultimately show ?thesis using e by auto
qed

lemma live_append: "live (xs @ ys) = live xs @ live ys"
  by (simp add: live_def)

lemma live_single: "live [x] = (if dead x then [] else [x])"
  by (simp add: live_def)

text \<open>
  The loop of \<open>compact\<close> and of the copy operations of an invalidating policy, run over
  the part \<open>rest\<close> of the primary of \<open>s\<close> after the part \<open>pre\<close> has been processed.
\<close>

lemma emplace_live_step:
  assumes wf: "wf_config cfg" and iv: "inv cfg s"
  shows "m_storage s = pre @ rest \<Longrightarrow> inv cfg t \<Longrightarrow>
         map value_of (m_storage t) = map value_of (live pre) \<Longrightarrow> \<forall>h\<in>set (m_storage t). \<not> dead h \<Longrightarrow>
         inv cfg (emplace_live cfg rest t)
         \<and> map value_of (m_storage (emplace_live cfg rest t)) = map value_of (live (m_storage s))
         \<and> (\<forall>h\<in>set (m_storage (emplace_live cfg rest t)). \<not> dead h)"
proof (induction rest arbitrary: pre t)
  case Nil
  then show ?case by (simp add: emplace_live_def)
next
  case (Cons pr rest)
  let ?f = "\<lambda>pr t. if c_tombstones cfg then (if \<not> dead pr then snd (emplace cfg None (first pr) (m_value pr) t) else t)
             else snd (emplace cfg None (first pr) (m_value pr) t)"
  have el: "emplace_live cfg (pr # rest) t = emplace_live cfg rest (?f pr t)"
    by (simp add: emplace_live_def)
  have st: "m_storage s = (pre @ [pr]) @ rest" using Cons.prems(1) by simp
  have p: "primary_ok cfg (m_storage s)" by (rule inv_primary [OF iv])
  show ?case
  proof (cases "dead pr")
    case True
    have "pr \<in> set (m_storage s)" using Cons.prems(1) by simp
    then have "c_tombstones cfg" using p True unfolding primary_ok_def by blast
    then have f: "?f pr t = t" using True by simp
    have "map value_of (m_storage t) = map value_of (live (pre @ [pr]))"
      using Cons.prems(3) True by (simp add: live_append live_single)
    then show ?thesis unfolding el f by (rule Cons.IH [OF st Cons.prems(2) _ Cons.prems(4)])
  next
    case False
    let ?k = "first pr" and ?v = "m_value pr"
    have f: "?f pr t = snd (emplace cfg None ?k ?v t)" using False by simp
    have from_pre: "\<exists>h0\<in>set (live pre). value_of h0 = value_of h" if "h \<in> set (m_storage t)" for h
    proof -
      have "value_of h \<in> set (map value_of (m_storage t))" using that by simp
      then show ?thesis unfolding Cons.prems(3) by auto
    qed
    have srt: "sorted (map first (pre @ pr # rest))" using p Cons.prems(1) by (simp add: primary_ok_def)
    have le: "\<forall>h\<in>set (m_storage t). first h \<le> ?k"
    proof
      fix h assume "h \<in> set (m_storage t)"
      then obtain h0 where h0: "h0 \<in> set (live pre)" "value_of h0 = value_of h" using from_pre by blast
      then have "h0 \<in> set pre" by (simp add: live_def)
      then have "first h0 \<le> ?k" using srt by (auto simp: sorted_append)
      then show "first h \<le> ?k" using h0(2) by (simp add: value_of_def)
    qed
    have lt: "c_primary_is_unique cfg \<longrightarrow> (\<forall>h\<in>set (m_storage t). first h \<noteq> ?k)"
    proof (intro impI ballI)
      fix h assume u: "c_primary_is_unique cfg" and "h \<in> set (m_storage t)"
      then obtain h0 where h0: "h0 \<in> set (live pre)" "value_of h0 = value_of h" using from_pre by blast
      then have m: "h0 \<in> set pre" by (simp add: live_def)
      have "distinct (map first (pre @ pr # rest))" using p u Cons.prems(1) by (simp add: primary_ok_def)
      then have "first h0 \<noteq> ?k" using m by (auto simp: image_iff)
      then show "first h \<noteq> ?k" using h0(2) by (simp add: value_of_def)
    qed
    have M: "mset (live (m_storage s)) = add_mset pr (mset (live pre) + mset (live rest))"
      using Cons.prems(1) False by (simp add: live_def)
    have nc: "\<forall>I_I<length (P_Specs cfg). is_unique (P_Specs cfg ! I_I) \<longrightarrow>
               (\<forall>h\<in>set (live (m_storage t)).
                  Project (P_Specs cfg ! I_I) (first h) (m_value h) \<noteq> Project (P_Specs cfg ! I_I) ?k ?v)"
    proof (intro allI impI ballI)
      fix I_I h assume I: "I_I < length (P_Specs cfg)" and u: "is_unique (P_Specs cfg ! I_I)"
        and "h \<in> set (live (m_storage t))"
      then have "h \<in> set (m_storage t)" by (simp add: live_def)
      then obtain h0 where h0: "h0 \<in> set (live pre)" "value_of h0 = value_of h" using from_pre by blast
      have so: "sec_ok cfg I_I (mset (live (m_storage s))) (m_second s ! I_I)"
        using inv_secs [OF iv] I by (simp add: secs_ok_def)
      have m1: "pr \<in># mset (live (m_storage s))" unfolding M by simp
      have m2: "h0 \<in># mset (live (m_storage s)) - {#pr#}" unfolding M using h0(1) by simp
      have "Project (P_Specs cfg ! I_I) (first h0) (m_value h0) \<noteq> Project (P_Specs cfg ! I_I) ?k ?v"
        by (rule unique_projection [OF so u m1 m2])
      then show "Project (P_Specs cfg ! I_I) (first h) (m_value h) \<noteq> Project (P_Specs cfg ! I_I) ?k ?v"
        using h0(2) by (simp add: value_of_def)
    qed
    obtain w where w: "m_storage (snd (emplace cfg None ?k ?v t)) = m_storage t @ [w]"
      "value_of w = (?k, ?v)" "\<not> dead w" "inv cfg (snd (emplace cfg None ?k ?v t))"
      using emplace_append [OF wf Cons.prems(2) le lt nc] by blast
    have a: "map value_of (m_storage (snd (emplace cfg None ?k ?v t))) = map value_of (live (pre @ [pr]))"
    proof -
      have "value_of w = value_of pr" using w(2) by (simp add: value_of_def)
      then show ?thesis using w(1) Cons.prems(3) False by (simp add: live_append live_single)
    qed
    have b: "\<forall>h\<in>set (m_storage (snd (emplace cfg None ?k ?v t))). \<not> dead h"
      using w(1,3) Cons.prems(4) by simp
    show ?thesis unfolding el f by (rule Cons.IH [OF st w(4) a b])
  qed
qed

lemma emplace_live_result:
  assumes wf: "wf_config cfg" and iv: "inv cfg s" and t: "inv cfg t" "m_storage t = []"
    and r: "s' = emplace_live cfg (m_storage s) t"
  shows "inv cfg s'" and "map value_of (m_storage s') = map value_of (live (m_storage s))"
    and "\<forall>h\<in>set (m_storage s'). \<not> dead h"
    and "length (m_storage s') = size_mi cfg s" and "size_mi cfg s' = size_mi cfg s"
proof -
  have "inv cfg s' \<and> map value_of (m_storage s') = map value_of (live (m_storage s))
         \<and> (\<forall>h\<in>set (m_storage s'). \<not> dead h)"
    unfolding r by (rule emplace_live_step [OF wf iv, of "[]"]) (use t in \<open>simp_all add: live_def\<close>)
  then show a: "inv cfg s'" and b: "map value_of (m_storage s') = map value_of (live (m_storage s))"
    and c: "\<forall>h\<in>set (m_storage s'). \<not> dead h" by blast+
  have l: "length (m_storage s') = length (live (m_storage s))" using b by (metis length_map)
  have lv: "live (m_storage s') = m_storage s'" using c by (simp add: live_def filter_id_conv)
  have sz: "size_mi cfg s = length (live (m_storage s))"
  proof (cases "c_tombstones cfg")
    case True
    then show ?thesis using inv_live [OF iv] by (simp add: size_mi_def)
  next
    case False
    then have "\<forall>h\<in>set (m_storage s). \<not> dead h" using inv_primary [OF iv] by (simp add: primary_ok_def)
    then have "live (m_storage s) = m_storage s" by (simp add: live_def filter_id_conv)
    then show ?thesis using False by (simp add: size_mi_def)
  qed
  show "length (m_storage s') = size_mi cfg s" using l sz by simp
  show "size_mi cfg s' = size_mi cfg s"
    using inv_live [OF a] lv l sz by (cases "c_tombstones cfg") (simp_all add: size_mi_def)
qed

section \<open>Lookups through a secondary view\<close>

lemma value_at_stored:
  assumes iv: "inv cfg s" and h: "h \<in> set (m_storage s)"
  shows "value_at s (addr h) = value_of h"
proof -
  obtain i where i: "i < length (m_storage s)" "m_storage s ! i = h"
    using h by (auto simp: in_set_conv_nth)
  have "pos_of (m_storage s) (addr (m_storage s ! i)) = i"
    by (rule pos_of_nth [OF inv_addrs(1) [OF iv] i(1)])
  then show ?thesis using i(2) by (simp add: value_at_def)
qed

lemma view_lookup:
  assumes wf: "wf_config cfg" and iv: "inv cfg s" and I: "I_I < length (P_Specs cfg)"
  shows "mset (map (value_at s) (view_equal_range cfg s I_I q)) =
         filter_mset (\<lambda>x. Project (P_Specs cfg ! I_I) (fst x) (snd x) = q)
           (mset (map value_of (live (m_storage s))))"
proof -
  let ?m = "m_second s ! I_I"
  let ?M = "mset (live (m_storage s))"
  let ?g = "\<lambda>e. value_at s (ToHandle (P_Policy cfg) s (snd e))"
  have srt: "sorted (map fst ?m)" by (rule secs_ok_sorted [OF inv_secs [OF iv] I])
  have ms: "mset ?m = image_mset (sec_entry cfg I_I) ?M"
    using inv_secs [OF iv] I by (simp add: secs_ok_def sec_ok_def)
  have g: "?g (sec_entry cfg I_I h) = value_of h" if "h \<in># ?M" for h
  proof -
    have h: "h \<in> set (m_storage s)" using that live_subset by fastforce
    show ?thesis using ToHandle_stored [OF wf iv h] value_at_stored [OF iv h] by (simp add: sec_entry_def)
  qed
  have "map (value_at s) (view_equal_range cfg s I_I q) = map ?g (filter (\<lambda>e. fst e = q) ?m)"
    using equal_range_filter [OF srt, of q]
    by (simp add: view_equal_range_def map_equal_range_def comp_def)
  then have "mset (map (value_at s) (view_equal_range cfg s I_I q)) =
             image_mset ?g (filter_mset (\<lambda>e. fst e = q) (mset ?m))" by simp
  also have "\<dots> = image_mset (\<lambda>h. ?g (sec_entry cfg I_I h))
                     (filter_mset (\<lambda>h. fst (sec_entry cfg I_I h) = q) ?M)"
    unfolding ms by (simp add: filter_mset_image_mset multiset.map_comp comp_def)
  also have "\<dots> = image_mset value_of (filter_mset (\<lambda>h. fst (sec_entry cfg I_I h) = q) ?M)"
    by (rule image_mset_cong) (use g in auto)
  also have "\<dots> = filter_mset (\<lambda>x. Project (P_Specs cfg ! I_I) (fst x) (snd x) = q) (image_mset value_of ?M)"
    by (simp add: filter_mset_image_mset comp_def sec_entry_def value_of_def)
  finally show ?thesis by simp
qed

section \<open>The example states satisfy the invariants\<close>

lemma cfg_tombs_facts:
  "wf_config cfg_tombs" "c_tombstones cfg_tombs" "c_primary_is_unique cfg_tombs"
  "\<not> c_needs_transl_array cfg_tombs" "length (P_Specs cfg_tombs) = 2"
  "P_Specs cfg_tombs ! 0 = by_fst" "P_Specs cfg_tombs ! Suc 0 = by_snd"
  "P_Policy cfg_tombs = S_UpdatePointerPolicyFull True"
  by (simp_all add: wf_config_def c_tombstones_def c_needs_transl_array_def cfg_tombs_def)

lemma all_less_2: "(\<forall>i<2::nat. P i) \<longleftrightarrow> P 0 \<and> P (Suc 0)"
  by (auto simp: less_2_cases_iff)

lemma ex_less_2: "(\<exists>i<2::nat. P i) \<longleftrightarrow> P 0 \<or> P (Suc 0)"
  by (auto simp: less_2_cases_iff)

lemma inv_ex_dead: "inv cfg_tombs ex_dead"
  by (simp add: inv_def primary_ok_def transl_ok_def secs_ok_def sec_ok_def sec_entry_def live_def
      cfg_tombs_facts all_less_2 ex_dead_def pair_of_def by_fst_def by_snd_def)

lemma inv_ex_shared: "inv cfg_tombs ex_shared"
  by (simp add: inv_def primary_ok_def transl_ok_def secs_ok_def sec_ok_def sec_entry_def live_def
      cfg_tombs_facts all_less_2 ex_shared_def pair_of_def by_fst_def by_snd_def)

lemma inv_ex_three: "inv cfg_tombs ex_three"
  by (simp add: inv_def primary_ok_def transl_ok_def secs_ok_def sec_ok_def sec_entry_def live_def
      cfg_tombs_facts all_less_2 ex_three_def pair_of_def by_fst_def by_snd_def)

lemma cfg_tombs_multi_facts:
  "wf_config cfg_tombs_multi" "c_tombstones cfg_tombs_multi" "\<not> c_primary_is_unique cfg_tombs_multi"
  "\<not> c_needs_transl_array cfg_tombs_multi" "length (P_Specs cfg_tombs_multi) = 2"
  "P_Specs cfg_tombs_multi ! 0 = by_fst" "P_Specs cfg_tombs_multi ! Suc 0 = by_snd"
  "P_Policy cfg_tombs_multi = S_UpdatePointerPolicyFull True"
  by (simp_all add: wf_config_def c_tombstones_def c_needs_transl_array_def cfg_tombs_multi_def)

lemma inv_ex_dead_multi: "inv cfg_tombs_multi ex_dead_multi"
  by (simp add: inv_def primary_ok_def transl_ok_def secs_ok_def sec_ok_def sec_entry_def live_def
      cfg_tombs_multi_facts all_less_2 ex_dead_multi_def pair_of_def by_fst_def by_snd_def)

section \<open>Lookup under tombstones\<close>

lemma find_mi_filter:
  assumes tomb: "c_tombstones cfg"
    and srt: "sorted (map first (m_storage s))"
    and uniq: "c_primary_is_unique cfg \<longrightarrow> distinct (map first (m_storage s))"
  shows "find_mi cfg s k =
           (case filter (\<lambda>h. first h = k \<and> \<not> dead h) (m_storage s) of
              [] \<Rightarrow> end_it | h # _ \<Rightarrow> addr h)"
proof -
  let ?st = "m_storage s"
  let ?f = "lower_bound first k ?st" and ?l = "upper_bound first k ?st"
  have fl: "?f \<le> ?l" "?l \<le> length ?st" by (rule lower_le_upper, rule upper_le_length)
  have seg: "filter (\<lambda>h. first h = k \<and> \<not> dead h) ?st = filter (\<lambda>h. \<not> dead h) (take (?l - ?f) (drop ?f ?st))"
    using equal_range_filter [OF srt, of k] by (metis filter_filter)
  note sdf = SkipDead_filter [OF fl, folded seg]
  note sdb = SkipDead_bounds [OF fl]
  show ?thesis
  proof (cases "?f = ?l")
    case True
    then show ?thesis using seg tomb by (simp add: find_mi_def map_equal_range_def)
  next
    case ne: False
    then have flt: "?f < ?l" "?f < length ?st" using fl by auto
    show ?thesis
    proof (cases "dead (?st ! ?f)")
      case False
      then have "SkipDead ?st ?f ?l = ?f" by simp
      then show ?thesis using sdf ne False tomb flt
        by (simp add: find_mi_def map_equal_range_def ToIterator_live)
    next
      case dd: True
      show ?thesis
      proof (cases "c_primary_is_unique cfg")
        case True
        then have "?l - ?f \<le> 1" using distinct_keys_range [OF srt] uniq by blast
        then have l: "?l = Suc ?f" using flt by simp
        have "take (?l - ?f) (drop ?f ?st) = [?st ! ?f]"
          unfolding l using flt by (simp add: take_Suc_conv_app_nth)
        then have "filter (\<lambda>h. first h = k \<and> \<not> dead h) ?st = []" using seg dd by simp
        then show ?thesis using True dd tomb ne by (simp add: find_mi_def map_equal_range_def)
      next
        case multi: False
        show ?thesis
        proof (cases "SkipDead ?st ?f ?l = ?l")
          case True
          then show ?thesis using sdf multi dd tomb ne by (simp add: find_mi_def map_equal_range_def)
        next
          case False
          then have lt: "SkipDead ?st ?f ?l < length ?st" using sdb fl by simp
          have nd: "\<not> dead (?st ! SkipDead ?st ?f ?l)"
            using sdf False by (metis (mono_tags, lifting) filter_eq_ConsD list.inject)
          show ?thesis using sdf False multi dd tomb ne nd lt
            by (simp add: find_mi_def map_equal_range_def ToIterator_live Let_def)
        qed
      qed
    qed
  qed
qed


text \<open>
  Claim C5.  With tombstones enabled, \<open>find(k)\<close> returns an iterator to the first live
  record with key \<open>k\<close> in iteration order, and \<open>end()\<close> when the equal range of \<open>k\<close>
  holds no live record; with a unique primary a dead entry for \<open>k\<close> gives \<open>end()\<close>.
  The primary map is ordered by key, and without duplicates when it is a unique map.
\<close>

theorem find_first_live:
  assumes tomb: "c_tombstones cfg"
    and srt: "sorted (map first (m_storage s))"
    and uniq: "c_primary_is_unique cfg \<longrightarrow> distinct (map first (m_storage s))"
  shows "find_mi cfg s k =
           (case filter (\<lambda>h. first h = k \<and> \<not> dead h) (m_storage s) of
              [] \<Rightarrow> end_it | h # _ \<Rightarrow> addr h)
         \<and> (c_primary_is_unique cfg \<and> (\<exists>h\<in>set (m_storage s). first h = k \<and> dead h)
              \<longrightarrow> find_mi cfg s k = end_it)
         \<and> ((\<forall>h\<in>set (m_storage s). first h = k \<longrightarrow> dead h) \<longrightarrow> find_mi cfg s k = end_it)"
proof -
  have main: "find_mi cfg s k =
           (case filter (\<lambda>h. first h = k \<and> \<not> dead h) (m_storage s) of
              [] \<Rightarrow> end_it | h # _ \<Rightarrow> addr h)"
    by (rule find_mi_filter [OF assms])
  have all: "find_mi cfg s k = end_it" if all: "\<forall>h\<in>set (m_storage s). first h = k \<longrightarrow> dead h"
  proof -
    have "filter (\<lambda>h. first h = k \<and> \<not> dead h) (m_storage s) = []"
      using all by (auto simp: filter_empty_conv)
    then show ?thesis using main by simp
  qed
  have "find_mi cfg s k = end_it"
    if "c_primary_is_unique cfg" "\<exists>h\<in>set (m_storage s). first h = k \<and> dead h"
    using that uniq all by (metis distinct_map inj_onD)
  then show ?thesis using main all by blast
qed

theorem find_first_live_witness:
  "c_tombstones cfg_tombs_multi \<and> sorted (map first (m_storage ex_dead_multi))
   \<and> \<not> c_primary_is_unique cfg_tombs_multi
   \<and> find_mi cfg_tombs_multi ex_dead_multi 1 = 2
   \<and> filter (\<lambda>h. first h = 2 \<and> \<not> dead h) (m_storage ex_dead_multi) = []
   \<and> find_mi cfg_tombs_multi ex_dead_multi 2 = end_it
   \<and> c_tombstones cfg_tombs \<and> sorted (map first (m_storage ex_dead))
   \<and> c_primary_is_unique cfg_tombs \<and> distinct (map first (m_storage ex_dead))
   \<and> (\<exists>h\<in>set (m_storage ex_dead). first h = 1 \<and> dead h)
   \<and> find_mi cfg_tombs ex_dead 1 = end_it"
proof -
  have t: "c_tombstones cfg_tombs_multi" "\<not> c_primary_is_unique cfg_tombs_multi"
    by (simp_all add: c_tombstones_def cfg_tombs_multi_def)
  have s: "sorted (map first (m_storage ex_dead_multi))"
    by (simp add: ex_dead_multi_def pair_of_def)
  have u: "c_primary_is_unique cfg_tombs_multi \<longrightarrow> distinct (map first (m_storage ex_dead_multi))"
    using t by simp
  have d: "filter (\<lambda>h. first h = 2 \<and> \<not> dead h) (m_storage ex_dead_multi) = []"
    by (simp add: ex_dead_multi_def pair_of_def)
  have t': "c_tombstones cfg_tombs" "c_primary_is_unique cfg_tombs"
    by (simp_all add: c_tombstones_def cfg_tombs_def)
  have s': "sorted (map first (m_storage ex_dead))" "distinct (map first (m_storage ex_dead))"
    by (simp_all add: ex_dead_def pair_of_def)
  have m: "\<exists>h\<in>set (m_storage ex_dead). first h = 1 \<and> dead h"
    by (simp add: ex_dead_def pair_of_def)
  have "find_mi cfg_tombs_multi ex_dead_multi 1 = 2"
    using find_first_live [OF t(1) s u, of 1] by (simp add: ex_dead_multi_def pair_of_def)
  moreover have "find_mi cfg_tombs_multi ex_dead_multi 2 = end_it"
    using find_first_live [OF t(1) s u, of 2] d by (simp add: filter_empty_conv)
  moreover have "find_mi cfg_tombs ex_dead 1 = end_it"
    using find_first_live [OF t'(1) s'(1), of 1] s'(2) t'(2) m by blast
  ultimately show ?thesis using t s d t' s' m by simp
qed

section \<open>Replacing a payload by an equal one\<close>

text \<open>
  Claim C8.  If the iterator designates a live record whose payload equals the new value,
  and the payload type is equality comparable, \<open>replace\<close> returns true and the whole
  container state (payload, dead flag, live counter, primary and every secondary) is the
  one before the call.
\<close>

theorem replace_same_payload_noop:
  assumes "it \<in> addr ` set (m_storage s)" "it \<noteq> end_it"
    and "c_payload_comparable cfg"
    and "\<not> dead (m_storage s ! pos_of (m_storage s) it)"
    and "m_value (m_storage s ! pos_of (m_storage s) it) = v"
  shows "replace_mi cfg thr thr_r it v s = (Returned True, s)"
  using assms by (simp add: replace_mi_def Replace_def ToHandle_it_def end_it_def)

theorem replace_same_payload_noop_witness:
  "2 \<in> addr ` set (m_storage ex_dead) \<and> 2 \<noteq> end_it \<and> c_payload_comparable cfg_tombs
   \<and> \<not> dead (m_storage ex_dead ! pos_of (m_storage ex_dead) 2)
   \<and> m_value (m_storage ex_dead ! pos_of (m_storage ex_dead) 2) = (5, 20)
   \<and> replace_mi cfg_tombs None None 2 (5, 20) ex_dead = (Returned True, ex_dead)"
proof -
  have a: "2 \<in> addr ` set (m_storage ex_dead)" "2 \<noteq> end_it" "c_payload_comparable cfg_tombs"
    by (simp_all add: ex_dead_def pair_of_def end_it_def cfg_tombs_def)
  have b: "\<not> dead (m_storage ex_dead ! pos_of (m_storage ex_dead) 2)"
    "m_value (m_storage ex_dead ! pos_of (m_storage ex_dead) 2) = (5, 20)"
    by (simp_all add: ex_dead_def pair_of_def pos_of_def)
  show ?thesis using replace_same_payload_noop [OF a b] a b by simp
qed

section \<open>Rollback of a failed emplace\<close>

text \<open>
  Claim C3.  The key is new, so the insert into the primary succeeds and \<open>w\<close> is the pair
  it creates.  If a unique secondary rejects the entry of \<open>w\<close>, or the insert into some
  secondary throws, the entries already written are removed, the translation slot is
  given back, the pair is erased from the primary, and the state after the call is the
  state before it.  \<open>emplace\<close> rethrows when the throwing secondary is reached before any
  rejecting one, and returns \<open>(end(), false)\<close> otherwise.
\<close>

theorem emplace_rollback:
  assumes wf: "wf_config cfg" and iv: "inv cfg s"
    and key: "c_primary_is_unique cfg \<longrightarrow> k \<notin> first ` set (m_storage s)"
    and w: "w = \<lparr>addr = new_addr (m_storage s), first = k, m_value = v, dead = False,
                   trans_idx = (if c_needs_transl_array cfg then length (transl s) else 0)\<rparr>"
    and fail: "(\<exists>I_J<length (P_Specs cfg). rejects cfg w I_J (m_second s ! I_J))
               \<or> (\<exists>T<length (P_Specs cfg). thr = Some T)"
  shows "emplace cfg thr k v s =
           (if \<exists>T<length (P_Specs cfg). thr = Some T \<and> (\<forall>I_J<T. \<not> rejects cfg w I_J (m_second s ! I_J))
            then (Threw, s) else (Returned (end_it, False), s))"
proof -
  let ?n = "length (P_Specs cfg)"
  let ?thrown = "\<exists>T. thr = Some T \<and> T < ?n \<and> (\<forall>I_J<T. \<not> rejects cfg w I_J (m_second s ! I_J))"
  note E = emplace_new_key(1) [OF wf iv key refl w refl, where thr = thr]
  have c: "(\<exists>T<?n. thr = Some T \<and> (\<forall>I_J<T. \<not> rejects cfg w I_J (m_second s ! I_J))) = ?thrown"
    by blast
  show ?thesis
  proof (cases ?thrown)
    case True
    then show ?thesis unfolding c using E by simp
  next
    case False
    have "\<exists>I_J<?n. rejects cfg w I_J (m_second s ! I_J)"
    proof (rule disjE [OF fail])
      assume "\<exists>T<?n. thr = Some T"
      then obtain T where T: "T < ?n" "thr = Some T" by blast
      then obtain I_J where "I_J < T" "rejects cfg w I_J (m_second s ! I_J)" using False by blast
      then show ?thesis using T(1) by (meson less_trans)
    qed
    then show ?thesis unfolding c using E False by simp
  qed
qed

theorem emplace_rollback_witness:
  "wf_config cfg_tombs \<and> inv cfg_tombs ex_dead \<and> 3 \<notin> first ` set (m_storage ex_dead)
   \<and> rejects cfg_tombs (pair_of 3 3 (7, 20) False) (Suc 0) (m_second ex_dead ! Suc 0)
   \<and> emplace cfg_tombs None 3 (7, 20) ex_dead = (Returned (end_it, False), ex_dead)
   \<and> \<not> rejects cfg_tombs (pair_of 3 3 (7, 30) False) 0 (m_second ex_dead ! 0)
   \<and> emplace cfg_tombs (Some (Suc 0)) 3 (7, 30) ex_dead = (Threw, ex_dead)"
proof -
  have key: "c_primary_is_unique cfg_tombs \<longrightarrow> 3 \<notin> first ` set (m_storage ex_dead)"
    and key': "3 \<notin> first ` set (m_storage ex_dead)"
    by (simp_all add: ex_dead_def pair_of_def)
  have w: "pair_of 3 3 v False =
      \<lparr>addr = new_addr (m_storage ex_dead), first = 3, m_value = v, dead = False,
        trans_idx = (if c_needs_transl_array cfg_tombs then length (transl ex_dead) else 0)\<rparr>" for v
    by (simp add: pair_of_def new_addr_def ex_dead_def cfg_tombs_facts)
  have r: "rejects cfg_tombs (pair_of 3 3 (7, 20) False) (Suc 0) (m_second ex_dead ! Suc 0)"
    by (simp add: rejects_def insert_unique_def lower_bound_def sec_entry_def cfg_tombs_facts
        by_snd_def pair_of_def ex_dead_def)
  have nr: "\<not> rejects cfg_tombs (pair_of 3 3 (7, 30) False) 0 (m_second ex_dead ! 0)"
    by (simp add: rejects_def cfg_tombs_facts by_fst_def)
  have f1: "(\<exists>I_J<length (P_Specs cfg_tombs). rejects cfg_tombs (pair_of 3 3 (7, 20) False) I_J (m_second ex_dead ! I_J))
            \<or> (\<exists>T<length (P_Specs cfg_tombs). None = Some T)"
    using r by (simp add: cfg_tombs_facts ex_less_2)
  have f2: "(\<exists>I_J<length (P_Specs cfg_tombs). rejects cfg_tombs (pair_of 3 3 (7, 30) False) I_J (m_second ex_dead ! I_J))
            \<or> (\<exists>T<length (P_Specs cfg_tombs). Some (Suc 0) = Some T)"
    by (simp add: cfg_tombs_facts)
  have "emplace cfg_tombs None 3 (7, 20) ex_dead = (Returned (end_it, False), ex_dead)"
    using emplace_rollback [OF cfg_tombs_facts(1) inv_ex_dead key w f1] by simp
  moreover have "emplace cfg_tombs (Some (Suc 0)) 3 (7, 30) ex_dead = (Threw, ex_dead)"
    using emplace_rollback [OF cfg_tombs_facts(1) inv_ex_dead key w f2] nr
    by (simp add: cfg_tombs_facts ex_less_2 less_Suc_eq)
  ultimately show ?thesis using cfg_tombs_facts(1) inv_ex_dead key' r nr by simp
qed

section \<open>Revival of a tombstoned key\<close>

text \<open>
  Claim C6.  Tombstones are enabled, the primary is unique, and the record of key \<open>k\<close>, at
  position \<open>i\<close> of the primary, is dead.  When no secondary rejects, \<open>emplace(k, v)\<close>
  returns the iterator of that same record and \<open>true\<close>; afterwards the record is live with
  payload \<open>v\<close>, its entries are in the secondaries, the live counter and \<open>size()\<close> are one
  higher, and the primary has as many pairs as before.  When a unique secondary rejects,
  the record is dead again, nothing else changed apart from its payload, and
  \<open>(end(), false)\<close> is returned.
\<close>

theorem emplace_revives_dead_key:
  assumes wf: "wf_config cfg" and iv: "inv cfg s"
    and tomb: "c_tombstones cfg" and u: "c_primary_is_unique cfg"
    and i: "i < length (m_storage s)" and k: "first (m_storage s ! i) = k"
    and d: "dead (m_storage s ! i)"
    and h': "h' = (m_storage s ! i)\<lparr>dead := False, m_value := v\<rparr>"
    and s': "s' = snd (emplace cfg None k v s)"
  shows "((\<forall>I_J<length (P_Specs cfg). \<not> rejects cfg h' I_J (m_second s ! I_J)) \<longrightarrow>
            fst (emplace cfg None k v s) = Returned (addr (m_storage s ! i), True)
            \<and> m_storage s' = (m_storage s)[i := h']
            \<and> \<not> dead (m_storage s' ! i) \<and> m_value (m_storage s' ! i) = v
            \<and> m_second s' = added cfg h' (length (P_Specs cfg)) (m_second s)
            \<and> secs_ok cfg (mset (live (m_storage s'))) (m_second s')
            \<and> m_live s' = m_live s + 1
            \<and> size_mi cfg s' = size_mi cfg s + 1
            \<and> length (m_storage s') = length (m_storage s))
       \<and> ((\<exists>I_J<length (P_Specs cfg). rejects cfg h' I_J (m_second s ! I_J)) \<longrightarrow>
            fst (emplace cfg None k v s) = Returned (end_it, False)
            \<and> s' = s\<lparr>m_storage := (m_storage s)[i := h'\<lparr>dead := True\<rparr>]\<rparr>
            \<and> dead (m_storage s' ! i)
            \<and> size_mi cfg s' = size_mi cfg s)"
proof -
  let ?n = "length (P_Specs cfg)"
  have E: "emplace cfg None k v s = emplace_revive cfg None i v s"
    by (rule emplace_dead_key [OF iv u i k d])
  note R = emplace_revive_result [OF wf iv tomb i d h', of None]
  note I = emplace_revive_inv(2) [OF wf iv tomb i d h']
  have ok: "fst (emplace cfg None k v s) = Returned (addr (m_storage s ! i), True)
            \<and> m_storage s' = (m_storage s)[i := h']
            \<and> \<not> dead (m_storage s' ! i) \<and> m_value (m_storage s' ! i) = v
            \<and> m_second s' = added cfg h' ?n (m_second s)
            \<and> secs_ok cfg (mset (live (m_storage s'))) (m_second s')
            \<and> m_live s' = m_live s + 1
            \<and> size_mi cfg s' = size_mi cfg s + 1
            \<and> length (m_storage s') = length (m_storage s)"
    if nr: "\<forall>I_J<?n. \<not> rejects cfg h' I_J (m_second s ! I_J)"
  proof -
    have e: "emplace cfg None k v s =
        (Returned (addr (m_storage s ! i), True),
         IncrementLive cfg (s\<lparr>m_storage := (m_storage s)[i := h'],
                               m_second := added cfg h' ?n (m_second s)\<rparr>))"
      unfolding E R using nr by simp
    have s'e: "s' = IncrementLive cfg (s\<lparr>m_storage := (m_storage s)[i := h'],
                               m_second := added cfg h' ?n (m_second s)\<rparr>)"
      unfolding s' e by simp
    have "inv cfg s'" unfolding s'e by (rule I [OF nr])
    then have so: "secs_ok cfg (mset (live (m_storage s'))) (m_second s')" by (rule inv_secs)
    show ?thesis using e so i tomb unfolding s'e by (simp add: size_mi_def h')
  qed
  have rej: "fst (emplace cfg None k v s) = Returned (end_it, False)
            \<and> s' = s\<lparr>m_storage := (m_storage s)[i := h'\<lparr>dead := True\<rparr>]\<rparr>
            \<and> dead (m_storage s' ! i)
            \<and> size_mi cfg s' = size_mi cfg s"
    if r: "\<exists>I_J<?n. rejects cfg h' I_J (m_second s ! I_J)"
  proof -
    have e: "emplace cfg None k v s =
        (Returned (end_it, False), s\<lparr>m_storage := (m_storage s)[i := h'\<lparr>dead := True\<rparr>]\<rparr>)"
      unfolding E R using r by simp
    show ?thesis using i unfolding s' e by (simp add: size_mi_def)
  qed
  show ?thesis using ok rej by blast
qed

theorem emplace_revives_dead_key_witness:
  "wf_config cfg_tombs \<and> inv cfg_tombs ex_dead \<and> c_tombstones cfg_tombs \<and> c_primary_is_unique cfg_tombs
   \<and> first (m_storage ex_dead ! 0) = 1 \<and> dead (m_storage ex_dead ! 0)
   \<and> \<not> rejects cfg_tombs (pair_of 1 1 (7, 30) False) 0 (m_second ex_dead ! 0)
   \<and> \<not> rejects cfg_tombs (pair_of 1 1 (7, 30) False) (Suc 0) (m_second ex_dead ! Suc 0)
   \<and> fst (emplace cfg_tombs None 1 (7, 30) ex_dead) = Returned (1, True)
   \<and> m_storage (snd (emplace cfg_tombs None 1 (7, 30) ex_dead)) =
       [pair_of 1 1 (7, 30) False, pair_of 2 2 (5, 20) False]
   \<and> size_mi cfg_tombs (snd (emplace cfg_tombs None 1 (7, 30) ex_dead)) = 2
   \<and> rejects cfg_tombs (pair_of 1 1 (7, 20) False) (Suc 0) (m_second ex_dead ! Suc 0)
   \<and> emplace cfg_tombs None 1 (7, 20) ex_dead =
       (Returned (end_it, False), ex_dead\<lparr>m_storage := [pair_of 1 1 (7, 20) True, pair_of 2 2 (5, 20) False]\<rparr>)"
proof -
  have i: "0 < length (m_storage ex_dead)" and k: "first (m_storage ex_dead ! 0) = 1"
    and d: "dead (m_storage ex_dead ! 0)"
    by (simp_all add: ex_dead_def pair_of_def)
  have h: "pair_of 1 1 v False = (m_storage ex_dead ! 0)\<lparr>dead := False, m_value := v\<rparr>" for v
    by (simp add: ex_dead_def pair_of_def)
  have nr: "\<not> rejects cfg_tombs (pair_of 1 1 (7, 30) False) 0 (m_second ex_dead ! 0)"
    "\<not> rejects cfg_tombs (pair_of 1 1 (7, 30) False) (Suc 0) (m_second ex_dead ! Suc 0)"
    by (simp_all add: rejects_def insert_unique_def lower_bound_def sec_entry_def cfg_tombs_facts
        by_fst_def by_snd_def pair_of_def ex_dead_def)
  have r: "rejects cfg_tombs (pair_of 1 1 (7, 20) False) (Suc 0) (m_second ex_dead ! Suc 0)"
    by (simp add: rejects_def insert_unique_def lower_bound_def sec_entry_def cfg_tombs_facts
        by_snd_def pair_of_def ex_dead_def)
  note T = emplace_revives_dead_key [OF cfg_tombs_facts(1) inv_ex_dead cfg_tombs_facts(2,3) i k d h refl]
  have a: "fst (emplace cfg_tombs None 1 (7, 30) ex_dead) = Returned (1, True)
     \<and> m_storage (snd (emplace cfg_tombs None 1 (7, 30) ex_dead)) =
       [pair_of 1 1 (7, 30) False, pair_of 2 2 (5, 20) False]
     \<and> size_mi cfg_tombs (snd (emplace cfg_tombs None 1 (7, 30) ex_dead)) = 2"
    using T [of "(7, 30)"] nr
    by (simp add: cfg_tombs_facts all_less_2 ex_dead_def pair_of_def size_mi_def)
  have b: "emplace cfg_tombs None 1 (7, 20) ex_dead =
       (Returned (end_it, False), ex_dead\<lparr>m_storage := [pair_of 1 1 (7, 20) True, pair_of 2 2 (5, 20) False]\<rparr>)"
    using T [of "(7, 20)"] r
    by (simp add: cfg_tombs_facts ex_less_2 ex_dead_def pair_of_def prod_eq_iff)
  show ?thesis using a b cfg_tombs_facts(1,2,3) inv_ex_dead k d nr r by simp
qed

section \<open>A rejected modify or replace\<close>

text \<open>
  After a rejected \<open>modify\<close> a secondary need not be equal to its state before the call.
  Two live records share the sub-key 5 in the first secondary, a \<open>std::multimap\<close>.  The
  mutation of the record of key 1 collides in the second, unique secondary.  No insert
  throws.  \<open>modify\<close> returns false and the payload is restored, but \<open>restore_old\<close> inserts
  the entry of the record again at the upper bound of its equal range: it now comes after
  the entry of the record of key 2, which it preceded before the call.
\<close>

theorem modify_rejected_reorders_entries:
  "run cfg_tombs [Emplace 1 (5, 10) None, Emplace 2 (5, 20) None] (empty_mi cfg_tombs) = Some ex_shared
   \<and> m_second ex_shared ! 0 = [(5, SHandle 1), (5, SHandle 2)]
   \<and> fst (modify cfg_tombs None None 1 (\<lambda>p. Some (fst p, 20)) ex_shared) = Returned False
   \<and> m_second (snd (modify cfg_tombs None None 1 (\<lambda>p. Some (fst p, 20)) ex_shared)) ! 0 =
       [(5, SHandle 2), (5, SHandle 1)]
   \<and> m_second (snd (modify cfg_tombs None None 1 (\<lambda>p. Some (fst p, 20)) ex_shared)) \<noteq> m_second ex_shared"
proof -
  have r: "run cfg_tombs [Emplace 1 (5, 10) None, Emplace 2 (5, 20) None] (empty_mi cfg_tombs) = Some ex_shared"
    by code_simp
  have m: "modify cfg_tombs None None 1 (\<lambda>p. Some (fst p, 20)) ex_shared =
     (Returned False,
      ex_shared\<lparr>m_second := [[(5, SHandle 2), (5, SHandle 1)], [(10, SHandle 1), (20, SHandle 2)]]\<rparr>)"
    by code_simp
  show ?thesis unfolding m using r by (simp add: ex_shared_def)
qed

text \<open>
  Claim C4, amended.  The iterator designates a pair \<open>n0\<close> of the primary, the mutation
  yields the payload \<open>p\<close>, a unique secondary rejects the entry rebuilt for \<open>p\<close> before any
  insert throws, and the re-insertion of the old entries does not throw.  Then \<open>modify\<close>
  and \<open>replace\<close> return false and both leave the same state \<open>s'\<close>.  In \<open>s'\<close> the primary is
  the one before the call, so the payload and the dead flag of the record are the old
  ones; the translation array and the live counter are unchanged; every secondary holds
  the same entries as before the call, and every unique secondary is equal to its state
  before the call.  If the record was dead, \<open>s'\<close> is the state before the call.  If the
  record was live, every non-unique secondary is its state before the call with the one
  entry of the record, at position \<open>j\<close>, moved to the end of its equal range: the entries
  before \<open>j\<close>, then the entries after \<open>j\<close> up to the upper bound of the sub-key, then the
  entry of the record, then the entries from the upper bound on; and \<open>s'\<close> is the state
  before the call with the secondaries that result from dropping and adding the entries
  of the record.
\<close>

theorem update_rejected_restores:
  assumes wf: "wf_config cfg" and iv: "inv cfg s" and mem: "it \<in> addr ` set (m_storage s)"
    and n0: "n0 = m_storage s ! pos_of (m_storage s) it"
    and D: "D = (if dead n0 then m_second s else DropSecs_tuple cfg (transl s) None n0 (m_second s))"
    and fn: "fn (m_value n0) = Some p"
    and rej: "\<exists>I_J<length (P_Specs cfg). rejects cfg (n0\<lparr>dead := False, m_value := p\<rparr>) I_J (D ! I_J)"
    and nt: "\<not> (\<exists>T. thr = Some T \<and> T < length (P_Specs cfg)
                \<and> (\<forall>I_J<T. \<not> rejects cfg (n0\<lparr>dead := False, m_value := p\<rparr>) I_J (D ! I_J)))"
    and ntr: "dead n0 \<or> \<not> (\<exists>T. thr_r = Some T \<and> T < length (P_Specs cfg))"
    and s': "s' = snd (modify cfg thr thr_r it fn s)"
  shows "modify cfg thr thr_r it fn s = (Returned False, s')
       \<and> replace_mi cfg thr thr_r it p s = (Returned False, s')
       \<and> m_storage s' = m_storage s \<and> transl s' = transl s \<and> m_live s' = m_live s
       \<and> length (m_second s') = length (m_second s)
       \<and> (\<forall>I_J<length (P_Specs cfg). mset (m_second s' ! I_J) = mset (m_second s ! I_J))
       \<and> (\<forall>I_J<length (P_Specs cfg). is_unique (P_Specs cfg ! I_J) \<longrightarrow> m_second s' ! I_J = m_second s ! I_J)
       \<and> (\<forall>I_J<length (P_Specs cfg). \<not> is_unique (P_Specs cfg ! I_J) \<and> \<not> dead n0 \<longrightarrow>
           (\<exists>j<length (m_second s ! I_J).
               m_second s ! I_J ! j = sec_entry cfg I_J n0
             \<and> (\<forall>j'<length (m_second s ! I_J). m_second s ! I_J ! j' = sec_entry cfg I_J n0 \<longrightarrow> j' = j)
             \<and> m_second s' ! I_J =
                 take j (m_second s ! I_J)
                 @ drop (Suc j) (take (upper_bound fst (fst (m_second s ! I_J ! j)) (m_second s ! I_J)) (m_second s ! I_J))
                 @ [m_second s ! I_J ! j]
                 @ drop (upper_bound fst (fst (m_second s ! I_J ! j)) (m_second s ! I_J)) (m_second s ! I_J)))
       \<and> (dead n0 \<longrightarrow> s' = s)
       \<and> (\<not> dead n0 \<longrightarrow> s' = s\<lparr>m_second := added cfg n0 (length (P_Specs cfg)) D\<rparr>)
       \<and> inv cfg s'"
proof -
  note hv = handle_valid [OF iv mem]
  have md: "modify cfg thr thr_r it fn s = UpdateCore cfg thr thr_r it fn s"
    using hv(1) by (simp add: modify_def ToHandle_it_def end_it_def)
  have s'u: "s' = snd (UpdateCore cfg thr thr_r it fn s)" by (simp add: s' md)
  note R = UpdateCore_rejected [OF wf iv mem n0 D fn rej nt ntr s'u]
  have m: "modify cfg thr thr_r it fn s = (Returned False, s')"
    using R(1) by (simp add: md s'u prod_eq_iff)
  have "replace_mi cfg thr thr_r it p s = UpdateCore cfg thr thr_r it (\<lambda>dst. Some p) s"
    by (rule replace_rejected_is_update [OF wf iv mem n0 D rej])
  also have "\<dots> = UpdateCore cfg thr thr_r it fn s"
    by (rule UpdateCore_same_mutation [OF wf iv mem]) (simp add: fn [unfolded n0])
  finally have r: "replace_mi cfg thr thr_r it p s = (Returned False, s')" using m md by simp
  show ?thesis
    by (intro conjI) (rule m r R(2) R(3) R(4) R(5) R(6) R(7) R(8) R(9) R(10) R(11))+
qed

theorem update_rejected_restores_witness:
  "run cfg_tombs [Emplace 1 (5, 10) None, Emplace 2 (5, 20) None, Emplace 3 (5, 30) None]
       (empty_mi cfg_tombs) = Some ex_three
   \<and> wf_config cfg_tombs \<and> inv cfg_tombs ex_three \<and> 2 \<in> addr ` set (m_storage ex_three)
   \<and> m_second ex_three ! 0 = [(5, SHandle 1), (5, SHandle 2), (5, SHandle 3)]
   \<and> rejects cfg_tombs (pair_of 2 2 (5, 10) False) (Suc 0)
        (DropSecs_tuple cfg_tombs (transl ex_three) None (pair_of 2 2 (5, 20) False) (m_second ex_three) ! Suc 0)
   \<and> fst (modify cfg_tombs None None 2 (\<lambda>p. Some (fst p, 10)) ex_three) = Returned False
   \<and> fst (replace_mi cfg_tombs None None 2 (5, 10) ex_three) = Returned False
   \<and> m_storage (snd (modify cfg_tombs None None 2 (\<lambda>p. Some (fst p, 10)) ex_three)) = m_storage ex_three
   \<and> m_live (snd (modify cfg_tombs None None 2 (\<lambda>p. Some (fst p, 10)) ex_three)) = m_live ex_three
   \<and> m_second (snd (modify cfg_tombs None None 2 (\<lambda>p. Some (fst p, 10)) ex_three)) ! 0 =
       [(5, SHandle 1), (5, SHandle 3), (5, SHandle 2)]
   \<and> m_second (snd (modify cfg_tombs None None 2 (\<lambda>p. Some (fst p, 10)) ex_three)) ! Suc 0 =
       m_second ex_three ! Suc 0"
proof -
  let ?fn = "\<lambda>p::nat \<times> nat. Some (fst p, 10::nat)"
  let ?n0 = "pair_of 2 2 (5, 20) False"
  let ?m = "m_second ex_three ! 0"
  let ?s' = "snd (modify cfg_tombs None None 2 ?fn ex_three)"
  have mem: "2 \<in> addr ` set (m_storage ex_three)" by (simp add: ex_three_def pair_of_def)
  have n0: "?n0 = m_storage ex_three ! pos_of (m_storage ex_three) 2"
    by (simp add: ex_three_def pair_of_def pos_of_def)
  have nd: "\<not> dead ?n0" by (simp add: pair_of_def)
  have D: "DropSecs_tuple cfg_tombs (transl ex_three) None ?n0 (m_second ex_three) =
     (if dead ?n0 then m_second ex_three
      else DropSecs_tuple cfg_tombs (transl ex_three) None ?n0 (m_second ex_three))"
    using nd by simp
  have fn: "?fn (m_value ?n0) = Some (5, 10)" by (simp add: pair_of_def)
  have e: "?n0\<lparr>dead := False, m_value := (5, 10)\<rparr> = pair_of 2 2 (5, 10) False"
    by (simp add: pair_of_def)
  have r: "rejects cfg_tombs (pair_of 2 2 (5, 10) False) (Suc 0)
        (DropSecs_tuple cfg_tombs (transl ex_three) None ?n0 (m_second ex_three) ! Suc 0)"
    by code_simp
  have rej: "\<exists>I_J<length (P_Specs cfg_tombs).
      rejects cfg_tombs (?n0\<lparr>dead := False, m_value := (5, 10)\<rparr>) I_J
        (DropSecs_tuple cfg_tombs (transl ex_three) None ?n0 (m_second ex_three) ! I_J)"
    unfolding e using r by (simp add: cfg_tombs_facts ex_less_2)
  have nt: "\<not> (\<exists>T. (None :: nat option) = Some T \<and> T < length (P_Specs cfg_tombs)
      \<and> (\<forall>I_J<T. \<not> rejects cfg_tombs (?n0\<lparr>dead := False, m_value := (5, 10)\<rparr>) I_J
        (DropSecs_tuple cfg_tombs (transl ex_three) None ?n0 (m_second ex_three) ! I_J)))"
    by simp
  have ntr: "dead ?n0 \<or> \<not> (\<exists>T. (None :: nat option) = Some T \<and> T < length (P_Specs cfg_tombs))"
    by simp
  note T = update_rejected_restores [where fn = ?fn and p = "(5, 10)",
      OF cfg_tombs_facts(1) inv_ex_three mem n0 D fn rej nt ntr refl]
  have u: "is_unique (P_Specs cfg_tombs ! Suc 0)" "\<not> is_unique (P_Specs cfg_tombs ! 0)"
    by (simp_all add: cfg_tombs_facts by_snd_def by_fst_def)
  have m: "fst (modify cfg_tombs None None 2 ?fn ex_three) = Returned False"
    using T [THEN conjunct1] by (metis fst_conv)
  have rp: "fst (replace_mi cfg_tombs None None 2 (5, 10) ex_three) = Returned False"
    using T [THEN conjunct2, THEN conjunct1] by (metis fst_conv)
  have rest: "m_storage ?s' = m_storage ex_three" "m_live ?s' = m_live ex_three"
    "m_second ?s' ! Suc 0 = m_second ex_three ! Suc 0"
    using T [THEN conjunct2, THEN conjunct2] u by (simp_all add: cfg_tombs_facts all_less_2)
  have mv: "?m = [(5, SHandle 1), (5, SHandle 2), (5, SHandle 3)]" by (simp add: ex_three_def)
  have se: "sec_entry cfg_tombs 0 ?n0 = (5, SHandle 2)"
    by (simp add: sec_entry_def cfg_tombs_facts by_fst_def pair_of_def)
  note N = T [THEN conjunct2, THEN conjunct2, THEN conjunct2, THEN conjunct2, THEN conjunct2,
      THEN conjunct2, THEN conjunct2, THEN conjunct2, THEN conjunct1]
  have l0: "0 < length (P_Specs cfg_tombs)" by (simp add: cfg_tombs_facts)
  have "\<exists>j<length ?m. ?m ! j = sec_entry cfg_tombs 0 ?n0
      \<and> (\<forall>j'<length ?m. ?m ! j' = sec_entry cfg_tombs 0 ?n0 \<longrightarrow> j' = j)
      \<and> m_second ?s' ! 0 = take j ?m @ drop (Suc j) (take (upper_bound fst (fst (?m ! j)) ?m) ?m)
           @ [?m ! j] @ drop (upper_bound fst (fst (?m ! j)) ?m) ?m"
    by (rule spec [OF N, THEN mp, OF l0, THEN mp, OF conjI [OF u(2) nd]])
  then obtain j where j: "j < length ?m" "?m ! j = (5, SHandle 2)"
    "m_second ?s' ! 0 = take j ?m @ drop (Suc j) (take (upper_bound fst (fst (?m ! j)) ?m) ?m)
           @ [?m ! j] @ drop (upper_bound fst (fst (?m ! j)) ?m) ?m"
    unfolding se by blast
  have "j = 0 \<or> j = 1 \<or> j = 2" using j(1) unfolding mv by auto
  then have j1: "j = 1" using j(2) unfolding mv by auto
  have mo: "m_second ?s' ! 0 = [(5, SHandle 1), (5, SHandle 3), (5, SHandle 2)]"
    using j(3) unfolding j1 mv by (simp add: upper_bound_def)
  have rn: "run cfg_tombs [Emplace 1 (5, 10) None, Emplace 2 (5, 20) None, Emplace 3 (5, 30) None]
       (empty_mi cfg_tombs) = Some ex_three"
    by code_simp
  show ?thesis
    using rn cfg_tombs_facts(1) inv_ex_three mem mv r m rp rest mo by simp
qed

section \<open>Erasing by primary key\<close>

lemma live_after_erase_key:
  "live (map (\<lambda>h. if first h = k then h\<lparr>dead := True\<rparr> else h) st) = filter (\<lambda>h. first h \<noteq> k) (live st)"
  "live (filter (\<lambda>h. first h \<noteq> k) st) = filter (\<lambda>h. first h \<noteq> k) (live st)"
proof -
  let ?g = "\<lambda>h::('a, 'b) t_pair. if first h = k then h\<lparr>dead := True\<rparr> else h"
  have "live (map ?g st) = map ?g (filter (\<lambda>h. first h \<noteq> k \<and> \<not> dead h) st)"
    unfolding live_def filter_map by (rule arg_cong [where f = "map ?g"], rule filter_cong) auto
  also have "\<dots> = filter (\<lambda>h. first h \<noteq> k \<and> \<not> dead h) st"
    by (rule map_idI) simp
  finally show "live (map ?g st) = filter (\<lambda>h. first h \<noteq> k) (live st)"
    by (simp add: live_def conj_commute)
  show "live (filter (\<lambda>h. first h \<noteq> k) st) = filter (\<lambda>h. first h \<noteq> k) (live st)"
    by (simp add: live_def conj_commute)
qed

lemma length_filter_other:
  "length (filter (\<lambda>x. \<not> P x) xs) = length xs - length (filter P xs)"
  using sum_length_filter_compl [of P xs] by simp

text \<open>
  Claim C9.  \<open>erase(k)\<close> returns, and the count it returns is the number \<open>n\<close> of live
  records with key \<open>k\<close>.  Each of them has been erased as by \<open>erase(iter)\<close>: under
  tombstones it is marked dead, otherwise it is removed from the primary; no other record
  changed, the secondaries hold exactly the entries of the records that remain live, and
  \<open>size()\<close> went down by \<open>n\<close>.  When there is no live record with key \<open>k\<close>, the result is 0
  and the state is the one before the call.
\<close>

theorem erase_by_key:
  assumes wf: "wf_config cfg" and iv: "inv cfg s"
    and n: "n = length (filter (\<lambda>h. first h = k \<and> \<not> dead h) (m_storage s))"
  shows "\<exists>s'. erase_key cfg k s = Some (n, s')
     \<and> m_storage s' = (if c_tombstones cfg
                       then map (\<lambda>h. if first h = k then h\<lparr>dead := True\<rparr> else h) (m_storage s)
                       else filter (\<lambda>h. first h \<noteq> k) (m_storage s))
     \<and> live (m_storage s') = filter (\<lambda>h. first h \<noteq> k) (live (m_storage s))
     \<and> secs_ok cfg (mset (live (m_storage s'))) (m_second s')
     \<and> size_mi cfg s' = size_mi cfg s - n
     \<and> inv cfg s'
     \<and> (n = 0 \<longrightarrow> s' = s)"
proof -
  let ?st = "m_storage s"
  obtain s' where s': "erase_key cfg k s = Some (n, s')" "inv cfg s'"
    "m_storage s' = (if c_tombstones cfg
                       then map (\<lambda>h. if first h = k then h\<lparr>dead := True\<rparr> else h) ?st
                       else filter (\<lambda>h. first h \<noteq> k) ?st)"
    "filter (\<lambda>h. first h = k \<and> \<not> dead h) ?st = [] \<longrightarrow> s' = s"
    using erase_key_result [OF wf iv, of k] unfolding n by blast
  have lv: "live (m_storage s') = filter (\<lambda>h. first h \<noteq> k) (live ?st)"
    unfolding s'(3) by (simp add: live_after_erase_key)
  have n': "n = length (filter (\<lambda>h. first h = k) (live ?st))"
    unfolding n live_def by (simp add: conj_commute)
  have sz: "size_mi cfg s' = size_mi cfg s - n"
  proof (cases "c_tombstones cfg")
    case True
    have "m_live s' = length (live (m_storage s'))" by (rule inv_live [OF s'(2) True])
    also have "\<dots> = length (live ?st) - n" unfolding lv n' by (rule length_filter_other)
    finally show ?thesis using inv_live [OF iv True] True by (simp add: size_mi_def)
  next
    case False
    have nd: "\<forall>h\<in>set ?st. \<not> dead h" using inv_primary [OF iv] False by (simp add: primary_ok_def)
    then have "live ?st = ?st" by (simp add: live_def filter_id_conv)
    then have "n = length (filter (\<lambda>h. first h = k) ?st)" using n' by simp
    then show ?thesis using False s'(3) by (simp add: size_mi_def length_filter_other)
  qed
  have "n = 0 \<longrightarrow> s' = s" using s'(4) n by simp
  then show ?thesis using s'(1,2,3) lv sz inv_secs [OF s'(2)] by blast
qed

theorem erase_by_key_witness:
  "wf_config cfg_tombs_multi \<and> inv cfg_tombs_multi ex_dead_multi
   \<and> length (filter (\<lambda>h. first h = 1 \<and> \<not> dead h) (m_storage ex_dead_multi)) = 2
   \<and> map_option fst (erase_key cfg_tombs_multi 1 ex_dead_multi) = Some 2
   \<and> length (filter (\<lambda>h. first h = 2 \<and> \<not> dead h) (m_storage ex_dead_multi)) = 0
   \<and> erase_key cfg_tombs_multi 2 ex_dead_multi = Some (0, ex_dead_multi)"
proof -
  have n1: "2 = length (filter (\<lambda>h. first h = 1 \<and> \<not> dead h) (m_storage ex_dead_multi))"
    and n2: "0 = length (filter (\<lambda>h. first h = 2 \<and> \<not> dead h) (m_storage ex_dead_multi))"
    by (simp_all add: ex_dead_multi_def pair_of_def)
  obtain s1 where "erase_key cfg_tombs_multi 1 ex_dead_multi = Some (2, s1)"
    using erase_by_key [OF cfg_tombs_multi_facts(1) inv_ex_dead_multi n1] by blast
  then have a: "map_option fst (erase_key cfg_tombs_multi 1 ex_dead_multi) = Some 2" by simp
  have b: "erase_key cfg_tombs_multi 2 ex_dead_multi = Some (0, ex_dead_multi)"
    using erase_by_key [OF cfg_tombs_multi_facts(1) inv_ex_dead_multi n2] by auto
  show ?thesis using a b n1 n2 cfg_tombs_multi_facts(1) inv_ex_dead_multi by simp
qed

section \<open>A secondary insert that throws during modify\<close>

text \<open>
  Claim C1 does not hold of \<open>UpdateCore\<close>.  Key 1 is emplaced with the payload (5, 10).
  Then \<open>modify\<close> changes the payload to (5, 30), and the insert into the first secondary
  throws (an allocation failure of the \<open>std::multimap\<close>).  The handler inside \<open>AddSecs\<close>
  removes what was written for the record and rethrows; \<open>UpdateCore\<close> has no handler round
  its call of \<open>AddSecs\<close>, so \<open>restore_old\<close> is not run.  The exception leaves the
  container with the record live: \<open>find\<close> returns it, the iteration visits it, \<open>size()\<close>
  is 1, its payload is the new one.  But no secondary holds an entry of it: both maps are
  empty, and the view of the first secondary finds nothing under the sub-key 5.
\<close>

theorem modify_throw_leaves_record_unindexed:
  "modify cfg_tombs (Some 0) None 1 (\<lambda>p. Some (fst p, 30))
       (snd (emplace cfg_tombs None 1 (5, 10) (empty_mi cfg_tombs))) = (Threw, ex_unindexed)
   \<and> run cfg_tombs [Emplace 1 (5, 10) None, Modify 1 (\<lambda>p. Some (fst p, 30)) (Some 0) None]
         (empty_mi cfg_tombs) = Some ex_unindexed
   \<and> find_mi cfg_tombs ex_unindexed 1 = 1
   \<and> visible cfg_tombs ex_unindexed = [1]
   \<and> size_mi cfg_tombs ex_unindexed = 1
   \<and> value_at ex_unindexed 1 = (1, (5, 30))
   \<and> m_second ex_unindexed = [[], []]
   \<and> view_equal_range cfg_tombs ex_unindexed 0 5 = []
   \<and> filter (\<lambda>e. ToHandle (P_Policy cfg_tombs) ex_unindexed (snd e) = 1) (m_second ex_unindexed ! 0) = []"
proof -
  have a: "modify cfg_tombs (Some 0) None 1 (\<lambda>p. Some (fst p, 30))
       (snd (emplace cfg_tombs None 1 (5, 10) (empty_mi cfg_tombs))) = (Threw, ex_unindexed)"
    by code_simp
  have b: "run cfg_tombs [Emplace 1 (5, 10) None, Modify 1 (\<lambda>p. Some (fst p, 30)) (Some 0) None]
         (empty_mi cfg_tombs) = Some ex_unindexed"
    by code_simp
  have c: "find_mi cfg_tombs ex_unindexed 1 = 1" by code_simp
  have d: "visible cfg_tombs ex_unindexed = [1]" by code_simp
  have e: "size_mi cfg_tombs ex_unindexed = 1" by code_simp
  have f: "value_at ex_unindexed 1 = (1, (5, 30))" by code_simp
  have g: "m_second ex_unindexed = [[], []]" by (simp add: ex_unindexed_def)
  have h: "view_equal_range cfg_tombs ex_unindexed 0 5 = []" by code_simp
  have i: "filter (\<lambda>e. ToHandle (P_Policy cfg_tombs) ex_unindexed (snd e) = 1) (m_second ex_unindexed ! 0) = []"
    by (simp add: ex_unindexed_def)
  show ?thesis by (intro conjI) (rule a b c d e f g h i)+
qed

text \<open>
  Claim C2 does not hold of \<open>UpdateCore\<close>, by the same missing handler.  Keys 1 and 2 are
  emplaced and key 1 is erased, which leaves its record tombstoned.  Then \<open>modify\<close>, through
  an iterator to that record, sets the payload to (7, 30), and the insert into the first
  secondary throws.  \<open>UpdateCore\<close> has cleared the dead flag before the mutation; the
  exception passes both the restore of the flag and \<open>IncrementLive\<close>.  Afterwards the
  primary holds two records that are not dead and the iteration from \<open>begin()\<close> to \<open>end()\<close>
  visits both, but \<open>size()\<close> is 1.  \<open>emplace\<close> of key 1 on the same state, with the same
  insert throwing, sets the flag again: the record stays dead.
\<close>

theorem modify_throw_revives_without_count:
  "run cfg_tombs [Emplace 1 (5, 10) None, Emplace 2 (5, 20) None, EraseKey 1] (empty_mi cfg_tombs) = Some ex_dead
   \<and> size_mi cfg_tombs ex_dead = 1 \<and> visible cfg_tombs ex_dead = [2]
   \<and> modify cfg_tombs (Some 0) None 1 (\<lambda>p. Some (7, 30)) ex_dead = (Threw, ex_miscounted)
   \<and> run cfg_tombs [Emplace 1 (5, 10) None, Emplace 2 (5, 20) None, EraseKey 1,
                     Modify 1 (\<lambda>p. Some (7, 30)) (Some 0) None] (empty_mi cfg_tombs) = Some ex_miscounted
   \<and> size_mi cfg_tombs ex_miscounted = 1
   \<and> length (filter (\<lambda>R. \<not> dead R) (m_storage ex_miscounted)) = 2
   \<and> visible cfg_tombs ex_miscounted = [1, 2]
   \<and> emplace cfg_tombs (Some 0) 1 (7, 30) ex_dead =
       (Threw, ex_dead\<lparr>m_storage := [pair_of 1 1 (7, 30) True, pair_of 2 2 (5, 20) False]\<rparr>)"
proof -
  have a: "run cfg_tombs [Emplace 1 (5, 10) None, Emplace 2 (5, 20) None, EraseKey 1] (empty_mi cfg_tombs) = Some ex_dead"
    by code_simp
  have b: "size_mi cfg_tombs ex_dead = 1" by code_simp
  have c: "visible cfg_tombs ex_dead = [2]" by code_simp
  have d: "modify cfg_tombs (Some 0) None 1 (\<lambda>p. Some (7, 30)) ex_dead = (Threw, ex_miscounted)"
    by code_simp
  have e: "run cfg_tombs [Emplace 1 (5, 10) None, Emplace 2 (5, 20) None, EraseKey 1,
                     Modify 1 (\<lambda>p. Some (7, 30)) (Some 0) None] (empty_mi cfg_tombs) = Some ex_miscounted"
    by code_simp
  have f: "size_mi cfg_tombs ex_miscounted = 1" by code_simp
  have g: "length (filter (\<lambda>R. \<not> dead R) (m_storage ex_miscounted)) = 2"
    by (simp add: ex_miscounted_def pair_of_def)
  have h: "visible cfg_tombs ex_miscounted = [1, 2]" by code_simp
  have i: "emplace cfg_tombs (Some 0) 1 (7, 30) ex_dead =
       (Threw, ex_dead\<lparr>m_storage := [pair_of 1 1 (7, 30) True, pair_of 2 2 (5, 20) False]\<rparr>)"
    by code_simp
  show ?thesis by (intro conjI) (rule a b c d e f g h i)+
qed

section \<open>compact and copy\<close>

text \<open>
  Claim C7.  \<open>compact()\<close>, which exists when tombstones or the translation array are in use,
  emplaces every live record into a fresh container and continues with that one.
  Afterwards the primary holds the keys and payloads of the records that were live, in the
  same order, and none of them is dead; the size of the primary is \<open>size()\<close>, which did not
  change; and for every secondary and every sub-key the lookup through the view finds the
  same keys and payloads as before.
\<close>

theorem compact_keeps_live_records:
  assumes wf: "wf_config cfg" and iv: "inv cfg s" and c: "apply_op cfg Compact s = Some s'"
  shows "s' = emplace_live cfg (m_storage s) (empty_mi cfg)
     \<and> map value_of (m_storage s') = map value_of (live (m_storage s))
     \<and> (\<forall>h\<in>set (m_storage s'). \<not> dead h)
     \<and> length (m_storage s') = size_mi cfg s' \<and> size_mi cfg s' = size_mi cfg s
     \<and> (\<forall>I_I<length (P_Specs cfg). \<forall>q.
           mset (map (value_at s') (view_equal_range cfg s' I_I q)) =
           mset (map (value_at s) (view_equal_range cfg s I_I q)))
     \<and> inv cfg s'"
proof -
  have s': "s' = emplace_live cfg (m_storage s) (empty_mi cfg)"
    using c by (simp add: compact_def split: if_splits)
  have e: "m_storage (empty_mi cfg) = []" by (simp add: empty_mi_def)
  note R = emplace_live_result [OF wf iv inv_empty e s']
  have lv: "live (m_storage s') = m_storage s'" using R(3) by (simp add: live_def filter_id_conv)
  have "mset (map (value_at s') (view_equal_range cfg s' I_I q)) =
        mset (map (value_at s) (view_equal_range cfg s I_I q))"
    if I: "I_I < length (P_Specs cfg)" for I_I q
    unfolding view_lookup [OF wf R(1) I] view_lookup [OF wf iv I] lv R(2) ..
  then show ?thesis using s' R by simp
qed

theorem compact_keeps_live_records_witness:
  "wf_config cfg_tombs \<and> inv cfg_tombs ex_dead
   \<and> apply_op cfg_tombs Compact ex_dead = Some (compact cfg_tombs ex_dead)
   \<and> map value_of (live (m_storage ex_dead)) = [(2, (5, 20))]
   \<and> map value_of (m_storage (compact cfg_tombs ex_dead)) = [(2, (5, 20))]
   \<and> length (m_storage ex_dead) = 2
   \<and> length (m_storage (compact cfg_tombs ex_dead)) = 1
   \<and> size_mi cfg_tombs (compact cfg_tombs ex_dead) = 1"
proof -
  have c: "apply_op cfg_tombs Compact ex_dead = Some (compact cfg_tombs ex_dead)"
    by (simp add: cfg_tombs_facts)
  have l: "map value_of (live (m_storage ex_dead)) = [(2, (5, 20))]" "length (m_storage ex_dead) = 2"
    "size_mi cfg_tombs ex_dead = 1"
    by (simp_all add: ex_dead_def pair_of_def live_def value_of_def size_mi_def cfg_tombs_facts)
  note T = compact_keeps_live_records [OF cfg_tombs_facts(1) inv_ex_dead c]
  have a: "map value_of (m_storage (compact cfg_tombs ex_dead)) = [(2, (5, 20))]"
    using T [THEN conjunct2, THEN conjunct1] l(1) by simp
  have b: "size_mi cfg_tombs (compact cfg_tombs ex_dead) = 1"
    "length (m_storage (compact cfg_tombs ex_dead)) = 1"
    using T [THEN conjunct2, THEN conjunct2, THEN conjunct2] l(3) by simp_all
  show ?thesis using cfg_tombs_facts(1) inv_ex_dead c l(1,2) a b by simp
qed

text \<open>
  Claim C10.  Under a policy with \<open>c_invalidates\<close>, the copy constructor and the copy
  assignment emplace the records of the source that are not dead.  The copy \<open>c\<close> holds no
  dead record, the size of its primary is \<open>size()\<close> of the source, also when the source
  holds tombstoned records, and its keys and payloads are those of the live records of the
  source, in the same order.
\<close>

theorem copy_skips_tombstones:
  assumes wf: "wf_config cfg" and iv: "inv cfg rhs" and inval: "c_invalidates (P_Policy cfg)"
    and c: "c = copy_construct cfg rhs \<or> c = CopyAssignCore cfg rhs this"
  shows "(\<forall>h\<in>set (m_storage c). \<not> dead h)
     \<and> length (m_storage c) = size_mi cfg rhs
     \<and> size_mi cfg c = size_mi cfg rhs
     \<and> map value_of (m_storage c) = map value_of (live (m_storage rhs))
     \<and> inv cfg c"
proof -
  have "\<exists>t. inv cfg t \<and> m_storage t = [] \<and> c = emplace_live cfg (m_storage rhs) t"
  proof (rule disjE [OF c])
    assume "c = copy_construct cfg rhs"
    then have "c = emplace_live cfg (m_storage rhs) (empty_mi cfg)"
      using inval by (simp add: copy_construct_def)
    moreover have "m_storage (empty_mi cfg) = []" by (simp add: empty_mi_def)
    ultimately show ?thesis using inv_empty by blast
  next
    assume "c = CopyAssignCore cfg rhs this"
    then have "c = emplace_live cfg (m_storage rhs) (clear_mi cfg this)"
      using inval by (simp add: CopyAssignCore_def)
    moreover have "m_storage (clear_mi cfg this) = []"
      by (simp add: clear_mi_def SetLive_def PolicyClear_def ClearSecondaries_def)
    ultimately show ?thesis using clear_inv by blast
  qed
  then obtain t where t: "inv cfg t" "m_storage t = []" "c = emplace_live cfg (m_storage rhs) t"
    by blast
  note R = emplace_live_result [OF wf iv t]
  show ?thesis using R by simp
qed

theorem copy_skips_tombstones_witness:
  "wf_config cfg_tombs \<and> inv cfg_tombs ex_dead \<and> c_invalidates (P_Policy cfg_tombs)
   \<and> length (m_storage ex_dead) = 2 \<and> size_mi cfg_tombs ex_dead = 1
   \<and> length (m_storage (copy_construct cfg_tombs ex_dead)) = 1
   \<and> length (m_storage (CopyAssignCore cfg_tombs ex_dead ex_shared)) = 1
   \<and> filter dead (m_storage (copy_construct cfg_tombs ex_dead)) = []
   \<and> map value_of (m_storage (CopyAssignCore cfg_tombs ex_dead ex_shared)) = [(2, (5, 20))]"
proof -
  have i: "c_invalidates (P_Policy cfg_tombs)" by (simp add: cfg_tombs_facts)
  have l: "map value_of (live (m_storage ex_dead)) = [(2, (5, 20))]" "length (m_storage ex_dead) = 2"
    "size_mi cfg_tombs ex_dead = 1"
    by (simp_all add: ex_dead_def pair_of_def live_def value_of_def size_mi_def cfg_tombs_facts)
  have c1: "copy_construct cfg_tombs ex_dead = copy_construct cfg_tombs ex_dead
            \<or> copy_construct cfg_tombs ex_dead = CopyAssignCore cfg_tombs ex_dead ex_shared" by simp
  have c2: "CopyAssignCore cfg_tombs ex_dead ex_shared = copy_construct cfg_tombs ex_dead
            \<or> CopyAssignCore cfg_tombs ex_dead ex_shared = CopyAssignCore cfg_tombs ex_dead ex_shared" by simp
  note T1 = copy_skips_tombstones [OF cfg_tombs_facts(1) inv_ex_dead i c1]
  note T2 = copy_skips_tombstones [OF cfg_tombs_facts(1) inv_ex_dead i c2]
  have a: "length (m_storage (copy_construct cfg_tombs ex_dead)) = 1"
    "filter dead (m_storage (copy_construct cfg_tombs ex_dead)) = []"
    using T1 l(3) by (simp_all add: filter_empty_conv)
  have b: "length (m_storage (CopyAssignCore cfg_tombs ex_dead ex_shared)) = 1"
    "map value_of (m_storage (CopyAssignCore cfg_tombs ex_dead ex_shared)) = [(2, (5, 20))]"
    using T2 l(1,3) by simp_all
  show ?thesis using cfg_tombs_facts(1) inv_ex_dead i l(2,3) a b by simp
qed

end
